(* ===== verification/FKV_Prelude.thy ===== *)
theory FKV_Prelude
  imports Main "HOL-Library.Word" "HOL-Library.AList" "HOL-Library.Char_ord"
    "HOL-Library.List_Lexorder" "HOL-Library.Product_Lexorder"
begin

text \<open>
  The shared vocabulary of the FlashKV development: the machine types of the C++ sources
  (\<open>long long\<close>, \<open>std::size_t\<close>), the compiler's overflow-checking built-ins, the result type
  of code that may throw, and the generic facts on association lists, lists and words that
  the component theories use. It also holds the two interfaces every component with state is
  an instance of: a finite-map container (\<open>kv_container\<close>) and a step-wise machine with an
  invariant (\<open>invariant_machine\<close>).
\<close>

section \<open>Proof collections\<close>

named_theorems handler_safe \<open>safety of the handlers\<close>
named_theorems faithful_handlers \<open>handlers whose log replays to what they did\<close>
named_theorems quiet_handlers \<open>handlers that only look\<close>
named_theorems well_formed_replies \<open>replies that are encodings of reply values\<close>
named_theorems wire_inv \<open>steps that keep the invariant of the server\<close>

section \<open>Machine types\<close>

type_synonym size_t = "64 word"
type_synonym bytes = string

definition LLONG_MAX :: int where "LLONG_MAX = 9223372036854775807"

definition LLONG_MIN :: int where "LLONG_MIN = -9223372036854775808"

definition in_llong :: "int \<Rightarrow> bool" where
  "in_llong n \<longleftrightarrow> LLONG_MIN \<le> n \<and> n \<le> LLONG_MAX"

text \<open>
  \<open>__builtin_add_overflow\<close> and \<open>__builtin_mul_overflow\<close> on \<open>long long\<close>: \<open>None\<close> when the
  built-in reports an overflow, the result otherwise.
\<close>

definition add_overflow :: "int \<Rightarrow> int \<Rightarrow> int option" where
  "add_overflow a b = (if in_llong (a + b) then Some (a + b) else None)"

definition mul_overflow :: "int \<Rightarrow> int \<Rightarrow> int option" where
  "mul_overflow a b = (if in_llong (a * b) then Some (a * b) else None)"

lemma add_overflow_Some [simp]:
  "add_overflow a b = Some c \<longleftrightarrow> c = a + b \<and> in_llong c"
  by (auto simp: add_overflow_def)

lemma mul_overflow_Some [simp]:
  "mul_overflow a b = Some c \<longleftrightarrow> c = a * b \<and> in_llong c"
  by (auto simp: mul_overflow_def)

text \<open>Code that may throw returns \<open>Inl\<close> the exception or \<open>Inr\<close> the value.\<close>

type_synonym ('e, 'a) result = "'e + 'a"

section \<open>Association lists as hash tables\<close>

text \<open>
  \<open>std::unordered_map\<close> is an association list with distinct keys; the iteration order of the
  real container is unspecified and the code sorts whatever it iterates over.
\<close>

lemma map_of_update [simp]:
  "map_of (AList.update k v al) k' = (if k' = k then Some v else map_of al k')"
  by (simp add: AList.update_conv')

lemma map_of_alist_delete [simp]:
  "map_of (AList.delete k al) k' = (if k' = k then None else map_of al k')"
  by (simp add: AList.delete_conv')

lemma fst_set_update [simp]: "fst ` set (AList.update k v al) = insert k (fst ` set al)"
  by (auto simp: AList.dom_update)

lemma fst_set_delete [simp]: "fst ` set (AList.delete k al) = fst ` set al - {k}"
proof -
  have "set (map fst (AList.delete k al)) = set (map fst al) - {k}"
    by (simp add: AList.delete_keys)
  then show ?thesis by simp
qed

lemma distinct_fst_update [simp]:
  "distinct (map fst al) \<Longrightarrow> distinct (map fst (AList.update k v al))"
  by (rule AList.distinct_update)

lemma distinct_fst_delete [simp]:
  "distinct (map fst al) \<Longrightarrow> distinct (map fst (AList.delete k al))"
  by (rule AList.distinct_delete)

lemma map_fst_update_present:
  "map_of al k = Some v \<Longrightarrow> map fst (AList.update k w al) = map fst al"
  by (induction al) (auto split: if_splits)

lemma length_update_present:
  "map_of al k = Some v \<Longrightarrow> length (AList.update k w al) = length al"
  using map_fst_update_present [THEN arg_cong, of al k v length w] by simp

lemma length_update_absent:
  "map_of al k = None \<Longrightarrow> length (AList.update k w al) = Suc (length al)"
  by (induction al) (auto split: if_splits)

lemma length_delete_present:
  "distinct (map fst al) \<Longrightarrow> map_of al k = Some v \<Longrightarrow>
    Suc (length (AList.delete k al)) = length al"
proof (induction al)
  case Nil
  then show ?case by simp
next
  case (Cons p al)
  then show ?case
    by (cases "fst p = k") (auto simp: image_iff split: if_splits)
qed

lemma map_of_SomeD_fst: "map_of al k = Some v \<Longrightarrow> k \<in> fst ` set al"
  by (metis image_eqI fst_conv map_of_SomeD)

lemma map_of_None_fst: "map_of al k = None \<longleftrightarrow> k \<notin> fst ` set al"
  by (simp add: map_of_eq_None_iff)

lemma in_fst_map_of: "k \<in> fst ` set al \<longleftrightarrow> (\<exists>v. map_of al k = Some v)"
  by (metis map_of_None_fst not_None_eq)

text \<open>Sums over the entries of a table follow its updates.\<close>

abbreviation alist_sum :: "('k \<times> 'v \<Rightarrow> 'a::comm_monoid_add) \<Rightarrow> ('k \<times> 'v) list \<Rightarrow> 'a" where
  "alist_sum f al \<equiv> sum_list (map f al)"

lemma alist_sum_update_present:
  fixes f :: "'k \<times> 'v \<Rightarrow> 'a::ab_group_add"
  assumes "map_of al k = Some v" "distinct (map fst al)"
  shows "alist_sum f (AList.update k w al) = alist_sum f al - f (k, v) + f (k, w)"
  using assms by (induction al) (auto split: if_splits simp: algebra_simps)

lemma alist_sum_update_absent:
  "map_of al k = None \<Longrightarrow> alist_sum f (AList.update k w al) = alist_sum f al + f (k, w)"
  by (induction al) (auto split: if_splits simp: algebra_simps)

lemma alist_sum_delete_present:
  fixes f :: "'k \<times> 'v \<Rightarrow> 'a::ab_group_add"
  assumes "map_of al k = Some v" "distinct (map fst al)"
  shows "alist_sum f (AList.delete k al) = alist_sum f al - f (k, v)"
  using assms
proof (induction al)
  case Nil
  then show ?case by simp
next
  case (Cons p al)
  then show ?case
    by (cases "fst p = k") (auto simp: algebra_simps image_iff split: if_splits)
qed

lemma nat_alist_sum_update_present:
  fixes f :: "'k \<times> 'v \<Rightarrow> nat"
  assumes "map_of al k = Some v" "distinct (map fst al)"
  shows "alist_sum f (AList.update k w al) + f (k, v) = alist_sum f al + f (k, w)"
  using assms by (induction al) (auto split: if_splits)

lemma nat_alist_sum_delete_present:
  fixes f :: "'k \<times> 'v \<Rightarrow> nat"
  assumes "map_of al k = Some v" "distinct (map fst al)"
  shows "alist_sum f (AList.delete k al) + f (k, v) = alist_sum f al"
  using assms
proof (induction al)
  case Nil
  then show ?case by simp
next
  case (Cons p al)
  then show ?case
    by (cases "fst p = k") (auto simp: image_iff split: if_splits)
qed

section \<open>The container interface\<close>

text \<open>
  What the database, the hash values and the set values rely on of their hash tables: lookups
  after an insertion or an erasure, and that both keep the container well formed. The facts
  proved once here are the ones the components use.
\<close>

locale kv_container =
  fixes empty_c :: "'m"
    and lookup_c :: "'m \<Rightarrow> 'k \<Rightarrow> 'v option"
    and insert_c :: "'k \<Rightarrow> 'v \<Rightarrow> 'm \<Rightarrow> 'm"
    and erase_c :: "'k \<Rightarrow> 'm \<Rightarrow> 'm"
    and size_c :: "'m \<Rightarrow> nat"
    and wf_c :: "'m \<Rightarrow> bool"
  assumes lookup_empty: "lookup_c empty_c k = None"
    and wf_empty: "wf_c empty_c"
    and size_empty: "size_c empty_c = 0"
    and lookup_insert: "wf_c m \<Longrightarrow> lookup_c (insert_c k v m) k' = (if k' = k then Some v else lookup_c m k')"
    and wf_insert: "wf_c m \<Longrightarrow> wf_c (insert_c k v m)"
    and lookup_erase: "wf_c m \<Longrightarrow> lookup_c (erase_c k m) k' = (if k' = k then None else lookup_c m k')"
    and wf_erase: "wf_c m \<Longrightarrow> wf_c (erase_c k m)"
    and size_insert: "wf_c m \<Longrightarrow>
      size_c (insert_c k v m) = (if lookup_c m k = None then Suc (size_c m) else size_c m)"
    and size_erase: "wf_c m \<Longrightarrow>
      size_c (erase_c k m) = (if lookup_c m k = None then size_c m else size_c m - 1)"
    and size_zero: "wf_c m \<Longrightarrow> size_c m = 0 \<longleftrightarrow> (\<forall>k. lookup_c m k = None)"
begin

lemma insert_many_wf: "wf_c m \<Longrightarrow> wf_c (fold (\<lambda>(k, v). insert_c k v) kvs m)"
  by (induction kvs arbitrary: m) (auto simp: wf_insert)

lemma insert_many_lookup:
  "wf_c m \<Longrightarrow> lookup_c (fold (\<lambda>(k, v). insert_c k v) kvs m) =
     (\<lambda>k. case map_of (rev kvs) k of Some v \<Rightarrow> Some v | None \<Rightarrow> lookup_c m k)"
proof (induction kvs arbitrary: m)
  case Nil
  then show ?case by simp
next
  case (Cons p kvs)
  obtain k v where p: "p = (k, v)" by (cases p)
  show ?case
    using Cons.IH [OF wf_insert [OF Cons.prems, of k v]] Cons.prems
    by (auto simp: p fun_eq_iff lookup_insert map_add_def split: option.splits)
qed

lemma erase_many_wf: "wf_c m \<Longrightarrow> wf_c (fold erase_c ks m)"
  by (induction ks arbitrary: m) (auto simp: wf_erase)

lemma erase_many_lookup:
  "wf_c m \<Longrightarrow> lookup_c (fold erase_c ks m) = (\<lambda>k. if k \<in> set ks then None else lookup_c m k)"
  by (induction ks arbitrary: m) (auto simp: fun_eq_iff lookup_erase wf_erase)

lemma size_pos: "wf_c m \<Longrightarrow> lookup_c m k = Some v \<Longrightarrow> 0 < size_c m"
  using size_zero [of m] by fastforce

end

interpretation alist_table: kv_container "[]" map_of AList.update AList.delete length
  "\<lambda>al. distinct (map fst al)"
proof unfold_locales
  fix m :: "('a \<times> 'b) list" and k v
  assume wf: "distinct (map fst m)"
  show "length (AList.update k v m) = (if map_of m k = None then Suc (length m) else length m)"
    by (auto simp: length_update_absent length_update_present)
  show "length (AList.delete k m) = (if map_of m k = None then length m else length m - 1)"
    using length_delete_present [OF wf, of k] by (cases "map_of m k") (auto simp: map_of_None_fst)
  show "(length m = 0) = (\<forall>k. map_of m k = None)"
    by (cases m) (auto simp: map_of_None_fst)
qed auto

section \<open>Machines with an invariant\<close>

text \<open>
  A component that is driven by a sequence of commands: what one step keeps, a whole run keeps.
\<close>

locale invariant_machine =
  fixes step :: "'i \<Rightarrow> 's \<Rightarrow> 'o \<times> 's"
    and inv :: "'s \<Rightarrow> bool"
  assumes step_inv: "inv s \<Longrightarrow> inv (snd (step i s))"
begin

lemma run_inv: "inv s \<Longrightarrow> inv (fold (\<lambda>i s. snd (step i s)) is s)"
  by (induction "is" arbitrary: s) (auto simp: step_inv)

end

text \<open>
  A component whose next state the environment chooses: what every step keeps holds in every state
  that can be reached, and what a step relates a run relates.
\<close>

locale step_system =
  fixes move :: "'s \<Rightarrow> 's \<Rightarrow> bool"
    and inv :: "'s \<Rightarrow> bool"
  assumes move_inv: "inv s \<Longrightarrow> move s s' \<Longrightarrow> inv s'"
begin

lemma reach_inv: "move\<^sup>*\<^sup>* s s' \<Longrightarrow> inv s \<Longrightarrow> inv s'"
  by (induction rule: rtranclp_induct) (auto intro: move_inv)

lemma reach_induct:
  assumes "move\<^sup>*\<^sup>* s s'" "inv s" "P s" "\<And>t t'. inv t \<Longrightarrow> P t \<Longrightarrow> move t t' \<Longrightarrow> P t'"
  shows "P s'"
  using assms(1)
proof (induction rule: rtranclp_induct)
  case (step t t')
  then show ?case using assms(2,4) reach_inv by blast
qed (rule assms(3))

end

section \<open>Lists\<close>

lemma distinct_filter_fst_unique:
  assumes "distinct (map fst xs)" "(i, x) \<in> set xs"
  shows "filter (\<lambda>c. fst c = i) xs = [(i, x)]"
  using assms
proof (induction xs)
  case Nil
  then show ?case by simp
next
  case (Cons p xs)
  then show ?case
    by (cases p) (force simp: filter_empty_conv)
qed

lemma set_filter_fst_neq:
  assumes "distinct (map fst xs)" "(i, x) \<in> set xs"
  shows "set (filter (\<lambda>c. fst c \<noteq> i) xs) = set xs - {(i, x)}"
  using assms by (fastforce simp: inj_on_def distinct_map)

lemma map_filter_fst_distinct:
  "distinct (map f xs) \<Longrightarrow> distinct (map f (filter P xs))"
  by (simp add: distinct_map_filter)

lemma map_snd_filter_fst_neq:
  assumes "distinct (map fst xs)" "distinct (map snd xs)" "(i, x) \<in> set xs"
  shows "map snd (filter (\<lambda>c. fst c \<noteq> i) xs) = filter (\<lambda>y. y \<noteq> x) (map snd xs)"
  using assms
proof (induction xs)
  case Nil
  then show ?case by simp
next
  case (Cons p xs)
  obtain j y where p: "p = (j, y)" by (cases p)
  show ?case
  proof (cases "j = i")
    case True
    then have "y = x" using Cons.prems p by force
    moreover have "filter (\<lambda>c. fst c \<noteq> i) xs = xs"
      using Cons.prems True p by (force simp: filter_id_conv)
    moreover have "filter (\<lambda>y. y \<noteq> x) (map snd xs) = map snd xs"
      using Cons.prems \<open>y = x\<close> p by (force simp: filter_id_conv)
    ultimately show ?thesis using p True by simp
  next
    case False
    then have "(i, x) \<in> set xs" using Cons.prems p by simp
    moreover from this have "y \<noteq> x" using Cons.prems p by force
    ultimately show ?thesis using Cons p False by simp
  qed
qed

end
