(* ===== verification/FKV_Cstd.thy ===== *)
theory FKV_Cstd
  imports FKV_Prelude
begin

text \<open>
  The parts of the C++ standard library the sources use on text: \<open>std::to_string\<close>,
  \<open>std::from_chars\<close> for \<open>long long\<close> and \<open>unsigned long long\<close>, \<open>std::toupper\<close> and
  \<open>std::tolower\<close> in the C locale, and the search functions of \<open>std::string_view\<close>. Printing a
  number and reading it back is the identity, which the protocol and the append-only file
  both rest on.
\<close>

section \<open>Characters\<close>

abbreviation CR :: char where "CR \<equiv> CHR 0x0D"
abbreviation LF :: char where "LF \<equiv> CHR 0x0A"
abbreviation TAB :: char where "TAB \<equiv> CHR 0x09"
abbreviation BACKSLASH :: char where "BACKSLASH \<equiv> CHR 0x5C"
abbreviation DQUOTE :: char where "DQUOTE \<equiv> CHR 0x22"
abbreviation SQUOTE :: char where "SQUOTE \<equiv> CHR 0x27"

definition byte :: "char \<Rightarrow> nat" where
  "byte c = of_char c"

definition CRLF :: bytes where
  "CRLF = [CR, LF]"

definition is_digit :: "char \<Rightarrow> bool" where
  "is_digit c \<longleftrightarrow> 48 \<le> byte c \<and> byte c \<le> 57"

definition digit_value :: "char \<Rightarrow> nat" where
  "digit_value c = byte c - 48"

definition digit_char :: "nat \<Rightarrow> char" where
  "digit_char d = char_of (48 + d)"

definition to_upper :: "char \<Rightarrow> char" where
  "to_upper c = (if 97 \<le> byte c \<and> byte c \<le> 122 then char_of (byte c - 32) else c)"

definition to_lower :: "char \<Rightarrow> char" where
  "to_lower c = (if 65 \<le> byte c \<and> byte c \<le> 90 then char_of (byte c + 32) else c)"

lemma byte_less: "byte c < 256"
  by (simp add: byte_def)

lemma byte_inject [simp]: "byte c = byte d \<longleftrightarrow> c = d"
  by (simp add: byte_def)

lemma byte_char_of [simp]: "n < 256 \<Longrightarrow> byte (char_of n) = n"
  by (simp add: byte_def)

lemma digit_char_props:
  assumes "d < 10"
  shows "is_digit (digit_char d)" "digit_value (digit_char d) = d" "byte (digit_char d) = 48 + d"
  using assms by (simp_all add: is_digit_def digit_char_def digit_value_def)

lemma is_digit_minus [simp]: "\<not> is_digit (CHR ''-'')"
  by (simp add: is_digit_def byte_def)

lemma is_digit_CR [simp]: "\<not> is_digit CR"
  by (simp add: is_digit_def byte_def)

section \<open>Printing numbers\<close>

fun to_string_nat :: "nat \<Rightarrow> bytes" where
  "to_string_nat n =
     (if n < 10 then [digit_char n] else to_string_nat (n div 10) @ [digit_char (n mod 10)])"

declare to_string_nat.simps [simp del]

definition to_string :: "int \<Rightarrow> bytes" where
  "to_string n = (if n < 0 then CHR ''-'' # to_string_nat (nat (- n)) else to_string_nat (nat n))"

lemma to_string_nat_nonempty [simp]: "to_string_nat n \<noteq> []"
  by (subst to_string_nat.simps) simp

lemma to_string_nat_digits: "c \<in> set (to_string_nat n) \<Longrightarrow> is_digit c"
proof (induction n rule: to_string_nat.induct)
  case (1 n)
  show ?case
  proof (cases "n < 10")
    case True
    with "1.prems" show ?thesis
      by (subst (asm) to_string_nat.simps) (simp add: digit_char_props)
  next
    case False
    with "1.prems" have "c \<in> set (to_string_nat (n div 10)) \<or> c = digit_char (n mod 10)"
      by (subst (asm) to_string_nat.simps) auto
    with "1.IH" [OF False] show ?thesis
      by (auto simp: digit_char_props)
  qed
qed

section \<open>Reading numbers\<close>

definition digits_value :: "bytes \<Rightarrow> nat" where
  "digits_value ds = foldl (\<lambda>n c. 10 * n + digit_value c) 0 ds"

lemma digits_value_append1: "digits_value (ds @ [c]) = 10 * digits_value ds + digit_value c"
  by (simp add: digits_value_def)

lemma digits_value_to_string_nat [simp]: "digits_value (to_string_nat n) = n"
proof (induction n rule: to_string_nat.induct)
  case (1 n)
  show ?case
  proof (cases "n < 10")
    case True
    then show ?thesis
      by (subst to_string_nat.simps) (simp add: digits_value_def digit_char_props)
  next
    case False
    with "1.IH" show ?thesis
      by (subst to_string_nat.simps) (simp add: digits_value_append1 digit_char_props)
  qed
qed

text \<open>
  \<open>std::from_chars(begin, end, value)\<close> in base ten: an optional minus sign (never a plus sign
  or white space), then the longest run of digits. \<open>None\<close> is an error code
  (\<open>invalid_argument\<close> with no digit, \<open>result_out_of_range\<close>); otherwise the value and what is
  left from the returned pointer on.
\<close>

definition from_chars_ll :: "bytes \<Rightarrow> (int \<times> bytes) option" where
  "from_chars_ll text =
     (let negative = (text \<noteq> [] \<and> hd text = CHR ''-'');
          body = (if negative then tl text else text);
          ds = takeWhile is_digit body;
          v = (if negative then - int (digits_value ds) else int (digits_value ds))
      in if ds = [] \<or> \<not> in_llong v then None else Some (v, dropWhile is_digit body))"

definition from_chars_ull :: "bytes \<Rightarrow> (nat \<times> bytes) option" where
  "from_chars_ull text =
     (let ds = takeWhile is_digit text
      in if ds = [] \<or> 2 ^ 64 \<le> digits_value ds then None
         else Some (digits_value ds, dropWhile is_digit text))"

lemma takeWhile_digits_append:
  assumes "rest = [] \<or> \<not> is_digit (hd rest)"
  shows "takeWhile is_digit (to_string_nat n @ rest) = to_string_nat n"
    and "dropWhile is_digit (to_string_nat n @ rest) = rest"
  using assms to_string_nat_digits
  by (simp_all add: takeWhile_append2 dropWhile_append2) (cases rest; simp)+

lemma hd_to_string_nat_digit: "is_digit (hd (to_string_nat n @ rest))"
  using to_string_nat_digits [of "hd (to_string_nat n)" n] by simp

theorem from_chars_to_string:
  assumes "in_llong n" "rest = [] \<or> \<not> is_digit (hd rest)"
  shows "from_chars_ll (to_string n @ rest) = Some (n, rest)"
proof (cases "n < 0")
  case True
  with assms show ?thesis
    by (simp add: from_chars_ll_def to_string_def takeWhile_digits_append)
next
  case False
  have "hd (to_string_nat (nat n) @ rest) \<noteq> CHR ''-''"
    using hd_to_string_nat_digit [of "nat n" rest] by (metis is_digit_minus)
  with assms False show ?thesis
    by (simp add: from_chars_ll_def to_string_def takeWhile_digits_append)
qed

lemma from_chars_ll_range: "from_chars_ll s = Some (v, r) \<Longrightarrow> in_llong v"
  by (auto simp: from_chars_ll_def Let_def split: if_splits)

lemma from_chars_ll_Nil [simp]: "from_chars_ll [] = None"
  by (simp add: from_chars_ll_def)

text \<open>
  \<open>std::stoi\<close> and \<open>std::stoll\<close>: leading white space, a sign, digits; what follows is ignored.
  \<open>None\<close> when they throw.
\<close>

definition c_space :: "char \<Rightarrow> bool" where
  "c_space c \<longleftrightarrow> byte c = 32 \<or> 9 \<le> byte c \<and> byte c \<le> 13"

definition strtol :: "bytes \<Rightarrow> int option" where
  "strtol s =
     (let s1 = dropWhile c_space s;
          negative = (s1 \<noteq> [] \<and> hd s1 = CHR ''-'');
          ds = takeWhile is_digit (if s1 \<noteq> [] \<and> (hd s1 = CHR ''-'' \<or> hd s1 = CHR ''+'') then tl s1 else s1)
      in if ds = [] then None
         else Some (if negative then - int (digits_value ds) else int (digits_value ds)))"

definition stoi :: "bytes \<Rightarrow> int option" where
  "stoi s = (case strtol s of None \<Rightarrow> None | Some n \<Rightarrow> if - (2 ^ 31) \<le> n \<and> n < 2 ^ 31 then Some n else None)"

definition stoll :: "bytes \<Rightarrow> int option" where
  "stoll s = (case strtol s of None \<Rightarrow> None | Some n \<Rightarrow> if in_llong n then Some n else None)"

lemma strtol_to_string: "strtol (to_string n) = Some n"
proof -
  have "\<not> c_space c" if "is_digit c" for c
    using that by (auto simp: c_space_def is_digit_def)
  then have drop: "dropWhile c_space (to_string n) = to_string n"
    using hd_to_string_nat_digit [of "nat n" "[]"]
    by (cases "to_string n") (auto simp: to_string_def c_space_def byte_def split: if_splits)
  have "hd (to_string_nat (nat n)) \<noteq> CHR ''-''" "hd (to_string_nat (nat n)) \<noteq> CHR ''+''"
    using hd_to_string_nat_digit [of "nat n" "[]"] by (auto simp: is_digit_def byte_def)
  moreover have all: "takeWhile is_digit (to_string_nat k) = to_string_nat k" for k
    using takeWhile_digits_append(1) [of "[]" k] by (simp only: append_Nil2 simp_thms)
  ultimately show ?thesis
    using drop by (cases "n < 0") (simp_all add: strtol_def to_string_def Let_def all)
qed

lemma stoll_to_string [simp]: "in_llong n \<Longrightarrow> stoll (to_string n) = Some n"
  by (simp add: stoll_def strtol_to_string)

section \<open>Case conversion\<close>

definition uppercase :: "bytes \<Rightarrow> bytes" where
  "uppercase value = map to_upper value"

definition lowercase :: "bytes \<Rightarrow> bytes" where
  "lowercase value = map to_lower value"

lemma byte_to_upper: "byte (to_upper c) = (if 97 \<le> byte c \<and> byte c \<le> 122 then byte c - 32 else byte c)"
  using byte_less [of c] by (auto simp: to_upper_def)

lemma to_upper_idem [simp]: "to_upper (to_upper c) = to_upper c"
  unfolding byte_inject [symmetric] by (auto simp: byte_to_upper)

lemma uppercase_idem [simp]: "uppercase (uppercase s) = uppercase s"
  by (simp add: uppercase_def)

section \<open>Searching\<close>

text \<open>\<open>find(c)\<close> and \<open>find("\r\n", position)\<close> of a string view; \<open>None\<close> is \<open>npos\<close>.\<close>

fun find_char :: "char \<Rightarrow> bytes \<Rightarrow> nat option" where
  "find_char c [] = None"
| "find_char c (x # xs) = (if x = c then Some 0 else map_option Suc (find_char c xs))"

fun find_crlf :: "bytes \<Rightarrow> nat option" where
  "find_crlf [] = None"
| "find_crlf [x] = None"
| "find_crlf (x # y # xs) =
     (if x = CR \<and> y = LF then Some 0 else map_option Suc (find_crlf (y # xs)))"

definition find_crlf_from :: "bytes \<Rightarrow> nat \<Rightarrow> nat option" where
  "find_crlf_from s position = map_option ((+) position) (find_crlf (drop position s))"

lemma find_char_Some: "find_char c s = Some i \<Longrightarrow> i < length s \<and> s ! i = c \<and> c \<notin> set (take i s)"
  by (induction s arbitrary: i) (auto split: if_splits)

lemma find_char_append: "find_char c s = Some i \<Longrightarrow> find_char c (s @ t) = Some i"
  by (induction s arbitrary: i) (auto split: if_splits)

lemma find_crlf_bound: "find_crlf s = Some i \<Longrightarrow> i + 2 \<le> length s"
  by (induction s arbitrary: i rule: find_crlf.induct) (auto split: if_splits)

lemma find_crlf_append: "find_crlf s = Some i \<Longrightarrow> find_crlf (s @ t) = Some i"
  by (induction s arbitrary: i rule: find_crlf.induct) (auto split: if_splits)

lemma find_crlf_hit: "CR \<notin> set s \<Longrightarrow> find_crlf (s @ CR # LF # t) = Some (length s)"
proof (induction s)
  case Nil
  then show ?case by simp
next
  case (Cons x s)
  then obtain y ys where "s @ CR # LF # t = y # ys" by (cases s) auto
  with Cons show ?case by auto
qed

lemma find_crlf_from_bound:
  "find_crlf_from s p = Some i \<Longrightarrow> p \<le> i \<and> i + 2 \<le> length s"
  using find_crlf_bound [of "drop p s"] by (cases "p \<le> length s") (auto simp: find_crlf_from_def)

lemma find_crlf_from_append:
  "find_crlf_from s p = Some i \<Longrightarrow> find_crlf_from (s @ t) p = Some i"
  using find_crlf_append [of "drop p s" _ "drop (p - length s) t"]
  by (auto simp: find_crlf_from_def)

lemma CR_notin_to_string_nat [simp]: "CR \<notin> set (to_string_nat n)"
  using to_string_nat_digits [of CR n] by auto

end
