(* ===== verification/FKV_Glob.thy ===== *)
theory FKV_Glob
  imports FKV_Cstd
begin

text \<open>
  Glob matching, \<open>matchCharacterClass\<close> and \<open>globMatch\<close> of \<open>src/src/database.cpp\<close>, used by
  \<open>KEYS\<close> and \<open>CONFIG GET\<close>. The code is an iterative matcher with one backtracking point (the
  last \<open>*\<close>); positions are the remaining suffixes of pattern and text. The theorem is that it
  agrees with the declarative reading of a pattern: cut the pattern into tokens, and let each
  \<open>*\<close> stand for any run of characters and each bracket for the set of its characters and ranges,
  or for the others when it is negated.
\<close>

section \<open>The code\<close>

text \<open>\<open>char\<close> is signed on the platforms the project is built for, and the class ranges compare
  plain \<open>char\<close>s.\<close>

definition schar :: "char \<Rightarrow> int" where
  "schar c = (if byte c < 128 then int (byte c) else int (byte c) - 256)"

definition class_ranged :: "bytes \<Rightarrow> bool" where
  "class_ranged after = (case after of d # h # _ \<Rightarrow> d = CHR ''-'' \<and> h \<noteq> CHR '']'' | _ \<Rightarrow> False)"

text \<open>One member of a class, at the head of the pattern: a character, escaped or not, or a range.
  The result is \<open>low\<close>, \<open>high\<close> and the position after the member.\<close>

fun class_item :: "bytes \<Rightarrow> char \<times> char \<times> bytes" where
  "class_item [] = (CHR 0x00, CHR 0x00, [])"
| "class_item (x # xs) =
     (let here = (if x = BACKSLASH \<and> xs \<noteq> [] then xs else x # xs);
          low = hd here;
          after = tl here
      in if class_ranged after then (low, hd (tl after), drop 2 after) else (low, low, after))"

definition in_class_range :: "char \<Rightarrow> char \<Rightarrow> char \<Rightarrow> bool" where
  "in_class_range low high character =
     (let (lo, hi) = (if schar low > schar high then (high, low) else (low, high))
      in schar character \<ge> schar lo \<and> schar character \<le> schar hi)"

lemma class_item_length: "class_item (x # xs) = (low, high, rest) \<Longrightarrow> length rest \<le> length xs"
  by (auto simp: Let_def split: if_splits)

text \<open>The loop of \<open>matchCharacterClass\<close> over the members of the class, up to and including the
  closing bracket.\<close>

function class_loop :: "char \<Rightarrow> bool \<Rightarrow> bytes \<Rightarrow> bool \<times> bytes" where
  "class_loop character matched [] = (matched, [])"
| "class_loop character matched (x # xs) =
     (if x = CHR '']'' then (matched, xs)
      else case class_item (x # xs) of (low, high, rest) \<Rightarrow>
        class_loop character (matched \<or> in_class_range low high character) rest)"
  by pat_completeness auto
termination
  by (relation "measure (\<lambda>(c, m, s). length s)")
    (auto simp: less_Suc_eq_le simp del: class_item.simps dest: class_item_length [OF sym])

definition matchCharacterClass :: "bytes \<Rightarrow> char \<Rightarrow> bool \<times> bytes" where
  "matchCharacterClass pattern character =
     (let inner = tl pattern;
          negate = (inner \<noteq> [] \<and> hd inner = CHR ''^'');
          members = (if negate then tl inner else inner);
          (matched, rest) = class_loop character False members
      in (matched \<noteq> negate, rest))"

lemma class_loop_length: "length (snd (class_loop c m s)) \<le> length s"
proof (induction s arbitrary: m rule: length_induct)
  case (1 s)
  then have IH: "length ys < length s \<Longrightarrow> length (snd (class_loop c m' ys)) \<le> length s" for m' ys
    by (meson less_imp_le_nat le_trans)
  show ?case
  proof (cases s)
    case Nil
    then show ?thesis by simp
  next
    case (Cons x xs)
    obtain low high rest where item: "class_item (x # xs) = (low, high, rest)"
      by (cases "class_item (x # xs)")
    then have "length rest < length s"
      using class_item_length [OF item] Cons by simp
    then show ?thesis
      using IH item Cons by (simp del: class_item.simps)
  qed
qed

lemma matchCharacterClass_length:
  "length (snd (matchCharacterClass (x # ps) c)) \<le> length ps"
proof -
  have "length (snd (class_loop c False ps)) \<le> length ps"
    "length (snd (class_loop c False (tl ps))) \<le> length ps"
    using class_loop_length [of c False ps] class_loop_length [of c False "tl ps"] by simp_all
  then show ?thesis
    by (auto simp: matchCharacterClass_def Let_def split: prod.splits)
qed

text \<open>
  One pattern token other than \<open>*\<close> against one character: \<open>Some\<close> the rest of the pattern when
  the character is accepted.
\<close>

fun glob_token :: "bytes \<Rightarrow> char \<Rightarrow> bytes option" where
  "glob_token [] c = None"
| "glob_token (token # ps) c =
     (if token = CHR ''?'' then Some ps
      else if token = CHR ''['' then
        (let (matched, next) = matchCharacterClass (token # ps) c
         in if matched then Some next else None)
      else
        (let escaped = (token = BACKSLASH \<and> ps \<noteq> []);
             literal = (if escaped then hd ps else token);
             next = (if escaped then tl ps else ps)
         in if literal = c then Some next else None))"

lemma glob_token_length: "glob_token p c = Some rest \<Longrightarrow> length rest < length p"
proof (induction p c rule: glob_token.induct)
  case (2 token ps c)
  then show ?case
    using matchCharacterClass_length [of token ps c]
    by (auto simp: Let_def less_Suc_eq_le split: if_splits prod.splits)
qed simp

text \<open>
  The main loop. \<open>star\<close> is \<open>None\<close> while \<open>starPattern\<close> is \<open>NONE\<close>, otherwise the suffixes at
  \<open>starPattern\<close> and \<open>starText\<close>; the last branch lets the last \<open>*\<close> absorb one more character.
\<close>

function glob_loop :: "bytes \<Rightarrow> bytes \<Rightarrow> (bytes \<times> bytes) option \<Rightarrow> bool" where
  "glob_loop pattern [] star = (dropWhile (\<lambda>c. c = CHR ''*'') pattern = [])"
| "glob_loop pattern (c # cs) star =
     (if pattern \<noteq> [] \<and> hd pattern = CHR ''*''
      then glob_loop (tl pattern) (c # cs) (Some (tl pattern, c # cs))
      else case glob_token pattern c of
             Some rest \<Rightarrow> glob_loop rest cs star
           | None \<Rightarrow>
               (case star of
                  Some (starPattern, starText) \<Rightarrow>
                    glob_loop starPattern (tl starText) (Some (starPattern, tl starText))
                | None \<Rightarrow> False))"
  by pat_completeness auto
termination
  by (relation "measures
      [\<lambda>(p, t, star). case star of None \<Rightarrow> 0 | Some (_, st) \<Rightarrow> if length st < length t then 1 else 0,
       \<lambda>(p, t, star). case star of None \<Rightarrow> length t + 1 | Some (_, st) \<Rightarrow> length st,
       \<lambda>(p, t, star). length p]")
    (auto split: option.splits if_splits dest: glob_token_length)

definition globMatch :: "bytes \<Rightarrow> bytes \<Rightarrow> bool" where
  "globMatch pattern text = glob_loop pattern text None"

section \<open>The declarative reading of a pattern\<close>

text \<open>
  The members of a character class: \<open>class_members s S rest\<close> reads the body \<open>s\<close> of a class, after the
  opening bracket and the negation sign, as the set \<open>S\<close> of characters, and leaves the pattern \<open>rest\<close>.
  A backslash quotes the next character; a member, a minus sign and a character other than the closing
  bracket are a range, in either direction; the class ends at the first closing bracket that is not
  quoted and not part of a range, or with the pattern.
\<close>

definition char_range :: "char \<Rightarrow> char \<Rightarrow> char set" where
  "char_range a b = {c. min (schar a) (schar b) \<le> schar c \<and> schar c \<le> max (schar a) (schar b)}"

definition begins_range :: "bytes \<Rightarrow> bool" where
  "begins_range ps \<longleftrightarrow> (\<exists>h qs. ps = CHR ''-'' # h # qs \<and> h \<noteq> CHR '']'')"

inductive class_members :: "bytes \<Rightarrow> char set \<Rightarrow> bytes \<Rightarrow> bool" where
  closed: "class_members (CHR '']'' # rest) {} rest"
| unclosed: "class_members [] {} []"
| member: "c \<noteq> CHR '']'' \<Longrightarrow> c \<noteq> BACKSLASH \<or> ps = [] \<Longrightarrow> \<not> begins_range ps \<Longrightarrow> class_members ps S rest \<Longrightarrow>
    class_members (c # ps) (insert c S) rest"
| quoted: "\<not> begins_range ps \<Longrightarrow> class_members ps S rest \<Longrightarrow> class_members (BACKSLASH # c # ps) (insert c S) rest"
| range: "a \<noteq> CHR '']'' \<Longrightarrow> a \<noteq> BACKSLASH \<Longrightarrow> b \<noteq> CHR '']'' \<Longrightarrow> class_members ps S rest \<Longrightarrow>
    class_members (a # CHR ''-'' # b # ps) (char_range a b \<union> S) rest"
| quoted_range: "b \<noteq> CHR '']'' \<Longrightarrow> class_members ps S rest \<Longrightarrow>
    class_members (BACKSLASH # a # CHR ''-'' # b # ps) (char_range a b \<union> S) rest"

inductive glob_spec :: "bytes \<Rightarrow> bytes \<Rightarrow> bool" where
  empty: "glob_spec [] []"
| star: "glob_spec ps t \<Longrightarrow> glob_spec (CHR ''*'' # ps) (u @ t)"
| any: "glob_spec ps t \<Longrightarrow> glob_spec (CHR ''?'' # ps) (c # t)"
| char_class: "ps = [] \<or> hd ps \<noteq> CHR ''^'' \<Longrightarrow> class_members ps S rest \<Longrightarrow> c \<in> S \<Longrightarrow> glob_spec rest t \<Longrightarrow>
    glob_spec (CHR ''['' # ps) (c # t)"
| negated_class: "class_members ps S rest \<Longrightarrow> c \<notin> S \<Longrightarrow> glob_spec rest t \<Longrightarrow>
    glob_spec (CHR ''['' # CHR ''^'' # ps) (c # t)"
| escape: "glob_spec ps t \<Longrightarrow> glob_spec (BACKSLASH # c # ps) (c # t)"
| literal: "c \<notin> {CHR ''*'', CHR ''?'', CHR ''[''} \<Longrightarrow> c \<noteq> BACKSLASH \<or> ps = [] \<Longrightarrow> glob_spec ps t \<Longrightarrow>
    glob_spec (c # ps) (c # t)"

section \<open>Classes\<close>

lemma class_ranged_begins: "class_ranged ps = begins_range ps"
  by (auto simp: class_ranged_def begins_range_def split: list.splits)

lemma in_class_range_iff: "in_class_range a b c \<longleftrightarrow> c \<in> char_range a b"
  by (auto simp: in_class_range_def char_range_def)

lemma in_class_range_same: "in_class_range a a c \<longleftrightarrow> c = a"
proof -
  have "schar c = schar a \<longleftrightarrow> c = a"
    using byte_less [of a] byte_less [of c] by (auto simp: schar_def split: if_splits)
  then show ?thesis by (auto simp: in_class_range_def)
qed

lemma class_loop_members: "class_members s S rest \<Longrightarrow> class_loop c m s = (m \<or> c \<in> S, rest)"
proof (induction arbitrary: m rule: class_members.induct)
  case (member x ps S rest)
  then have "class_item (x # ps) = (x, x, ps)" by (auto simp: class_ranged_begins Let_def)
  with member show ?case by (auto simp: in_class_range_same simp del: class_item.simps)
next
  case (quoted ps S rest x)
  then have "class_item (BACKSLASH # x # ps) = (x, x, ps)" by (simp add: class_ranged_begins Let_def)
  with quoted show ?case by (auto simp: in_class_range_same simp del: class_item.simps)
next
  case (range x y ps S rest)
  then have "class_item (x # CHR ''-'' # y # ps) = (x, y, ps)" by (simp add: class_ranged_def Let_def)
  with range show ?case by (auto simp: in_class_range_iff simp del: class_item.simps)
next
  case (quoted_range y ps S rest x)
  then have "class_item (BACKSLASH # x # CHR ''-'' # y # ps) = (x, y, ps)" by (simp add: class_ranged_def Let_def)
  with quoted_range show ?case by (auto simp: in_class_range_iff simp del: class_item.simps)
qed simp_all

lemma class_members_total: "\<exists>S rest. class_members s S rest"
proof (induction s rule: length_induct)
  case (1 s)
  then have IH: "length ys < length s \<Longrightarrow> \<exists>S rest. class_members ys S rest" for ys by blast
  have tail: "\<exists>S rest. class_members (pre @ x # ps) S rest"
    if "length (x # ps) \<le> length s" "pre = [] \<and> x \<noteq> CHR '']'' \<and> (x \<noteq> BACKSLASH \<or> ps = []) \<or> pre = [BACKSLASH]" for pre x ps
  proof (cases "begins_range ps")
    case True
    then obtain b qs where b: "ps = CHR ''-'' # b # qs" "b \<noteq> CHR '']''" by (auto simp: begins_range_def)
    moreover have "length qs < length s" using that(1) b(1) by simp
    then obtain S rest where "class_members qs S rest" using IH by blast
    ultimately show ?thesis
      using that(2)
      by (intro exI [of _ "char_range x b \<union> S"] exI [of _ rest]) (auto intro: class_members.range class_members.quoted_range)
  next
    case False
    moreover have "length ps < length s" using that(1) by simp
    then obtain S rest where "class_members ps S rest" using IH by blast
    ultimately show ?thesis
      using that(2) by (intro exI [of _ "insert x S"] exI [of _ rest]) (auto intro: class_members.member class_members.quoted)
  qed
  show ?case
  proof (cases s)
    case Nil
    then show ?thesis by (auto intro: class_members.unclosed)
  next
    case (Cons x xs)
    show ?thesis
    proof (cases "x = BACKSLASH \<and> xs \<noteq> []")
      case True
      then obtain y ys where "xs = y # ys" by (cases xs) auto
      with True Cons tail [of y ys "[BACKSLASH]"] show ?thesis by simp
    next
      case False
      with Cons tail [of x xs "[]"] show ?thesis by (cases "x = CHR '']''") (auto intro: class_members.closed)
    qed
  qed
qed

text \<open>What a bracket means, as the code decides it.\<close>

lemma matchCharacterClass_members:
  assumes "class_members ps S rest"
  shows "ps = [] \<or> hd ps \<noteq> CHR ''^'' \<Longrightarrow> matchCharacterClass (x # ps) c = (c \<in> S, rest)"
    "matchCharacterClass (x # CHR ''^'' # ps) c = (c \<notin> S, rest)"
  using class_loop_members [OF assms, of c False] by (auto simp: matchCharacterClass_def Let_def)

lemma matchCharacterClass_cases:
  assumes "matchCharacterClass (x # ps) c = (True, rest)"
  obtains S where "ps = [] \<or> hd ps \<noteq> CHR ''^''" "class_members ps S rest" "c \<in> S"
    | qs S where "ps = CHR ''^'' # qs" "class_members qs S rest" "c \<notin> S"
proof (cases "ps = [] \<or> hd ps \<noteq> CHR ''^''")
  case True
  obtain S r where "class_members ps S r" using class_members_total by blast
  with matchCharacterClass_members(1) [OF this True] assms True that(1) show thesis by auto
next
  case False
  then obtain qs where qs: "ps = CHR ''^'' # qs" by (cases ps) auto
  obtain S r where "class_members qs S r" using class_members_total by blast
  with matchCharacterClass_members(2) [OF this] assms qs that(2) show thesis by auto
qed

section \<open>The matcher meets it\<close>

inductive_cases glob_spec_Nil: "glob_spec [] t"
inductive_cases glob_spec_star: "glob_spec (CHR ''*'' # ps) t"
inductive_cases glob_spec_text_Nil: "glob_spec p []"
inductive_cases glob_spec_Cons: "glob_spec p (c # t)"

lemma glob_spec_star_iff: "glob_spec (CHR ''*'' # ps) t \<longleftrightarrow> (\<exists>i \<le> length t. glob_spec ps (drop i t))"
proof
  assume "glob_spec (CHR ''*'' # ps) t"
  then obtain u v where "t = u @ v" "glob_spec ps v" by (auto elim: glob_spec_star)
  then show "\<exists>i \<le> length t. glob_spec ps (drop i t)" by (intro exI [of _ "length u"]) simp
next
  assume "\<exists>i \<le> length t. glob_spec ps (drop i t)"
  then obtain i where "glob_spec ps (drop i t)" by blast
  from glob_spec.star [OF this, of "take i t"] show "glob_spec (CHR ''*'' # ps) t" by simp
qed

lemma glob_spec_text_empty: "glob_spec p [] \<longleftrightarrow> dropWhile (\<lambda>c. c = CHR ''*'') p = []"
proof (induction p)
  case Nil
  show ?case by (simp add: glob_spec.empty)
next
  case (Cons c p)
  show ?case
    using Cons glob_spec.star [of p "[]" "[]"] by (auto elim: glob_spec_text_Nil)
qed

lemma glob_spec_token:
  assumes "p = [] \<or> hd p \<noteq> CHR ''*''"
  shows "glob_spec p (c # t) \<longleftrightarrow> (\<exists>rest. glob_token p c = Some rest \<and> glob_spec rest t)"
proof
  assume "glob_spec p (c # t)"
  then show "\<exists>rest. glob_token p c = Some rest \<and> glob_spec rest t"
    by (cases rule: glob_spec_Cons) (use assms matchCharacterClass_members in auto)
next
  assume "\<exists>rest. glob_token p c = Some rest \<and> glob_spec rest t"
  then obtain rest where r: "glob_token p c = Some rest" "glob_spec rest t" by blast
  then obtain x ps where p: "p = x # ps" by (cases p) auto
  consider y ys where "x = BACKSLASH" "ps = y # ys" | "x = CHR ''[''" | "x \<noteq> CHR ''[''" "x \<noteq> BACKSLASH \<or> ps = []"
    by (cases ps) auto
  then show "glob_spec p (c # t)"
  proof cases
    case 1
    with r p show ?thesis by (auto intro: glob_spec.escape split: if_splits)
  next
    case 2
    with r(1) p have "matchCharacterClass (x # ps) c = (True, rest)" by (auto simp: Let_def split: if_splits prod.splits)
    with 2 p r(2) show ?thesis
      by (elim matchCharacterClass_cases) (auto intro: glob_spec.char_class glob_spec.negated_class)
  next
    case 3
    with r p assms show ?thesis by (auto simp: Let_def intro: glob_spec.intros split: if_splits)
  qed
qed

text \<open>How much of the pattern a token takes does not depend on the character it meets.\<close>

lemma class_loop_rest: "snd (class_loop c m s) = snd (class_loop d n s)"
proof (induction s arbitrary: m n rule: length_induct)
  case (1 s)
  then have IH: "length ys < length s \<Longrightarrow> snd (class_loop c m' ys) = snd (class_loop d n' ys)" for m' n' ys
    by blast
  show ?case
  proof (cases s)
    case Nil
    then show ?thesis by simp
  next
    case (Cons x xs)
    obtain low high rest where item: "class_item (x # xs) = (low, high, rest)"
      by (cases "class_item (x # xs)")
    then have "length rest < length s"
      using class_item_length [OF item] Cons by simp
    then show ?thesis
      using IH item Cons by (simp del: class_item.simps)
  qed
qed

lemma glob_token_rest:
  "glob_token p c = Some r \<Longrightarrow> glob_token p d = Some r' \<Longrightarrow> r = r'"
  using class_loop_rest
  by (cases p) (auto simp: matchCharacterClass_def Let_def split: if_splits prod.splits; metis snd_conv)+

text \<open>\<open>glob_steps n p q\<close>: \<open>n\<close> tokens other than \<open>*\<close> lead from pattern \<open>p\<close> to \<open>q\<close>.\<close>

inductive glob_steps :: "nat \<Rightarrow> bytes \<Rightarrow> bytes \<Rightarrow> bool" where
  none: "glob_steps 0 p p"
| one: "glob_steps n p q \<Longrightarrow> q \<noteq> [] \<Longrightarrow> hd q \<noteq> CHR ''*'' \<Longrightarrow> glob_token q c = Some r \<Longrightarrow>
    glob_steps (Suc n) p r"

lemma glob_spec_steps:
  "glob_steps n p q \<Longrightarrow> glob_spec p u \<Longrightarrow> n \<le> length u \<and> glob_spec q (drop n u)"
proof (induction rule: glob_steps.induct)
  case (none p)
  then show ?case by simp
next
  case (one n p q c r)
  then have q: "n \<le> length u" "glob_spec q (drop n u)" by auto
  have "drop n u \<noteq> []"
    using q(2) one.hyps by (auto simp: glob_spec_text_empty dropWhile_eq_Nil_conv dest: hd_in_set)
  then obtain d where d: "drop n u = d # drop (Suc n) u"
    by (metis Cons_nth_drop_Suc drop_all leI)
  then obtain r' where "glob_token q d = Some r'" "glob_spec r' (drop (Suc n) u)"
    using q(2) one.hyps glob_spec_token [of q d] by auto
  moreover have "r' = r" using one.hyps(4) \<open>glob_token q d = Some r'\<close> by (metis glob_token_rest)
  ultimately show ?case using d q(1) by (metis Suc_leI drop_all leI list.distinct(1))
qed

text \<open>
  The loop's invariant: between \<open>starText\<close> and the current position, as many tokens were
  matched as characters were read.
\<close>

definition star_inv :: "bytes \<Rightarrow> bytes \<Rightarrow> (bytes \<times> bytes) option \<Rightarrow> bool" where
  "star_inv p t star \<longleftrightarrow>
     (\<forall>sp st. star = Some (sp, st) \<longrightarrow> (\<exists>w. st = w @ t \<and> glob_steps (length w) sp p))"

definition star_retry :: "(bytes \<times> bytes) option \<Rightarrow> bool" where
  "star_retry star \<longleftrightarrow>
     (\<exists>sp st i. star = Some (sp, st) \<and> 0 < i \<and> i \<le> length st \<and> glob_spec sp (drop i st))"

lemma star_inv_fresh: "star_inv p t (Some (p, t))"
  by (auto simp: star_inv_def intro: exI [of _ "[]"] glob_steps.none)

lemma star_retry_steps:
  assumes "star_inv p t star" "star_retry star"
  shows "\<exists>i. 0 < i \<and> i \<le> length t \<and> glob_spec p (drop i t)"
proof -
  from assms obtain sp w i where
    steps: "glob_steps (length w) sp p" and i: "0 < i" "i \<le> length (w @ t)"
    and g: "glob_spec sp (drop i (w @ t))"
    unfolding star_inv_def star_retry_def by blast
  have d: "drop (length w) (drop i (w @ t)) = drop i t"
    by (metis add.commute append_eq_conv_conj drop_drop)
  have "length w \<le> length (drop i (w @ t)) \<and> glob_spec p (drop i t)"
    using glob_spec_steps [OF steps g] d by simp
  with i show ?thesis by (intro exI [of _ i]) auto
qed

lemma star_retry_next:
  "st \<noteq> [] \<Longrightarrow> star_retry (Some (sp, st)) \<longleftrightarrow> glob_spec sp (tl st) \<or> star_retry (Some (sp, tl st))"
proof -
  assume "st \<noteq> []"
  then obtain x xs where st: "st = x # xs" by (cases st) auto
  have "(\<exists>i. 0 < i \<and> i \<le> length st \<and> glob_spec sp (drop i st)) \<longleftrightarrow>
      (\<exists>i. i \<le> length xs \<and> glob_spec sp (drop i xs))"
    unfolding st by (metis (no_types) Suc_le_mono drop_Suc_Cons gr0_implies_Suc length_Cons zero_less_Suc)
  also have "\<dots> \<longleftrightarrow> glob_spec sp xs \<or> (\<exists>i. 0 < i \<and> i \<le> length xs \<and> glob_spec sp (drop i xs))"
    by (metis drop0 gr0I le0)
  finally show ?thesis by (simp add: star_retry_def st)
qed

lemma glob_loop_spec:
  "star_inv p t star \<Longrightarrow> glob_loop p t star \<longleftrightarrow> glob_spec p t \<or> star_retry star"
proof (induction p t star rule: glob_loop.induct)
  case (1 p star)
  then have "\<not> star_retry star" using star_retry_steps by fastforce
  then show ?case by (simp add: glob_spec_text_empty)
next
  case (2 p c cs star)
  show ?case
  proof (cases "p \<noteq> [] \<and> hd p = CHR ''*''")
    case True
    then obtain ps where p: "p = CHR ''*'' # ps" by (cases p) auto
    have "glob_loop p (c # cs) star \<longleftrightarrow> glob_spec ps (c # cs) \<or> star_retry (Some (ps, c # cs))"
      using "2.IH"(1) [OF True] star_inv_fresh p by simp
    also have "\<dots> \<longleftrightarrow> glob_spec p (c # cs)"
      unfolding p glob_spec_star_iff star_retry_def
      by (metis (no_types) Pair_inject drop0 gr0I le0 option.inject)
    also have "star_retry star \<Longrightarrow> glob_spec p (c # cs)"
      using star_retry_steps [OF "2.prems"] unfolding p
      by (metis append_take_drop_id glob_spec.star glob_spec_star append_assoc)
    ultimately show ?thesis by blast
  next
    case False
    then have tok: "glob_spec p (c # cs) \<longleftrightarrow> (\<exists>rest. glob_token p c = Some rest \<and> glob_spec rest cs)"
      by (intro glob_spec_token) blast
    show ?thesis
    proof (cases "glob_token p c")
      case (Some rest)
      then have "p \<noteq> []" by auto
      have "star_inv rest cs star"
        unfolding star_inv_def
      proof (intro allI impI)
        fix sp st assume "star = Some (sp, st)"
        with "2.prems" obtain w where "st = w @ c # cs" "glob_steps (length w) sp p"
          unfolding star_inv_def by blast
        with False \<open>p \<noteq> []\<close> Some show "\<exists>w. st = w @ cs \<and> glob_steps (length w) sp rest"
          by (intro exI [of _ "w @ [c]"]) (auto intro: glob_steps.one)
      qed
      then have "glob_loop rest cs star \<longleftrightarrow> glob_spec rest cs \<or> star_retry star"
        by (rule "2.IH"(3) [OF False Some])
      moreover have "glob_loop p (c # cs) star = glob_loop rest cs star"
        by (subst glob_loop.simps(2), unfold if_not_P [OF False] Some option.case) (rule refl)
      ultimately show ?thesis using tok Some by simp
    next
      case None
      show ?thesis
      proof (cases star)
        case None': None
        have "\<not> glob_loop p (c # cs) star"
          by (subst glob_loop.simps(2), unfold if_not_P [OF False] None None' option.case) simp
        with None None' tok show ?thesis by (simp add: star_retry_def)
      next
        case (Some s)
        obtain sp st where s: "s = (sp, st)" by (cases s)
        have "st \<noteq> []" using "2.prems" Some s by (auto simp: star_inv_def)
        have "glob_loop p (c # cs) star = glob_loop sp (tl st) (Some (sp, tl st))"
          by (subst glob_loop.simps(2), unfold if_not_P [OF False] None Some s option.case prod.case)
            (rule refl)
        moreover have "glob_loop sp (tl st) (Some (sp, tl st)) \<longleftrightarrow>
            glob_spec sp (tl st) \<or> star_retry (Some (sp, tl st))"
          using "2.IH"(2) [OF False None Some] s star_inv_fresh by simp
        ultimately show ?thesis
          using tok None Some s star_retry_next [OF \<open>st \<noteq> []\<close>] by simp
      qed
    qed
  qed
qed

lemma globMatch_spec: "globMatch p t \<longleftrightarrow> glob_spec p t"
  using glob_loop_spec [of p t None]
  by (simp add: globMatch_def star_inv_def star_retry_def)

end
