(* ===== verification/FKV_Database.thy ===== *)
theory FKV_Database
  imports FKV_Glob
begin

text \<open>
  The storage engine, \<open>class Database\<close> of \<open>src/include/database.hpp\<close> and
  \<open>src/src/database.cpp\<close>: the keyspace table, the LRU list, the vector of keys with an expiry,
  memory accounting, and every public operation. This theory holds the model only; the
  invariant and the refinement are in the theories that follow.

  Correspondence with the class. A \<open>Node*\<close> is the key of its table entry: nodes of an
  \<open>unordered_map\<close> keep their address, and \<open>node->first\<close> is constant. The LRU list holds cells
  with an identity of their own, so that \<open>lruPosition\<close> is an iterator: \<open>erase\<close> and \<open>splice\<close>
  act on the cell the iterator names, whatever key it holds. \<open>volatileIndex\<close> is an index into
  the vector, \<open>None\<close> for \<open>NOT_VOLATILE\<close>. Byte counts are 64-bit words, so the accounting wraps
  where the code's would. The clock and the random generator are the sequences of values they
  return; every call of \<open>now()\<close> or \<open>pick(random)\<close> takes the next one. Operations that may throw
  return \<open>Inl\<close> the exception beside the state at the throw; undefined behaviour (\<open>front()\<close> of an
  empty deque) and a loop that does not end are outcomes of their own, which the theorems rule
  out.
\<close>

section \<open>Data\<close>

datatype Value =
    StringValue bytes
  | ListValue "bytes list"
  | HashValue "(bytes \<times> bytes) list"
  | SetValue "bytes list"

datatype ValueType = String | List | Hash | Set

datatype ListSide = Left | Right

datatype EvictionPolicy = NoEviction | AllKeysLru

datatype exn = WrongTypeError | NotIntegerError | OverflowError | Undefined | Diverged

record DatabaseStats =
  expiredKeys :: "64 word"
  evictedKeys :: "64 word"
  keyspaceHits :: "64 word"
  keyspaceMisses :: "64 word"

definition NO_EXPIRY :: int where "NO_EXPIRY = -1"

record Entry =
  "value" :: Value
  expiresAtMs :: int
  memory :: size_t
  lruPosition :: nat
  volatileIndex :: "nat option"

record Database =
  data :: "(bytes \<times> Entry) list"
  lru :: "(nat \<times> bytes) list"
  lruCells :: nat
  volatileKeys :: "bytes list"
  memoryUsed :: size_t
  memoryLimit :: size_t
  policy :: EvictionPolicy
  clock :: "nat \<Rightarrow> int"
  readings :: nat
  random :: "nat \<Rightarrow> nat"
  draws :: nat
  statistics :: DatabaseStats

record KeyInfo =
  info_type :: ValueType
  info_ttlMs :: int
  info_memory :: size_t
  info_value :: Value

definition valueTypeName :: "ValueType \<Rightarrow> bytes" where
  "valueTypeName t = (case t of String \<Rightarrow> ''string'' | List \<Rightarrow> ''list'' | Hash \<Rightarrow> ''hash'' | Set \<Rightarrow> ''set'')"

definition parseEvictionPolicy :: "bytes \<Rightarrow> EvictionPolicy option" where
  "parseEvictionPolicy name =
     (if name = ''noeviction'' then Some NoEviction
      else if name = ''allkeys-lru'' then Some AllKeysLru
      else None)"

definition evictionPolicyName :: "EvictionPolicy \<Rightarrow> bytes" where
  "evictionPolicyName p = (if p = AllKeysLru then ''allkeys-lru'' else ''noeviction'')"

text \<open>\<open>static_cast<ValueType>(value.index())\<close>.\<close>

fun valueType :: "Value \<Rightarrow> ValueType" where
  "valueType (StringValue _) = String"
| "valueType (ListValue _) = List"
| "valueType (HashValue _) = Hash"
| "valueType (SetValue _) = Set"

section \<open>Memory estimates and integers\<close>

definition ENTRY_OVERHEAD :: size_t where "ENTRY_OVERHEAD = 96"

definition ELEMENT_OVERHEAD :: size_t where "ELEMENT_OVERHEAD = 32"

definition string_size :: "bytes \<Rightarrow> size_t" where
  "string_size s = of_nat (length s)"

definition elementCost :: "bytes \<Rightarrow> size_t" where
  "elementCost v = string_size v + ELEMENT_OVERHEAD"

fun payloadMemory :: "Value \<Rightarrow> size_t" where
  "payloadMemory (StringValue s) = string_size s"
| "payloadMemory (ListValue l) = sum_list (map elementCost l)"
| "payloadMemory (HashValue h) = sum_list (map (\<lambda>(field, v). elementCost field + string_size v) h)"
| "payloadMemory (SetValue s) = sum_list (map elementCost s)"

definition parseStrictInteger :: "bytes \<Rightarrow> int option" where
  "parseStrictInteger s =
     (if s = [] then None
      else case from_chars_ll s of Some (v, []) \<Rightarrow> Some v | _ \<Rightarrow> None)"

section \<open>Internal helpers\<close>

definition initial_stats :: DatabaseStats where
  "initial_stats = \<lparr>expiredKeys = 0, evictedKeys = 0, keyspaceHits = 0, keyspaceMisses = 0\<rparr>"

definition new_database :: "(nat \<Rightarrow> int) \<Rightarrow> (nat \<Rightarrow> nat) \<Rightarrow> Database" where
  "new_database clk rnd =
     \<lparr>data = [], lru = [], lruCells = 0, volatileKeys = [], memoryUsed = 0, memoryLimit = 0,
      policy = NoEviction, clock = clk, readings = 0, random = rnd, draws = 0,
      statistics = initial_stats\<rparr>"

text \<open>\<open>now()\<close>: the next reading of the clock.\<close>

definition now :: "Database \<Rightarrow> int \<times> Database" where
  "now db = (clock db (readings db), db\<lparr>readings := Suc (readings db)\<rparr>)"

text \<open>\<open>setClock\<close>: the readings of the new clock come next.\<close>

definition setClock :: "(nat \<Rightarrow> int) \<Rightarrow> Database \<Rightarrow> Database" where
  "setClock newClock db = db\<lparr>clock := newClock, readings := 0\<rparr>"

text \<open>\<open>node->second\<close>, and writing through it.\<close>

definition entry_of :: "bytes \<Rightarrow> Database \<Rightarrow> Entry" where
  "entry_of node db = the (map_of (data db) node)"

definition modify_entry :: "bytes \<Rightarrow> (Entry \<Rightarrow> Entry) \<Rightarrow> Database \<Rightarrow> Database" where
  "modify_entry node f db =
     (case map_of (data db) node of
        None \<Rightarrow> db
      | Some e \<Rightarrow> db\<lparr>data := AList.update node (f e) (data db)\<rparr>)"

definition set_value :: "bytes \<Rightarrow> Value \<Rightarrow> Database \<Rightarrow> Database" where
  "set_value node v = modify_entry node (\<lambda>e. e\<lparr>value := v\<rparr>)"

definition clearExpiry :: "bytes \<Rightarrow> Database \<Rightarrow> Database" where
  "clearExpiry node db =
     (let db1 =
        (case volatileIndex (entry_of node db) of
           None \<Rightarrow> db
         | Some index \<Rightarrow>
             (let final = last (volatileKeys db);
                  db' = db\<lparr>volatileKeys := (volatileKeys db)[index := final]\<rparr>;
                  db' = modify_entry final (\<lambda>e. e\<lparr>volatileIndex := Some index\<rparr>) db';
                  db' = db'\<lparr>volatileKeys := butlast (volatileKeys db')\<rparr>
              in modify_entry node (\<lambda>e. e\<lparr>volatileIndex := None\<rparr>) db'))
      in modify_entry node (\<lambda>e. e\<lparr>expiresAtMs := NO_EXPIRY\<rparr>) db1)"

definition setExpiry :: "bytes \<Rightarrow> int \<Rightarrow> Database \<Rightarrow> Database" where
  "setExpiry node unixTimeMs db =
     (let db1 =
        (if volatileIndex (entry_of node db) = None
         then
           (let db' = modify_entry node (\<lambda>e. e\<lparr>volatileIndex := Some (length (volatileKeys db))\<rparr>) db
            in db'\<lparr>volatileKeys := volatileKeys db' @ [node]\<rparr>)
         else db)
      in modify_entry node (\<lambda>e. e\<lparr>expiresAtMs := unixTimeMs\<rparr>) db1)"

definition erase :: "bytes \<Rightarrow> Database \<Rightarrow> Database" where
  "erase node db =
     (let db1 = clearExpiry node db;
          db2 = db1\<lparr>lru := filter (\<lambda>cell. fst cell \<noteq> lruPosition (entry_of node db1)) (lru db1)\<rparr>;
          db3 = db2\<lparr>memoryUsed := memoryUsed db2 - memory (entry_of node db2)\<rparr>
      in db3\<lparr>data := AList.delete node (data db3)\<rparr>)"

definition touch :: "bytes \<Rightarrow> Database \<Rightarrow> Database" where
  "touch node db =
     (let position = lruPosition (entry_of node db)
      in db\<lparr>lru := filter (\<lambda>cell. fst cell = position) (lru db) @
                   filter (\<lambda>cell. fst cell \<noteq> position) (lru db)\<rparr>)"

text \<open>
  \<open>create\<close> is only called for a key that is not in the table, so \<open>try_emplace\<close> inserts a
  default entry.
\<close>

definition create :: "bytes \<Rightarrow> Value \<Rightarrow> Database \<Rightarrow> Database" where
  "create key v db =
     (let mem = ENTRY_OVERHEAD + string_size key + payloadMemory v;
          e = \<lparr>value = v, expiresAtMs = NO_EXPIRY, memory = mem, lruPosition = lruCells db,
               volatileIndex = None\<rparr>
      in db\<lparr>data := AList.update key e (data db),
            lru := (lruCells db, key) # lru db,
            lruCells := Suc (lruCells db),
            memoryUsed := memoryUsed db + mem\<rparr>)"

definition addMemory :: "bytes \<Rightarrow> size_t \<Rightarrow> Database \<Rightarrow> Database" where
  "addMemory node n db =
     (let db' = modify_entry node (\<lambda>e. e\<lparr>memory := memory e + n\<rparr>) db
      in db'\<lparr>memoryUsed := memoryUsed db' + n\<rparr>)"

definition removeMemory :: "bytes \<Rightarrow> size_t \<Rightarrow> Database \<Rightarrow> Database" where
  "removeMemory node n db =
     (let db' = modify_entry node (\<lambda>e. e\<lparr>memory := memory e - n\<rparr>) db
      in db'\<lparr>memoryUsed := memoryUsed db' - n\<rparr>)"

definition count_stat :: "((64 word \<Rightarrow> 64 word) \<Rightarrow> DatabaseStats \<Rightarrow> DatabaseStats) \<Rightarrow> 64 word \<Rightarrow> Database \<Rightarrow> Database" where
  "count_stat upd n db = db\<lparr>statistics := upd (\<lambda>x. x + n) (statistics db)\<rparr>"

definition findLive :: "bytes \<Rightarrow> Database \<Rightarrow> bytes option \<times> Database" where
  "findLive key db =
     (case map_of (data db) key of
        None \<Rightarrow> (None, db)
      | Some e \<Rightarrow>
          if expiresAtMs e \<noteq> NO_EXPIRY then
            (let (current, db1) = now db in
             if current \<ge> expiresAtMs e
             then (None, count_stat expiredKeys_update 1 (erase key db1))
             else (Some key, db1))
          else (Some key, db))"

text \<open>\<open>valueAs<T>\<close>: the payload, or the \<open>WrongTypeError\<close> it throws.\<close>

definition valueAs_string :: "bytes \<Rightarrow> Database \<Rightarrow> exn + bytes" where
  "valueAs_string node db = (case value (entry_of node db) of StringValue s \<Rightarrow> Inr s | _ \<Rightarrow> Inl WrongTypeError)"

definition valueAs_list :: "bytes \<Rightarrow> Database \<Rightarrow> exn + bytes list" where
  "valueAs_list node db = (case value (entry_of node db) of ListValue l \<Rightarrow> Inr l | _ \<Rightarrow> Inl WrongTypeError)"

definition valueAs_hash :: "bytes \<Rightarrow> Database \<Rightarrow> exn + (bytes \<times> bytes) list" where
  "valueAs_hash node db = (case value (entry_of node db) of HashValue h \<Rightarrow> Inr h | _ \<Rightarrow> Inl WrongTypeError)"

definition valueAs_set :: "bytes \<Rightarrow> Database \<Rightarrow> exn + bytes list" where
  "valueAs_set node db = (case value (entry_of node db) of SetValue s \<Rightarrow> Inr s | _ \<Rightarrow> Inl WrongTypeError)"

section \<open>Keyspace\<close>

definition db_del :: "bytes \<Rightarrow> Database \<Rightarrow> bool \<times> Database" where
  "db_del key db =
     (case findLive key db of
        (None, db1) \<Rightarrow> (False, db1)
      | (Some node, db1) \<Rightarrow> (True, erase node db1))"

definition db_exists :: "bytes \<Rightarrow> Database \<Rightarrow> bool \<times> Database" where
  "db_exists key db = (let (node, db1) = findLive key db in (node \<noteq> None, db1))"

definition db_type :: "bytes \<Rightarrow> Database \<Rightarrow> ValueType option \<times> Database" where
  "db_type key db =
     (case findLive key db of
        (None, db1) \<Rightarrow> (None, db1)
      | (Some node, db1) \<Rightarrow> (Some (valueType (value (entry_of node db1))), db1))"

definition db_keys :: "bytes \<Rightarrow> Database \<Rightarrow> bytes list \<times> Database" where
  "db_keys pattern db =
     (let (current, db1) = now db;
          matches = filter (\<lambda>key.
              \<not> (expiresAtMs (entry_of key db1) \<noteq> NO_EXPIRY \<and> current \<ge> expiresAtMs (entry_of key db1))
              \<and> globMatch pattern key)
            (map fst (data db1))
      in (sort matches, db1))"

definition db_size :: "Database \<Rightarrow> nat" where
  "db_size db = length (data db)"

definition volatileKeyCount :: "Database \<Rightarrow> nat" where
  "volatileKeyCount db = length (volatileKeys db)"

definition db_clear :: "Database \<Rightarrow> Database" where
  "db_clear db = db\<lparr>data := [], lru := [], volatileKeys := [], memoryUsed := 0\<rparr>"

section \<open>Strings\<close>

definition db_set :: "bytes \<Rightarrow> bytes \<Rightarrow> Database \<Rightarrow> Database" where
  "db_set key v db =
     (let (node, db1) = findLive key db;
          db2 = (case node of None \<Rightarrow> db1 | Some n \<Rightarrow> erase n db1)
      in create key (StringValue v) db2)"

definition db_get :: "bytes \<Rightarrow> Database \<Rightarrow> (exn + bytes option) \<times> Database" where
  "db_get key db =
     (case findLive key db of
        (None, db1) \<Rightarrow> (Inr None, count_stat keyspaceMisses_update 1 db1)
      | (Some node, db1) \<Rightarrow>
          (case valueAs_string node db1 of
             Inl e \<Rightarrow> (Inl e, db1)
           | Inr v \<Rightarrow> (Inr (Some v), touch node (count_stat keyspaceHits_update 1 db1))))"

definition incrementBy :: "bytes \<Rightarrow> int \<Rightarrow> Database \<Rightarrow> (exn + int) \<times> Database" where
  "incrementBy key delta db =
     (let (found, db1) = findLive key db;
          db2 = (case found of None \<Rightarrow> create key (StringValue ''0'') db1 | Some _ \<Rightarrow> db1)
      in case valueAs_string key db2 of
           Inl e \<Rightarrow> (Inl e, db2)
         | Inr s \<Rightarrow>
             (case parseStrictInteger s of
                None \<Rightarrow> (Inl NotIntegerError, db2)
              | Some current \<Rightarrow>
                  (case add_overflow current delta of
                     None \<Rightarrow> (Inl OverflowError, db2)
                   | Some r \<Rightarrow>
                       (let updated = to_string r;
                            db3 = removeMemory key (string_size s) db2;
                            db4 = set_value key (StringValue updated) db3;
                            db5 = addMemory key (string_size updated) db4
                        in (Inr r, touch key db5)))))"

definition db_append :: "bytes \<Rightarrow> bytes \<Rightarrow> Database \<Rightarrow> (exn + nat) \<times> Database" where
  "db_append key v db =
     (case findLive key db of
        (None, db1) \<Rightarrow> (Inr (length v), create key (StringValue v) db1)
      | (Some node, db1) \<Rightarrow>
          (case valueAs_string node db1 of
             Inl e \<Rightarrow> (Inl e, db1)
           | Inr s \<Rightarrow>
               (let db2 = set_value node (StringValue (s @ v)) db1;
                    db3 = addMemory node (string_size v) db2
                in (Inr (length (s @ v)), touch node db3))))"

definition stringLength :: "bytes \<Rightarrow> Database \<Rightarrow> (exn + nat) \<times> Database" where
  "stringLength key db =
     (case findLive key db of
        (None, db1) \<Rightarrow> (Inr 0, db1)
      | (Some node, db1) \<Rightarrow> (map_sum id length (valueAs_string node db1), db1))"

section \<open>Expiration\<close>

definition expireAtMs_op :: "bytes \<Rightarrow> int \<Rightarrow> Database \<Rightarrow> bool \<times> Database" where
  "expireAtMs_op key unixTimeMs db =
     (case findLive key db of
        (None, db1) \<Rightarrow> (False, db1)
      | (Some node, db1) \<Rightarrow>
          (let (current, db2) = now db1 in
           if unixTimeMs \<le> current then (True, erase node db2)
           else (True, setExpiry node unixTimeMs db2)))"

definition db_expire :: "bytes \<Rightarrow> int \<Rightarrow> Database \<Rightarrow> bool \<times> Database" where
  "db_expire key seconds db =
     (if seconds \<le> 0 then (let (current, db1) = now db in expireAtMs_op key current db1)
      else
        (case mul_overflow seconds 1000 of
           None \<Rightarrow> expireAtMs_op key LLONG_MAX db
         | Some milliseconds \<Rightarrow>
             (let (current, db1) = now db in
              case add_overflow current milliseconds of
                None \<Rightarrow> expireAtMs_op key LLONG_MAX db1
              | Some deadline \<Rightarrow> expireAtMs_op key deadline db1)))"

definition db_persist :: "bytes \<Rightarrow> Database \<Rightarrow> bool \<times> Database" where
  "db_persist key db =
     (case findLive key db of
        (None, db1) \<Rightarrow> (False, db1)
      | (Some node, db1) \<Rightarrow>
          if expiresAtMs (entry_of node db1) = NO_EXPIRY then (False, db1)
          else (True, clearExpiry node db1))"

definition ttlMs :: "bytes \<Rightarrow> Database \<Rightarrow> int \<times> Database" where
  "ttlMs key db =
     (case findLive key db of
        (None, db1) \<Rightarrow> (-2, db1)
      | (Some node, db1) \<Rightarrow>
          if expiresAtMs (entry_of node db1) = NO_EXPIRY then (-1, db1)
          else (let (current, db2) = now db1 in (expiresAtMs (entry_of node db1) - current, db2)))"

text \<open>\<open>ttl\<close> rounds to seconds. The addition is not reduced to 64 bits: it could only overflow for a
  deadline within 500 ms of the largest \<open>long long\<close> read by a clock in the first 500 ms of 1970.\<close>

definition ttl :: "bytes \<Rightarrow> Database \<Rightarrow> int \<times> Database" where
  "ttl key db =
     (let (remaining, db1) = ttlMs key db in
      if remaining < 0 then (remaining, db1) else ((remaining + 500) div 1000, db1))"

text \<open>\<open>pick(random)\<close> for \<open>uniform_int_distribution(0, n - 1)\<close>: the next draw, below \<open>n\<close>.\<close>

definition pick :: "nat \<Rightarrow> Database \<Rightarrow> nat \<times> Database" where
  "pick n db = (random db (draws db) mod n, db\<lparr>draws := Suc (draws db)\<rparr>)"

text \<open>One sampling pass: up to \<open>samples\<close> keys with an expiry, drawn at random.\<close>

fun sample_loop :: "nat \<Rightarrow> int \<Rightarrow> nat \<Rightarrow> nat \<Rightarrow> Database \<Rightarrow> nat \<times> nat \<times> Database" where
  "sample_loop 0 current sampled expired db = (sampled, expired, db)"
| "sample_loop (Suc samples) current sampled expired db =
     (if volatileKeys db = [] then (sampled, expired, db)
      else
        (let (index, db1) = pick (length (volatileKeys db)) db;
             node = volatileKeys db1 ! index
         in if current \<ge> expiresAtMs (entry_of node db1)
            then sample_loop samples current (Suc sampled) (Suc expired) (erase node db1)
            else sample_loop samples current (Suc sampled) expired db1))"

text \<open>
  The passes of a cycle. \<open>overBudget i\<close> says whether the steady clock shows the budget used up
  at the end of the \<open>i\<close>-th pass. The fuel stands for the \<open>while\<close> loop; running out of it is the
  outcome \<open>Diverged\<close>.
\<close>

fun expire_loop :: "nat \<Rightarrow> nat \<Rightarrow> (nat \<Rightarrow> bool) \<Rightarrow> nat \<Rightarrow> int \<Rightarrow> nat \<Rightarrow> Database \<Rightarrow> (exn + nat) \<times> Database" where
  "expire_loop 0 samplesPerLoop overBudget pass current removed db = (Inl Diverged, db)"
| "expire_loop (Suc fuel) samplesPerLoop overBudget pass current removed db =
     (if volatileKeys db = [] then (Inr removed, db)
      else
        (let samples = min samplesPerLoop (length (volatileKeys db));
             (sampled, expired, db1) = sample_loop samples current 0 0 db;
             removed' = removed + expired;
             db2 = count_stat expiredKeys_update (of_nat expired) db1
         in if expired * 4 \<le> sampled then (Inr removed', db2)
            else if overBudget pass then (Inr removed', db2)
            else expire_loop fuel samplesPerLoop overBudget (Suc pass) current removed' db2))"

definition activeExpireCycle :: "nat \<Rightarrow> (nat \<Rightarrow> bool) \<Rightarrow> Database \<Rightarrow> (exn + nat) \<times> Database" where
  "activeExpireCycle samplesPerLoop overBudget db =
     (let (current, db1) = now db
      in expire_loop (Suc (length (volatileKeys db1))) samplesPerLoop overBudget 0 current 0 db1)"

section \<open>Lists\<close>

definition push_value :: "ListSide \<Rightarrow> bytes \<Rightarrow> bytes list \<Rightarrow> bytes list" where
  "push_value side v l = (if side = Left then v # l else l @ [v])"

text \<open>The list, hash or set the reference of \<open>valueAs\<close> points to, re-read in each iteration.\<close>

definition list_ref :: "bytes \<Rightarrow> Database \<Rightarrow> bytes list" where
  "list_ref node db = (case value (entry_of node db) of ListValue l \<Rightarrow> l | _ \<Rightarrow> [])"

definition hash_ref :: "bytes \<Rightarrow> Database \<Rightarrow> (bytes \<times> bytes) list" where
  "hash_ref node db = (case value (entry_of node db) of HashValue h \<Rightarrow> h | _ \<Rightarrow> [])"

definition set_ref :: "bytes \<Rightarrow> Database \<Rightarrow> bytes list" where
  "set_ref node db = (case value (entry_of node db) of SetValue s \<Rightarrow> s | _ \<Rightarrow> [])"

fun push_loop :: "ListSide \<Rightarrow> bytes \<Rightarrow> bytes list \<Rightarrow> Database \<Rightarrow> Database" where
  "push_loop side node [] db = db"
| "push_loop side node (v # vs) db =
     (let db1 = set_value node (ListValue (push_value side v (list_ref node db))) db;
          db2 = addMemory node (elementCost v) db1
      in push_loop side node vs db2)"

definition listPush :: "bytes \<Rightarrow> bytes list \<Rightarrow> ListSide \<Rightarrow> Database \<Rightarrow> (exn + nat) \<times> Database" where
  "listPush key vs side db =
     (let (found, db1) = findLive key db;
          db2 = (case found of None \<Rightarrow> create key (ListValue []) db1 | Some _ \<Rightarrow> db1)
      in case valueAs_list key db2 of
           Inl e \<Rightarrow> (Inl e, db2)
         | Inr _ \<Rightarrow>
             (let db3 = touch key (push_loop side key vs db2)
              in (Inr (length (list_ref key db3)), db3)))"

definition listPop :: "bytes \<Rightarrow> ListSide \<Rightarrow> Database \<Rightarrow> (exn + bytes option) \<times> Database" where
  "listPop key side db =
     (case findLive key db of
        (None, db1) \<Rightarrow> (Inr None, db1)
      | (Some node, db1) \<Rightarrow>
          (case valueAs_list node db1 of
             Inl e \<Rightarrow> (Inl e, db1)
           | Inr l \<Rightarrow>
               if l = [] then (Inl Undefined, db1)
               else
                 (let v = (if side = Left then hd l else last l);
                      l' = (if side = Left then tl l else butlast l);
                      db2 = set_value node (ListValue l') db1;
                      db3 = removeMemory node (elementCost v) db2
                  in (Inr (Some v), if l' = [] then erase node db3 else touch node db3))))"

definition listRange :: "bytes \<Rightarrow> int \<Rightarrow> int \<Rightarrow> Database \<Rightarrow> (exn + bytes list) \<times> Database" where
  "listRange key start stop db =
     (case findLive key db of
        (None, db1) \<Rightarrow> (Inr [], db1)
      | (Some node, db1) \<Rightarrow>
          (case valueAs_list node db1 of
             Inl e \<Rightarrow> (Inl e, db1)
           | Inr l \<Rightarrow>
               (let len = int (length l);
                    start1 = max (if start < 0 then start + len else start) 0;
                    stop1 = min (if stop < 0 then stop + len else stop) (len - 1)
                in if start1 > stop1 \<or> start1 \<ge> len then (Inr [], db1)
                   else (Inr (take (nat (stop1 + 1 - start1)) (drop (nat start1) l)), touch node db1))))"

definition listIndex :: "bytes \<Rightarrow> int \<Rightarrow> Database \<Rightarrow> (exn + bytes option) \<times> Database" where
  "listIndex key index db =
     (case findLive key db of
        (None, db1) \<Rightarrow> (Inr None, db1)
      | (Some node, db1) \<Rightarrow>
          (case valueAs_list node db1 of
             Inl e \<Rightarrow> (Inl e, db1)
           | Inr l \<Rightarrow>
               (let len = int (length l);
                    i = (if index < 0 then index + len else index)
                in if i < 0 \<or> i \<ge> len then (Inr None, db1)
                   else (Inr (Some (l ! nat i)), touch node db1))))"

definition listLength :: "bytes \<Rightarrow> Database \<Rightarrow> (exn + nat) \<times> Database" where
  "listLength key db =
     (case findLive key db of
        (None, db1) \<Rightarrow> (Inr 0, db1)
      | (Some node, db1) \<Rightarrow> (map_sum id length (valueAs_list node db1), db1))"

section \<open>Hashes\<close>

fun hash_set_loop :: "bytes \<Rightarrow> (bytes \<times> bytes) list \<Rightarrow> nat \<Rightarrow> Database \<Rightarrow> nat \<times> Database" where
  "hash_set_loop node [] added db = (added, db)"
| "hash_set_loop node ((field, v) # fs) added db =
     (let h = hash_ref node db;
          (added', db1) =
            (case map_of h field of
               None \<Rightarrow> (Suc added,
                 addMemory node (elementCost field)
                   (set_value node (HashValue (AList.update field [] h)) db))
             | Some old \<Rightarrow> (added, removeMemory node (string_size old) db));
          db2 = set_value node (HashValue (AList.update field v (hash_ref node db1))) db1;
          db3 = addMemory node (string_size v) db2
      in hash_set_loop node fs added' db3)"

definition hashSet :: "bytes \<Rightarrow> (bytes \<times> bytes) list \<Rightarrow> Database \<Rightarrow> (exn + nat) \<times> Database" where
  "hashSet key fs db =
     (let (found, db1) = findLive key db;
          db2 = (case found of None \<Rightarrow> create key (HashValue []) db1 | Some _ \<Rightarrow> db1)
      in case valueAs_hash key db2 of
           Inl e \<Rightarrow> (Inl e, db2)
         | Inr _ \<Rightarrow>
             (let (added, db3) = hash_set_loop key fs 0 db2
              in (Inr added, touch key db3)))"

definition hashGet :: "bytes \<Rightarrow> bytes \<Rightarrow> Database \<Rightarrow> (exn + bytes option) \<times> Database" where
  "hashGet key field db =
     (case findLive key db of
        (None, db1) \<Rightarrow> (Inr None, db1)
      | (Some node, db1) \<Rightarrow>
          (case valueAs_hash node db1 of
             Inl e \<Rightarrow> (Inl e, db1)
           | Inr h \<Rightarrow>
               (case map_of h field of
                  None \<Rightarrow> (Inr None, db1)
                | Some v \<Rightarrow> (Inr (Some v), touch node db1))))"

fun hash_delete_loop :: "bytes \<Rightarrow> bytes list \<Rightarrow> nat \<Rightarrow> Database \<Rightarrow> nat \<times> Database" where
  "hash_delete_loop node [] removed db = (removed, db)"
| "hash_delete_loop node (field # fs) removed db =
     (let h = hash_ref node db in
      case map_of h field of
        None \<Rightarrow> hash_delete_loop node fs removed db
      | Some v \<Rightarrow>
          (let db1 = removeMemory node (elementCost field + string_size v) db;
               db2 = set_value node (HashValue (AList.delete field h)) db1
           in hash_delete_loop node fs (Suc removed) db2))"

definition hashDelete :: "bytes \<Rightarrow> bytes list \<Rightarrow> Database \<Rightarrow> (exn + nat) \<times> Database" where
  "hashDelete key fs db =
     (case findLive key db of
        (None, db1) \<Rightarrow> (Inr 0, db1)
      | (Some node, db1) \<Rightarrow>
          (case valueAs_hash node db1 of
             Inl e \<Rightarrow> (Inl e, db1)
           | Inr _ \<Rightarrow>
               (let (removed, db2) = hash_delete_loop node fs 0 db1
                in (Inr removed, if hash_ref node db2 = [] then erase node db2 else db2))))"

definition hashGetAll :: "bytes \<Rightarrow> Database \<Rightarrow> (exn + (bytes \<times> bytes) list) \<times> Database" where
  "hashGetAll key db =
     (case findLive key db of
        (None, db1) \<Rightarrow> (Inr [], db1)
      | (Some node, db1) \<Rightarrow>
          (case valueAs_hash node db1 of
             Inl e \<Rightarrow> (Inl e, db1)
           | Inr h \<Rightarrow> (Inr (sort h), touch node db1)))"

definition hashLength :: "bytes \<Rightarrow> Database \<Rightarrow> (exn + nat) \<times> Database" where
  "hashLength key db =
     (case findLive key db of
        (None, db1) \<Rightarrow> (Inr 0, db1)
      | (Some node, db1) \<Rightarrow> (map_sum id length (valueAs_hash node db1), db1))"

definition hashExists :: "bytes \<Rightarrow> bytes \<Rightarrow> Database \<Rightarrow> (exn + bool) \<times> Database" where
  "hashExists key field db =
     (case findLive key db of
        (None, db1) \<Rightarrow> (Inr False, db1)
      | (Some node, db1) \<Rightarrow> (map_sum id (\<lambda>h. map_of h field \<noteq> None) (valueAs_hash node db1), db1))"

section \<open>Sets\<close>

fun set_add_loop :: "bytes \<Rightarrow> bytes list \<Rightarrow> nat \<Rightarrow> Database \<Rightarrow> nat \<times> Database" where
  "set_add_loop node [] added db = (added, db)"
| "set_add_loop node (m # ms) added db =
     (if m \<in> set (set_ref node db) then set_add_loop node ms added db
      else
        (let db1 = set_value node (SetValue (m # set_ref node db)) db;
             db2 = addMemory node (elementCost m) db1
         in set_add_loop node ms (Suc added) db2))"

definition setAdd :: "bytes \<Rightarrow> bytes list \<Rightarrow> Database \<Rightarrow> (exn + nat) \<times> Database" where
  "setAdd key members db =
     (let (found, db1) = findLive key db;
          db2 = (case found of None \<Rightarrow> create key (SetValue []) db1 | Some _ \<Rightarrow> db1)
      in case valueAs_set key db2 of
           Inl e \<Rightarrow> (Inl e, db2)
         | Inr _ \<Rightarrow>
             (let (added, db3) = set_add_loop key members 0 db2
              in (Inr added, touch key db3)))"

fun set_remove_loop :: "bytes \<Rightarrow> bytes list \<Rightarrow> nat \<Rightarrow> Database \<Rightarrow> nat \<times> Database" where
  "set_remove_loop node [] removed db = (removed, db)"
| "set_remove_loop node (m # ms) removed db =
     (if m \<in> set (set_ref node db) then
        (let db1 = set_value node (SetValue (remove1 m (set_ref node db))) db;
             db2 = removeMemory node (elementCost m) db1
         in set_remove_loop node ms (Suc removed) db2)
      else set_remove_loop node ms removed db)"

definition setRemove :: "bytes \<Rightarrow> bytes list \<Rightarrow> Database \<Rightarrow> (exn + nat) \<times> Database" where
  "setRemove key members db =
     (case findLive key db of
        (None, db1) \<Rightarrow> (Inr 0, db1)
      | (Some node, db1) \<Rightarrow>
          (case valueAs_set node db1 of
             Inl e \<Rightarrow> (Inl e, db1)
           | Inr _ \<Rightarrow>
               (let (removed, db2) = set_remove_loop node members 0 db1
                in (Inr removed, if set_ref node db2 = [] then erase node db2 else db2))))"

definition setMembers :: "bytes \<Rightarrow> Database \<Rightarrow> (exn + bytes list) \<times> Database" where
  "setMembers key db =
     (case findLive key db of
        (None, db1) \<Rightarrow> (Inr [], db1)
      | (Some node, db1) \<Rightarrow>
          (case valueAs_set node db1 of
             Inl e \<Rightarrow> (Inl e, db1)
           | Inr s \<Rightarrow> (Inr (sort s), touch node db1)))"

definition setIsMember :: "bytes \<Rightarrow> bytes \<Rightarrow> Database \<Rightarrow> (exn + bool) \<times> Database" where
  "setIsMember key m db =
     (case findLive key db of
        (None, db1) \<Rightarrow> (Inr False, db1)
      | (Some node, db1) \<Rightarrow> (map_sum id (\<lambda>s. m \<in> set s) (valueAs_set node db1), db1))"

definition setCardinality :: "bytes \<Rightarrow> Database \<Rightarrow> (exn + nat) \<times> Database" where
  "setCardinality key db =
     (case findLive key db of
        (None, db1) \<Rightarrow> (Inr 0, db1)
      | (Some node, db1) \<Rightarrow> (map_sum id length (valueAs_set node db1), db1))"

section \<open>Memory management\<close>

definition setMaxMemory :: "size_t \<Rightarrow> Database \<Rightarrow> Database" where
  "setMaxMemory n db = db\<lparr>memoryLimit := n\<rparr>"

definition setEvictionPolicy :: "EvictionPolicy \<Rightarrow> Database \<Rightarrow> Database" where
  "setEvictionPolicy p db = db\<lparr>policy := p\<rparr>"

text \<open>
  The eviction loop, with the keys it appends to \<open>evicted\<close>. The fuel stands for the \<open>while\<close> loop;
  running out of it is the outcome \<open>Diverged\<close>.
\<close>

fun evict_loop :: "nat \<Rightarrow> bytes list \<Rightarrow> Database \<Rightarrow> (exn + bool) \<times> bytes list \<times> Database" where
  "evict_loop 0 evicted db = (Inl Diverged, evicted, db)"
| "evict_loop (Suc fuel) evicted db =
     (if \<not> memoryUsed db > memoryLimit db then (Inr True, evicted, db)
      else if policy db = NoEviction \<or> lru db = [] then (Inr False, evicted, db)
      else
        (let victim = snd (last (lru db));
             db1 = count_stat evictedKeys_update 1 (erase victim db)
         in evict_loop fuel (evicted @ [victim]) db1))"

definition evictIfNeeded :: "Database \<Rightarrow> (exn + bool) \<times> bytes list \<times> Database" where
  "evictIfNeeded db =
     (if memoryLimit db = 0 then (Inr True, [], db)
      else evict_loop (Suc (length (lru db))) [] db)"

definition keysByRecency :: "Database \<Rightarrow> bytes list" where
  "keysByRecency db = map snd (lru db)"

definition inspect :: "bytes \<Rightarrow> Database \<Rightarrow> KeyInfo option \<times> Database" where
  "inspect key db =
     (case map_of (data db) key of
        None \<Rightarrow> (None, db)
      | Some e \<Rightarrow>
          if expiresAtMs e \<noteq> NO_EXPIRY then
            (let (current, db1) = now db;
                 remaining = expiresAtMs e - current
             in if remaining \<le> 0 then (None, db1)
                else (Some \<lparr>info_type = valueType (value e), info_ttlMs = remaining,
                            info_memory = memory e, info_value = value e\<rparr>, db1))
          else (Some \<lparr>info_type = valueType (value e), info_ttlMs = -1,
                      info_memory = memory e, info_value = value e\<rparr>, db))"

end
