(* ===== verification/FKV_Resp.thy ===== *)
theory FKV_Resp
  imports FKV_Cstd
begin

text \<open>
  The wire protocol, \<open>src/src/resp.cpp\<close>: the request parser \<open>parseRespCommand\<close> (RESP arrays
  of bulk strings, and inline commands), the command-line tokenizer \<open>tokenizeCommandLine\<close>, and
  the reply encoders. The theorems: what \<open>respArray\<close> encodes, the parser decodes, whatever
  bytes the arguments hold; a command that parsed from a buffer parses the same way when more
  bytes follow; a proper prefix of an encoded command is reported incomplete; a complete parse
  consumes at least one byte and never more than the buffer holds.
  Positions into a string view are kept as positions in the array parser and as the
  remaining suffix in the tokenizer.
\<close>

section \<open>Types and limits\<close>

datatype RespParseStatus = Complete | Incomplete | Error

record RespParseResult =
  status :: RespParseStatus
  arguments :: "bytes list"
  consumedBytes :: nat
  error :: bytes

definition MAX_ARGUMENTS :: nat where "MAX_ARGUMENTS = 1024 * 1024"
definition MAX_BULK_SIZE :: nat where "MAX_BULK_SIZE = 512 * 1024 * 1024"
definition MAX_INLINE_SIZE :: nat where "MAX_INLINE_SIZE = 64 * 1024"

definition resp_parseInteger :: "bytes \<Rightarrow> int option" where
  "resp_parseInteger text =
     (case from_chars_ll text of Some (value, []) \<Rightarrow> Some value | _ \<Rightarrow> None)"

definition incompleteResult :: RespParseResult where
  "incompleteResult = \<lparr>status = Incomplete, arguments = [], consumedBytes = 0, error = []\<rparr>"

definition errorResult :: "bytes \<Rightarrow> RespParseResult" where
  "errorResult message = \<lparr>status = Error, arguments = [], consumedBytes = 0, error = message\<rparr>"

definition completeResult :: "bytes list \<Rightarrow> nat \<Rightarrow> RespParseResult" where
  "completeResult args n = \<lparr>status = Complete, arguments = args, consumedBytes = n, error = []\<rparr>"

section \<open>The tokenizer\<close>

definition hexValue :: "char \<Rightarrow> int" where
  "hexValue character =
     (if 48 \<le> byte character \<and> byte character \<le> 57 then int (byte character) - 48
      else if 97 \<le> byte character \<and> byte character \<le> 102 then int (byte character) - 97 + 10
      else if 65 \<le> byte character \<and> byte character \<le> 70 then int (byte character) - 65 + 10
      else -1)"

definition isSpace :: "char \<Rightarrow> bool" where
  "isSpace character \<longleftrightarrow>
     character = CHR '' '' \<or> character = TAB \<or> character = CR \<or> character = LF"

definition escape_char :: "char \<Rightarrow> char" where
  "escape_char escaped =
     (if escaped = CHR ''n'' then LF
      else if escaped = CHR ''r'' then CR
      else if escaped = CHR ''t'' then TAB
      else if escaped = CHR ''b'' then CHR 0x08
      else if escaped = CHR ''a'' then CHR 0x07
      else escaped)"

text \<open>
  A backslash inside double quotes: \<open>rest\<close> is what follows it. The result is the character it
  stands for and what is left of the line (a hexadecimal escape takes two more characters).
\<close>

fun read_escape :: "bytes \<Rightarrow> char \<times> bytes" where
  "read_escape [] = (BACKSLASH, [])"
| "read_escape (escaped # rest) =
     (case rest of
        h1 # h2 # rest' \<Rightarrow>
          if escaped = CHR ''x'' \<and> hexValue h1 \<ge> 0 \<and> hexValue h2 \<ge> 0
          then (char_of (nat (hexValue h1 * 16 + hexValue h2)), rest')
          else (escape_char escaped, rest)
      | _ \<Rightarrow> (escape_char escaped, rest))"

lemma read_escape_length: "length (snd (read_escape line)) \<le> length line"
  by (cases line rule: read_escape.cases) (auto split: list.splits)

text \<open>
  The inner loop of the tokenizer: one argument, from the first character that is not white
  space. \<open>None\<close> is \<open>std::nullopt\<close> (unbalanced quotes); otherwise the argument and the rest of
  the line.
\<close>

function read_argument :: "bool \<Rightarrow> bool \<Rightarrow> bytes \<Rightarrow> bytes \<Rightarrow> (bytes \<times> bytes) option" where
  "read_argument inDoubleQuotes inSingleQuotes current [] =
     (if inDoubleQuotes \<or> inSingleQuotes then None else Some (current, []))"
| "read_argument inDoubleQuotes inSingleQuotes current (character # rest) =
     (if inDoubleQuotes then
        (if character = BACKSLASH \<and> rest \<noteq> [] then
           read_argument True inSingleQuotes
             (current @ [fst (read_escape rest)]) (snd (read_escape rest))
         else if character = DQUOTE then
           (if rest \<noteq> [] \<and> \<not> isSpace (hd rest) then None else Some (current, rest))
         else read_argument True inSingleQuotes (current @ [character]) rest)
      else if inSingleQuotes then
        (if character = BACKSLASH \<and> rest \<noteq> [] \<and> hd rest = SQUOTE then
           read_argument False True (current @ [SQUOTE]) (tl rest)
         else if character = SQUOTE then
           (if rest \<noteq> [] \<and> \<not> isSpace (hd rest) then None else Some (current, rest))
         else read_argument False True (current @ [character]) rest)
      else if isSpace character then Some (current, character # rest)
      else if character = DQUOTE \<and> current = [] then read_argument True False current rest
      else if character = SQUOTE \<and> current = [] then read_argument False True current rest
      else read_argument False False (current @ [character]) rest)"
  by pat_completeness auto
termination
  by (relation "measure (\<lambda>(d, s, current, line). length line)")
    (auto simp: less_Suc_eq_le read_escape_length)

lemma read_argument_length:
  "read_argument d s cur line = Some (arg, rest) \<Longrightarrow> length rest \<le> length line"
proof (induction line arbitrary: d s cur rule: length_induct)
  case (1 line)
  then have IH: "read_argument d' s' cur' ys = Some (arg, rest) \<Longrightarrow> length ys < length line \<Longrightarrow>
      length rest \<le> length line" for d' s' cur' ys
    using le_trans less_imp_le_nat by blast
  show ?case
  proof (cases line)
    case Nil
    with 1 show ?thesis by (simp split: if_splits)
  next
    case (Cons c cs)
    have "length (snd (read_escape cs)) < length line" "length (tl cs) < length line"
      using read_escape_length [of cs] Cons by simp_all
    with "1.prems" show ?thesis
      unfolding Cons read_argument.simps
      by (simp only: split: if_splits) (use IH Cons in \<open>force\<close>)+
  qed
qed

lemma read_argument_progress:
  assumes "read_argument False False [] (c # line) = Some (arg, rest)" "\<not> isSpace c"
  shows "length rest \<le> length line"
  using assms by (simp split: if_splits add: read_argument_length)

text \<open>The outer loop: skip white space, read an argument, repeat until the line is used up.\<close>

function tokenize_loop :: "bytes list \<Rightarrow> bytes \<Rightarrow> bytes list option" where
  "tokenize_loop args line =
     (case dropWhile isSpace line of
        [] \<Rightarrow> Some args
      | c # cs \<Rightarrow>
          (case read_argument False False [] (c # cs) of
             None \<Rightarrow> None
           | Some (current, rest) \<Rightarrow> tokenize_loop (args @ [current]) rest))"
  by pat_completeness auto
termination
proof (relation "measure (\<lambda>(args, line). length line)", goal_cases)
  case 1
  show ?case by simp
next
  case (2 args line c cs p current rest)
  have "\<not> isSpace c"
    using 2(1) by (metis hd_dropWhile list.distinct(1) list.sel(1))
  with 2 have "length rest \<le> length cs"
    by (metis read_argument_progress)
  moreover have "length (c # cs) \<le> length line"
    using length_dropWhile_le [of isSpace line] 2(1) by simp
  ultimately show ?case by simp
qed

declare tokenize_loop.simps [simp del]

definition tokenizeCommandLine :: "bytes \<Rightarrow> bytes list option" where
  "tokenizeCommandLine line = tokenize_loop [] line"

section \<open>The request parser\<close>

definition parseInlineCommand :: "bytes \<Rightarrow> RespParseResult" where
  "parseInlineCommand buffer =
     (case find_char LF buffer of
        None \<Rightarrow>
          if length buffer > MAX_INLINE_SIZE
          then errorResult ''Protocol error: too big inline request''
          else incompleteResult
      | Some lineEnd \<Rightarrow>
          (case tokenizeCommandLine (take lineEnd buffer) of
             None \<Rightarrow> errorResult ''Protocol error: unbalanced quotes in request''
           | Some args \<Rightarrow> completeResult args (lineEnd + 1)))"

text \<open>
  The loop over the bulk strings of an array. The first argument counts the iterations that
  are left (\<open>argumentCount - index\<close>).
\<close>

fun parse_bulks :: "nat \<Rightarrow> bytes \<Rightarrow> nat \<Rightarrow> bytes list \<Rightarrow> RespParseResult" where
  "parse_bulks 0 buffer position args = completeResult args position"
| "parse_bulks (Suc n) buffer position args =
     (if position \<ge> length buffer then incompleteResult
      else if buffer ! position \<noteq> CHR ''$'' then errorResult ''Expected RESP bulk string''
      else (case find_crlf_from buffer (position + 1) of
        None \<Rightarrow> incompleteResult
      | Some lengthEnd \<Rightarrow>
          (case resp_parseInteger (take (lengthEnd - position - 1) (drop (position + 1) buffer)) of
             None \<Rightarrow> errorResult ''Invalid bulk string length''
           | Some bulkLength \<Rightarrow>
               if bulkLength < 0 \<or> bulkLength > int MAX_BULK_SIZE
               then errorResult ''Invalid bulk string length''
               else
                 (let dataStart = lengthEnd + 2; dataLength = nat bulkLength in
                  if dataStart > length buffer \<or> dataLength > length buffer - dataStart
                  then incompleteResult
                  else
                    (let dataEnd = dataStart + dataLength in
                     if length buffer - dataEnd < 2 then incompleteResult
                     else if take 2 (drop dataEnd buffer) \<noteq> CRLF
                     then errorResult ''Bulk string missing CRLF''
                     else parse_bulks n buffer (dataEnd + 2)
                            (args @ [take dataLength (drop dataStart buffer)]))))))"

definition parseRespCommand :: "bytes \<Rightarrow> RespParseResult" where
  "parseRespCommand buffer =
     (if buffer = [] then incompleteResult
      else if hd buffer \<noteq> CHR ''*'' then parseInlineCommand buffer
      else (case find_crlf_from buffer 1 of
        None \<Rightarrow> incompleteResult
      | Some countEnd \<Rightarrow>
          (case resp_parseInteger (take (countEnd - 1) (drop 1 buffer)) of
             None \<Rightarrow> errorResult ''Invalid array length''
           | Some argumentCount \<Rightarrow>
               if argumentCount < 0 \<or> argumentCount > int MAX_ARGUMENTS
               then errorResult ''Invalid array length''
               else parse_bulks (nat argumentCount) buffer (countEnd + 2) [])))"

section \<open>Encoders\<close>

definition respSimpleString :: "bytes \<Rightarrow> bytes" where
  "respSimpleString value = ''+'' @ value @ CRLF"

definition respError :: "bytes \<Rightarrow> bytes" where
  "respError message = ''-ERR '' @ message @ CRLF"

definition respErrorWithCode :: "bytes \<Rightarrow> bytes \<Rightarrow> bytes" where
  "respErrorWithCode code message = ''-'' @ code @ '' '' @ message @ CRLF"

definition respInteger :: "int \<Rightarrow> bytes" where
  "respInteger value = '':'' @ to_string value @ CRLF"

definition respBulkString :: "bytes \<Rightarrow> bytes" where
  "respBulkString value = ''$'' @ to_string_nat (length value) @ CRLF @ value @ CRLF"

definition respNull :: bytes where
  "respNull = ''$-1'' @ CRLF"

definition respArray :: "bytes list \<Rightarrow> bytes" where
  "respArray args = ''*'' @ to_string_nat (length args) @ CRLF @ concat (map respBulkString args)"

definition respEncodedArray :: "bytes list \<Rightarrow> bytes" where
  "respEncodedArray elements = ''*'' @ to_string_nat (length elements) @ CRLF @ concat elements"

section \<open>Facts about the results\<close>

declare parse_bulks.simps(2) [simp del]

lemmas parse_bulks_Suc = parse_bulks.simps(2)

lemma result_sels [simp]:
  "status incompleteResult = Incomplete" "status (errorResult m) = Error"
  "status (completeResult as n) = Complete" "arguments (completeResult as n) = as"
  "consumedBytes (completeResult as n) = n" "error (errorResult m) = m"
  by (simp_all add: incompleteResult_def errorResult_def completeResult_def)

lemma completeResult_inject [simp]:
  "completeResult as n = completeResult bs m \<longleftrightarrow> as = bs \<and> n = m"
  by (auto simp: completeResult_def)

lemma resp_parseInteger_to_string_nat:
  "n \<le> MAX_BULK_SIZE \<Longrightarrow> resp_parseInteger (to_string_nat n) = Some (int n)"
  using from_chars_to_string [of "int n" "[]"]
  by (simp add: resp_parseInteger_def to_string_def in_llong_def LLONG_MAX_def LLONG_MIN_def
      MAX_BULK_SIZE_def)

lemma parse_bulks_whole:
  assumes "pos < length buf" "buf ! pos = CHR ''$''" "find_crlf_from buf (pos + 1) = Some le"
    "resp_parseInteger (take (le - pos - 1) (drop (pos + 1) buf)) = Some b"
    "0 \<le> b" "b \<le> int MAX_BULK_SIZE" "le + 2 + nat b + 2 \<le> length buf"
  shows "parse_bulks (Suc n) buf pos args =
    (if take 2 (drop (le + 2 + nat b) buf) \<noteq> CRLF then errorResult ''Bulk string missing CRLF''
     else parse_bulks n buf (le + 2 + nat b + 2) (args @ [take (nat b) (drop (le + 2) buf)]))"
proof -
  have "\<not> (le + 2 > length buf \<or> nat b > length buf - (le + 2))" "\<not> length buf - (le + 2 + nat b) < 2"
    "\<not> pos \<ge> length buf" "\<not> (b < 0 \<or> int MAX_BULK_SIZE < b)"
    using assms by auto
  with assms(2-4) show ?thesis
    by (simp only: parse_bulks_Suc option.case Let_def if_False simp_thms)
qed

section \<open>Decoding what was encoded\<close>

lemma length_respBulkString:
  "length (respBulkString a) = length (to_string_nat (length a)) + length a + 5"
  by (simp add: respBulkString_def CRLF_def)

lemma parse_bulks_step:
  assumes "length a \<le> MAX_BULK_SIZE"
  shows "parse_bulks (Suc n) (pre @ respBulkString a @ tail) (length pre) acc =
    parse_bulks n (pre @ respBulkString a @ tail) (length pre + length (respBulkString a)) (acc @ [a])"
proof -
  let ?len = "to_string_nat (length a)"
  let ?buf = "pre @ respBulkString a @ tail"
  have buf: "?buf = pre @ CHR ''$'' # ?len @ CR # LF # a @ CR # LF # tail"
    by (simp add: respBulkString_def CRLF_def)
  have lend: "find_crlf_from ?buf (length pre + 1) = Some (length pre + 1 + length ?len)"
    unfolding buf find_crlf_from_def by (simp add: find_crlf_hit)
  have num: "take (length pre + 1 + length ?len - length pre - 1) (drop (length pre + 1) ?buf) = ?len"
    unfolding buf by simp
  have "length (pre @ ''$'' @ ?len @ CRLF) = length pre + 1 + length ?len + 2"
    "?buf = (pre @ ''$'' @ ?len @ CRLF) @ a @ CR # LF # tail"
    by (simp_all add: buf CRLF_def)
  then have rest: "drop (length pre + 1 + length ?len + 2) ?buf = a @ CR # LF # tail"
    by (metis append_eq_conv_conj)
  have dat: "take (length a) (drop (length pre + 1 + length ?len + 2) ?buf) = a"
    unfolding rest by simp
  have "drop (length pre + 1 + length ?len + 2 + length a) ?buf =
      drop (length a) (drop (length pre + 1 + length ?len + 2) ?buf)"
    by (simp only: drop_drop add.commute)
  then have crlf: "take 2 (drop (length pre + 1 + length ?len + 2 + length a) ?buf) = CRLF"
    unfolding rest by (simp add: CRLF_def)
  have len: "length ?buf = length pre + 1 + length ?len + 2 + length a + 2 + length tail"
    unfolding buf by simp
  have pos: "length pre < length ?buf" "?buf ! length pre = CHR ''$''"
    unfolding len by (simp_all add: buf)
  have "parse_bulks (Suc n) ?buf (length pre) acc =
    parse_bulks n ?buf (length pre + 1 + length ?len + 2 + length a + 2) (acc @ [a])"
    using parse_bulks_whole [of "length pre" ?buf "length pre + 1 + length ?len" "int (length a)" n acc]
      pos lend resp_parseInteger_to_string_nat [OF assms] assms
    unfolding num nat_int dat crlf len by simp
  moreover have "length pre + 1 + length ?len + 2 + length a + 2 = length pre + length (respBulkString a)"
    by (simp add: length_respBulkString)
  ultimately show ?thesis by (simp only:)
qed

lemma parse_bulks_encoded:
  assumes "\<forall>a \<in> set args. length a \<le> MAX_BULK_SIZE"
  shows "parse_bulks (length args) (pre @ concat (map respBulkString args) @ tail) (length pre) acc =
    completeResult (acc @ args) (length pre + length (concat (map respBulkString args)))"
  using assms
proof (induction args arbitrary: pre acc)
  case Nil
  then show ?case by simp
next
  case (Cons a args)
  let ?tail = "concat (map respBulkString args) @ tail"
  have "parse_bulks (Suc (length args)) (pre @ respBulkString a @ ?tail) (length pre) acc =
      parse_bulks (length args) ((pre @ respBulkString a) @ ?tail)
        (length (pre @ respBulkString a)) (acc @ [a])"
    using Cons.prems by (simp add: parse_bulks_step)
  also have "\<dots> = completeResult ((acc @ [a]) @ args)
      (length (pre @ respBulkString a) + length (concat (map respBulkString args)))"
    using Cons.prems by (intro Cons.IH) simp
  finally show ?case by simp
qed

lemma parse_encoded_command:
  assumes "length args \<le> MAX_ARGUMENTS" "\<forall>a \<in> set args. length a \<le> MAX_BULK_SIZE"
  shows "parseRespCommand (respArray args @ rest) = completeResult args (length (respArray args))"
proof -
  let ?len = "to_string_nat (length args)"
  let ?pre = "CHR ''*'' # ?len @ CRLF"
  have buf: "respArray args @ rest = ?pre @ concat (map respBulkString args) @ rest"
    by (simp add: respArray_def)
  have cend: "find_crlf_from (respArray args @ rest) 1 = Some (1 + length ?len)"
    unfolding buf find_crlf_from_def by (simp add: find_crlf_hit CRLF_def)
  have num: "take (1 + length ?len - 1) (drop 1 (respArray args @ rest)) = ?len"
    unfolding buf by simp
  have "parseRespCommand (respArray args @ rest) =
      parse_bulks (length args) (respArray args @ rest) (1 + length ?len + 2) []"
    unfolding parseRespCommand_def cend num option.case
    using assms(1) resp_parseInteger_to_string_nat [of "length args"]
    by (simp add: respArray_def MAX_ARGUMENTS_def MAX_BULK_SIZE_def)
  also have "\<dots> = completeResult args (length (respArray args))"
    using parse_bulks_encoded [OF assms(2), of ?pre rest "[]"]
    unfolding buf by (simp add: respArray_def CRLF_def)
  finally show ?thesis .
qed

section \<open>More bytes never change a finished parse\<close>

lemma take_drop_append_left:
  "i + n \<le> length s \<Longrightarrow> take n (drop i (s @ t)) = take n (drop i s)"
  by simp

lemma parse_bulks_append:
  assumes "status (parse_bulks n buf pos args) \<noteq> Incomplete"
  shows "parse_bulks n (buf @ ext) pos args = parse_bulks n buf pos args"
  using assms
proof (induction n arbitrary: pos args)
  case 0
  then show ?case by simp
next
  case (Suc n)
  then have pos: "pos < length buf" by (auto simp: parse_bulks_Suc split: if_splits)
  show ?case
  proof (cases "buf ! pos = CHR ''$''")
    case False
    with pos show ?thesis by (simp add: nth_append parse_bulks_Suc)
  next
    case True
    with Suc.prems pos obtain le where le: "find_crlf_from buf (pos + 1) = Some le"
      by (cases "find_crlf_from buf (pos + 1)") (auto simp: parse_bulks_Suc)
    have le_bounds: "pos + 1 \<le> le" "le + 2 \<le> length buf"
      using find_crlf_from_bound [OF le] by auto
    have le': "find_crlf_from (buf @ ext) (pos + 1) = Some le"
      using le by (rule find_crlf_from_append)
    have num: "take (le - pos - 1) (drop (pos + 1) (buf @ ext)) =
        take (le - pos - 1) (drop (pos + 1) buf)"
      using le_bounds by (intro take_drop_append_left) simp
    let ?n = "resp_parseInteger (take (le - pos - 1) (drop (pos + 1) buf))"
    show ?thesis
    proof (cases "\<exists>b. ?n = Some b \<and> 0 \<le> b \<and> b \<le> int MAX_BULK_SIZE")
      case False
      with pos True le le' num show ?thesis
        by (auto simp: parse_bulks_Suc nth_append split: option.splits)
    next
      case True: True
      then obtain b where b: "?n = Some b" "0 \<le> b" "b \<le> int MAX_BULK_SIZE" by auto
      have fits: "le + 2 + nat b + 2 \<le> length buf"
        using Suc.prems pos \<open>buf ! pos = CHR ''$''\<close> le b
        by (simp add: parse_bulks_Suc Let_def split: if_splits)
      have parts: "take (nat b) (drop (le + 2) (buf @ ext)) = take (nat b) (drop (le + 2) buf)"
        "take 2 (drop (le + 2 + nat b) (buf @ ext)) = take 2 (drop (le + 2 + nat b) buf)"
        using fits by (intro take_drop_append_left; simp)+
      have here: "parse_bulks (Suc n) buf pos args =
          (if take 2 (drop (le + 2 + nat b) buf) \<noteq> CRLF then errorResult ''Bulk string missing CRLF''
           else parse_bulks n buf (le + 2 + nat b + 2) (args @ [take (nat b) (drop (le + 2) buf)]))"
        using pos \<open>buf ! pos = CHR ''$''\<close> le b fits by (rule parse_bulks_whole)
      have there: "parse_bulks (Suc n) (buf @ ext) pos args =
          (if take 2 (drop (le + 2 + nat b) buf) \<noteq> CRLF then errorResult ''Bulk string missing CRLF''
           else parse_bulks n (buf @ ext) (le + 2 + nat b + 2)
             (args @ [take (nat b) (drop (le + 2) buf)]))"
        using parse_bulks_whole [of pos "buf @ ext" le b n args]
          pos \<open>buf ! pos = CHR ''$''\<close> le' b fits
        unfolding num parts by (simp add: nth_append)
      show ?thesis
        using Suc.IH Suc.prems unfolding here there by (simp split: if_splits)
    qed
  qed
qed

lemma parse_array_append:
  assumes "hd buf = CHR ''*''" "status (parseRespCommand buf) \<noteq> Incomplete"
  shows "parseRespCommand (buf @ ext) = parseRespCommand buf"
proof -
  have ne: "buf \<noteq> []" using assms by (auto simp: parseRespCommand_def)
  with assms obtain ce where ce: "find_crlf_from buf 1 = Some ce"
    by (auto simp: parseRespCommand_def split: option.splits)
  have b: "1 \<le> ce" "ce + 2 \<le> length buf" using find_crlf_from_bound [OF ce] by auto
  have num: "take (ce - 1) (drop 1 (buf @ ext)) = take (ce - 1) (drop 1 buf)"
    using b by (intro take_drop_append_left) simp
  show ?thesis
    using assms ne unfolding parseRespCommand_def ce find_crlf_from_append [OF ce] option.case num
    by (auto split: option.splits simp: parse_bulks_append)
qed

lemma parse_complete_append:
  assumes "status (parseRespCommand buf) = Complete"
  shows "parseRespCommand (buf @ ext) = parseRespCommand buf"
proof (cases "hd buf = CHR ''*''")
  case True
  with assms show ?thesis by (intro parse_array_append) simp_all
next
  case False
  have ne: "buf \<noteq> []" using assms by (auto simp: parseRespCommand_def)
  with False assms obtain i where i: "find_char LF buf = Some i"
    by (auto simp: parseRespCommand_def parseInlineCommand_def split: option.splits if_splits)
  then have "i < length buf" by (auto dest: find_char_Some)
  with ne False i show ?thesis
    by (simp add: parseRespCommand_def parseInlineCommand_def find_char_append)
qed

lemma parse_bulks_incomplete:
  "status (parse_bulks n buf pos args) = Incomplete \<Longrightarrow> parse_bulks n buf pos args = incompleteResult"
  by (induction n arbitrary: pos args)
    (auto simp: parse_bulks_Suc Let_def split: if_splits option.splits)

lemma parse_incomplete:
  "status (parseRespCommand buf) = Incomplete \<Longrightarrow> parseRespCommand buf = incompleteResult"
  by (auto simp: parseRespCommand_def parseInlineCommand_def parse_bulks_incomplete
      split: if_splits option.splits)

section \<open>Bounds\<close>

lemma parse_bulks_continues:
  assumes "status (parse_bulks (Suc n) buf pos args) = Complete"
  obtains le k where "find_crlf_from buf (pos + 1) = Some le" "le + 2 + k + 2 \<le> length buf"
    "parse_bulks (Suc n) buf pos args =
      parse_bulks n buf (le + 2 + k + 2) (args @ [take k (drop (le + 2) buf)])"
proof -
  obtain le where le: "find_crlf_from buf (pos + 1) = Some le"
    using assms by (cases "find_crlf_from buf (pos + 1)") (auto simp: parse_bulks_Suc split: if_splits)
  obtain b where b: "resp_parseInteger (take (le - pos - 1) (drop (pos + 1) buf)) = Some b"
    using assms le
    by (cases "resp_parseInteger (take (le - pos - 1) (drop (pos + 1) buf))")
      (auto simp: parse_bulks_Suc split: if_splits)
  have "le + 2 + nat b + 2 \<le> length buf"
    using assms le b by (simp add: parse_bulks_Suc Let_def split: if_splits)
  moreover have "parse_bulks (Suc n) buf pos args =
      parse_bulks n buf (le + 2 + nat b + 2) (args @ [take (nat b) (drop (le + 2) buf)])"
    using assms le b by (simp add: parse_bulks_Suc Let_def split: if_splits)
  ultimately show thesis using le that by blast
qed

lemma parse_bulks_consumed:
  assumes "status (parse_bulks n buf pos args) = Complete" "pos \<le> length buf"
  shows "pos \<le> consumedBytes (parse_bulks n buf pos args) \<and>
    consumedBytes (parse_bulks n buf pos args) \<le> length buf"
  using assms
proof (induction n arbitrary: pos args)
  case 0
  then show ?case by simp
next
  case (Suc n)
  from Suc.prems(1) obtain le k where le: "find_crlf_from buf (pos + 1) = Some le"
    and b: "le + 2 + k + 2 \<le> length buf"
    and eq: "parse_bulks (Suc n) buf pos args =
      parse_bulks n buf (le + 2 + k + 2) (args @ [take k (drop (le + 2) buf)])"
    by (rule parse_bulks_continues)
  have "pos \<le> le + 2 + k + 2" using find_crlf_from_bound [OF le] by simp
  with Suc.IH [OF _ b] Suc.prems(1) eq show ?case by (metis le_trans)
qed

lemma parse_consumed:
  assumes "status (parseRespCommand buf) = Complete"
  shows "0 < consumedBytes (parseRespCommand buf) \<and>
    consumedBytes (parseRespCommand buf) \<le> length buf"
proof (cases "hd buf = CHR ''*''")
  case True
  with assms obtain ce n where ce: "find_crlf_from buf 1 = Some ce"
    and eq: "parseRespCommand buf = parse_bulks n buf (ce + 2) []"
    by (auto simp: parseRespCommand_def split: option.splits if_splits)
  have "ce + 2 \<le> length buf" using find_crlf_from_bound [OF ce] by simp
  with parse_bulks_consumed [of n buf "ce + 2" "[]"] assms eq show ?thesis by auto
next
  case False
  with assms show ?thesis
    by (auto simp: parseRespCommand_def parseInlineCommand_def dest: find_char_Some
        split: option.splits if_splits)
qed

lemma parse_prefix_incomplete:
  assumes "length args \<le> MAX_ARGUMENTS" "\<forall>a \<in> set args. length a \<le> MAX_BULK_SIZE"
    and "respArray args = p @ q" "q \<noteq> []"
  shows "parseRespCommand p = incompleteResult"
proof (cases "p = []")
  case True
  then show ?thesis by (simp add: parseRespCommand_def)
next
  case False
  have hd: "hd p = CHR ''*''"
    using assms(3) False by (cases p) (auto simp: respArray_def)
  have whole: "parseRespCommand (p @ q) = completeResult args (length (respArray args))"
    using parse_encoded_command [OF assms(1,2), of "[]"] assms(3) by simp
  have "status (parseRespCommand p) = Incomplete"
  proof (rule ccontr)
    assume contra: "status (parseRespCommand p) \<noteq> Incomplete"
    then have eq: "parseRespCommand p = completeResult args (length (respArray args))"
      using parse_array_append [OF hd contra, of q] whole by simp
    then have "length (respArray args) \<le> length p"
      using parse_consumed [of p] by simp
    with assms(3,4) show False by simp
  qed
  then show ?thesis by (rule parse_incomplete)
qed

end
