(* ===== verification/FKV_Aof.thy ===== *)
theory FKV_Aof
  imports FKV_Resp "HOL-Library.Sublist"
begin

text \<open>
  Append-only persistence, \<open>class AppendOnlyFile\<close> of \<open>src/include/aof.hpp\<close> and
  \<open>src/src/aof.cpp\<close>. The file is the byte sequence the operating system holds; \<open>write\<close>
  returns what the sequence \<open>writes\<close> says, one outcome per call, so short writes, interrupted
  calls and errors are all possible. \<open>load\<close> is parametric in the replay function, as in the
  code, and threads the state that function works on.

  The first part is the model. The second shows that the file and the buffer together always
  hold exactly the appended commands, that \<open>flush\<close> returns unless \<open>write\<close> is interrupted for
  ever, and what \<open>load\<close> does with the file a crash leaves behind: it replays the commands whose
  encodings are complete, in order, and cuts the file after them.
\<close>

section \<open>Data\<close>

record AppendOnlyFile =
  filePath :: bytes
  buffer :: bytes
  fileDescriptor :: int
  needsSync :: bool
  writeFailed :: bool

datatype write_result = Wrote nat | Interrupted | WriteError

record OS =
  disk :: "bytes option"
  writes :: "nat \<Rightarrow> write_result"
  calls :: nat

definition new_aof :: "bytes \<Rightarrow> AppendOnlyFile" where
  "new_aof path = \<lparr>filePath = path, buffer = [], fileDescriptor = -1, needsSync = False,
     writeFailed = False\<rparr>"

section \<open>Operations\<close>

text \<open>
  \<open>open\<close>: \<open>fd\<close> is what \<open>::open\<close> returns and \<open>msg\<close> the text of \<open>errno\<close>. With \<open>O_CREAT\<close> a missing
  file is created empty.
\<close>

definition aof_open :: "int \<Rightarrow> bytes \<Rightarrow> AppendOnlyFile \<Rightarrow> OS \<Rightarrow> (bytes + unit) \<times> AppendOnlyFile \<times> OS" where
  "aof_open fd msg aof os =
     (if fd = -1
      then (Inl (''failed to open '' @ filePath aof @ '': '' @ msg), aof\<lparr>fileDescriptor := fd\<rparr>, os)
      else (Inr (), aof\<lparr>fileDescriptor := fd\<rparr>,
            os\<lparr>disk := (case disk os of None \<Rightarrow> Some [] | Some f \<Rightarrow> Some f)\<rparr>))"

definition aof_append :: "bytes list \<Rightarrow> AppendOnlyFile \<Rightarrow> AppendOnlyFile" where
  "aof_append args aof = aof\<lparr>buffer := buffer aof @ respArray args\<rparr>"

text \<open>
  One call of \<open>write\<close> on at least one byte: the next outcome. The system never writes more than
  it is given; a count of zero is one of the failures of the code.
\<close>

definition os_write :: "bytes \<Rightarrow> OS \<Rightarrow> write_result \<times> OS" where
  "os_write bs os =
     (let os' = os\<lparr>calls := Suc (calls os)\<rparr> in
      case writes os (calls os) of
        Wrote n \<Rightarrow>
          (let m = min n (length bs)
           in (Wrote m, os'\<lparr>disk := Some (case_option [] id (disk os) @ take m bs)\<rparr>))
      | r \<Rightarrow> (r, os'))"

text \<open>
  The loop of \<open>flush\<close>: whether everything was written, and how much. A loop that does not end
  (\<open>write\<close> interrupted for ever) is the value \<open>None\<close>.
\<close>

partial_function (option) flush_loop :: "bytes \<Rightarrow> nat \<Rightarrow> OS \<Rightarrow> (bool \<times> nat \<times> OS) option" where
  "flush_loop b written os =
     (if written < length b then
        (let (r, os1) = os_write (drop written b) os in
         case r of
           Interrupted \<Rightarrow> flush_loop b written os1
         | WriteError \<Rightarrow> Some (False, written, os1)
         | Wrote n \<Rightarrow> if n = 0 then Some (False, written, os1) else flush_loop b (written + n) os1)
      else Some (True, written, os))"

definition aof_flush :: "AppendOnlyFile \<Rightarrow> OS \<Rightarrow> (bool \<times> AppendOnlyFile \<times> OS) option" where
  "aof_flush aof os =
     (if buffer aof = [] then Some (\<not> writeFailed aof, aof, os)
      else if fileDescriptor aof = -1 then Some (False, aof, os)
      else
        (case flush_loop (buffer aof) 0 os of
           None \<Rightarrow> None
         | Some (False, written, os1) \<Rightarrow>
             Some (False, aof\<lparr>buffer := drop written (buffer aof), writeFailed := True\<rparr>, os1)
         | Some (True, _, os1) \<Rightarrow>
             Some (True, aof\<lparr>buffer := [], needsSync := True, writeFailed := False\<rparr>, os1)))"

text \<open>\<open>sync\<close>, where \<open>ok\<close> says whether \<open>fsync\<close> succeeds.\<close>

definition aof_sync :: "bool \<Rightarrow> AppendOnlyFile \<Rightarrow> bool \<times> AppendOnlyFile" where
  "aof_sync ok aof =
     (if \<not> needsSync aof \<or> fileDescriptor aof = -1 then (True, aof)
      else (ok, aof\<lparr>needsSync := False\<rparr>))"

definition aof_healthy :: "AppendOnlyFile \<Rightarrow> bool" where
  "aof_healthy aof = (\<not> writeFailed aof)"

definition aof_destroy :: "bool \<Rightarrow> AppendOnlyFile \<Rightarrow> OS \<Rightarrow> (AppendOnlyFile \<times> OS) option" where
  "aof_destroy ok aof os =
     map_option (\<lambda>(_, aof1, os1).
       let (_, aof2) = aof_sync ok aof1
       in (if fileDescriptor aof2 \<noteq> -1 then aof2\<lparr>fileDescriptor := -1\<rparr> else aof2, os1))
     (aof_flush aof os)"

section \<open>Loading\<close>

text \<open>
  \<open>replay\<close> returns whether the command succeeded, with the error text. \<open>trunc\<close> is the outcome of
  \<open>truncate\<close>: the text of \<open>errno\<close>, or \<open>None\<close> when it succeeds. The result is the error or success,
  the state after the replayed commands and the contents of the file.
\<close>

function load_loop :: "(bytes list \<Rightarrow> 's \<Rightarrow> (bool \<times> bytes) \<times> 's) \<Rightarrow> bytes option \<Rightarrow> bytes \<Rightarrow> nat \<Rightarrow> nat \<Rightarrow> 's
    \<Rightarrow> (bytes + unit) \<times> 's \<times> bytes" where
  "load_loop replay trunc contents position commandNumber s =
     (if position < length contents then
        (let result = parseRespCommand (drop position contents) in
         case status result of
           Incomplete \<Rightarrow>
             (case trunc of
                Some msg \<Rightarrow> (Inl (''failed to truncate AOF: '' @ msg), s, contents)
              | None \<Rightarrow> (Inr (), s, take position contents))
         | Error \<Rightarrow>
             (Inl (''invalid AOF data at byte '' @ to_string_nat position @ '': '' @ error result), s, contents)
         | Complete \<Rightarrow>
             (let number = Suc commandNumber in
              if arguments result = [] then
                load_loop replay trunc contents (position + consumedBytes result) number s
              else
                (case replay (arguments result) s of
                   ((False, replayError), s1) \<Rightarrow>
                     (Inl (''AOF command #'' @ to_string_nat number @ '' ('' @ hd (arguments result) @
                           '') failed: '' @ replayError), s1, contents)
                 | ((True, _), s1) \<Rightarrow>
                     load_loop replay trunc contents (position + consumedBytes result) number s1)))
      else (Inr (), s, contents))"
  by pat_completeness auto
termination
proof (relation "measure (\<lambda>(_, _, contents, position, _, _). length contents - position)", goal_cases)
  case 1
  then show ?case by simp
next
  case (2 replay trunc contents position n s r num)
  then show ?case using parse_consumed [of "drop position contents"] by (simp, linarith)
next
  case (3 replay trunc contents position n s r num)
  then show ?case using parse_consumed [of "drop position contents"] by (simp, linarith)
qed

declare load_loop.simps [simp del]

text \<open>\<open>load\<close>, with the contents of the file, \<open>None\<close> when it does not exist. A file that exists but
  cannot be opened or read is outside the model.\<close>

definition aof_load :: "(bytes list \<Rightarrow> 's \<Rightarrow> (bool \<times> bytes) \<times> 's) \<Rightarrow> bytes option \<Rightarrow> bytes option \<Rightarrow> 's
    \<Rightarrow> (bytes + unit) \<times> 's \<times> bytes option" where
  "aof_load replay trunc fl s =
     (case fl of
        None \<Rightarrow> (Inr (), s, None)
      | Some contents \<Rightarrow>
          (let (r, s1, contents1) = load_loop replay trunc contents 0 0 s in (r, s1, Some contents1)))"

section \<open>What is written\<close>

abbreviation disk_bytes :: "OS \<Rightarrow> bytes" where
  "disk_bytes os \<equiv> case_option [] id (disk os)"

text \<open>Everything that was appended is in the file or still in the buffer, in order.\<close>

definition stored :: "AppendOnlyFile \<Rightarrow> OS \<Rightarrow> bytes" where
  "stored aof os = disk_bytes os @ buffer aof"

lemma stored_append: "stored (aof_append args aof) os = stored aof os @ respArray args"
  by (simp add: stored_def aof_append_def)

lemma stored_open: "stored (fst (snd (aof_open fd msg aof os))) (snd (snd (aof_open fd msg aof os))) = stored aof os"
  by (simp add: stored_def aof_open_def split: option.splits)

lemma stored_sync: "stored (snd (aof_sync ok aof)) os = stored aof os"
  by (simp add: stored_def aof_sync_def)

lemma os_write_cases:
  obtains "os_write bs os = (Interrupted, os\<lparr>calls := Suc (calls os)\<rparr>)" "writes os (calls os) = Interrupted"
  | "os_write bs os = (WriteError, os\<lparr>calls := Suc (calls os)\<rparr>)"
  | n os1 where "os_write bs os = (Wrote n, os1)" "n \<le> length bs" "disk_bytes os1 = disk_bytes os @ take n bs"
      "writes os1 = writes os" "calls os1 = Suc (calls os)"
  by (cases "writes os (calls os)") (auto simp: os_write_def Let_def)

text \<open>What one pass of the loop adds to the file, for any continuation that meets the claim.\<close>

definition writes_ok :: "bytes \<Rightarrow> nat \<Rightarrow> OS \<Rightarrow> bool \<times> nat \<times> OS \<Rightarrow> bool" where
  "writes_ok b w os r \<longleftrightarrow>
     (case r of (ok, w', os') \<Rightarrow> w \<le> length b \<longrightarrow>
        w \<le> w' \<and> w' \<le> length b \<and> (ok \<longleftrightarrow> w' = length b) \<and>
        disk_bytes os' = disk_bytes os @ take (w' - w) (drop w b))"

lemma writes_ok_step:
  assumes "os_write (drop w b) os = (Wrote n, os1)" "n \<le> length (drop w b)" "w \<le> length b"
    "disk_bytes os1 = disk_bytes os @ take n (drop w b)" "writes_ok b (w + n) os1 r"
  shows "writes_ok b w os r"
proof -
  obtain ok w' os' where r: "r = (ok, w', os')" by (cases r)
  have *: "w + n \<le> w' \<and> w' \<le> length b \<and> (ok \<longleftrightarrow> w' = length b) \<and>
      disk_bytes os' = disk_bytes os1 @ take (w' - (w + n)) (drop (w + n) b)"
    using assms by (auto simp: writes_ok_def r)
  then have "w' - w = n + (w' - (w + n))" by simp
  then have "take (w' - w) (drop w b) = take n (drop w b) @ take (w' - (w + n)) (drop (w + n) b)"
    by (simp only: take_add drop_drop add.commute)
  with * assms(4) show ?thesis by (simp add: writes_ok_def r)
qed

lemma flush_loop_writes_ok:
  assumes "flush_loop b w os = Some r"
  shows "writes_ok b w os r"
proof (rule flush_loop.raw_induct [OF _ assms], goal_cases)
  case (1 rec b w os r)
  show ?case
  proof (cases "w < length b")
    case False
    with 1(2) show ?thesis by (auto simp: writes_ok_def)
  next
    case True
    show ?thesis
    proof (rule os_write_cases [of "drop w b" os])
      assume "os_write (drop w b) os = (Interrupted, os\<lparr>calls := Suc (calls os)\<rparr>)"
      with 1 True show ?thesis by (fastforce simp: writes_ok_def)
    next
      assume "os_write (drop w b) os = (WriteError, os\<lparr>calls := Suc (calls os)\<rparr>)"
      with 1(2) True show ?thesis by (auto simp: writes_ok_def)
    next
      fix n os1
      assume wr: "os_write (drop w b) os = (Wrote n, os1)" "n \<le> length (drop w b)"
        "disk_bytes os1 = disk_bytes os @ take n (drop w b)"
      show ?thesis
      proof (cases "n = 0")
        case True
        with 1(2) wr \<open>w < length b\<close> show ?thesis by (auto simp: writes_ok_def)
      next
        case False
        then have "rec b (w + n) os1 = Some r" using 1(2) wr \<open>w < length b\<close> by simp
        then have "writes_ok b (w + n) os1 r" by (rule 1(1))
        with \<open>w < length b\<close> show ?thesis by (intro writes_ok_step [OF wr(1,2) _ wr(3)]) simp_all
      qed
    qed
  qed
qed

lemma flush_loop_written:
  assumes "flush_loop b 0 os = Some (ok, w, os')"
  shows "w \<le> length b" "ok \<longleftrightarrow> w = length b" "disk_bytes os' = disk_bytes os @ take w b"
  using flush_loop_writes_ok [OF assms] by (auto simp: writes_ok_def)

lemma stored_flush:
  assumes "aof_flush aof os = Some (ok, aof', os')"
  shows "stored aof' os' = stored aof os" "ok \<Longrightarrow> buffer aof' = []"
proof -
  show "stored aof' os' = stored aof os"
  proof (cases "buffer aof = [] \<or> fileDescriptor aof = -1")
    case True
    with assms show ?thesis by (auto simp: aof_flush_def split: if_splits)
  next
    case False
    then obtain ok1 w os1 where l: "flush_loop (buffer aof) 0 os = Some (ok1, w, os1)"
      using assms by (auto simp: aof_flush_def split: option.splits)
    from flush_loop_written [OF l] False assms l show ?thesis
      by (cases ok1) (auto simp: aof_flush_def stored_def)
  qed
  show "buffer aof' = []" if ok
    using assms that by (auto simp: aof_flush_def split: if_splits option.splits bool.splits)
qed

text \<open>\<open>flush\<close> returns when \<open>write\<close> is not interrupted for ever.\<close>

lemma flush_loop_skip:
  assumes "w < length b" "\<And>i. i < j \<Longrightarrow> writes os (calls os + i) = Interrupted"
  shows "flush_loop b w os = flush_loop b w (os\<lparr>calls := calls os + j\<rparr>)"
  using assms(2)
proof (induction j arbitrary: os)
  case 0
  then show ?case by simp
next
  case (Suc j)
  let ?os = "os\<lparr>calls := Suc (calls os)\<rparr>"
  have "writes os (calls os) = Interrupted" using Suc.prems [of 0] by simp
  then have "flush_loop b w os = flush_loop b w ?os"
    using assms(1) by (subst flush_loop.simps) (simp add: os_write_def)
  also have "\<dots> = flush_loop b w (?os\<lparr>calls := calls ?os + j\<rparr>)"
    by (rule Suc.IH) (use Suc.prems [of "Suc i" for i] in simp)
  finally show ?case by simp
qed

lemma flush_loop_returns:
  assumes "\<And>n. \<exists>m \<ge> n. writes os m \<noteq> Interrupted"
  shows "\<exists>r. flush_loop b w os = Some r"
  using assms
proof (induction "length b - w" arbitrary: w os rule: less_induct)
  case less
  show ?case
  proof (cases "w < length b")
    case False
    then show ?thesis by (subst flush_loop.simps) (simp del: split_paired_Ex)
  next
    case True
    define m where "m = (LEAST m. m \<ge> calls os \<and> writes os m \<noteq> Interrupted)"
    have m: "m \<ge> calls os" "writes os m \<noteq> Interrupted"
      using LeastI_ex [of "\<lambda>m. m \<ge> calls os \<and> writes os m \<noteq> Interrupted"] less.prems by (auto simp: m_def)
    let ?os = "os\<lparr>calls := m\<rparr>"
    have "flush_loop b w os = flush_loop b w (os\<lparr>calls := calls os + (m - calls os)\<rparr>)"
    proof (rule flush_loop_skip [OF True])
      fix i assume "i < m - calls os"
      then show "writes os (calls os + i) = Interrupted"
        using not_less_Least [of "calls os + i" "\<lambda>m. m \<ge> calls os \<and> writes os m \<noteq> Interrupted"] by (auto simp: m_def)
    qed
    then have eq: "flush_loop b w os = flush_loop b w ?os" using m(1) by simp
    show ?thesis
    proof (rule os_write_cases [of "drop w b" ?os])
      assume "writes ?os (calls ?os) = Interrupted"
      with m show ?thesis by simp
    next
      assume "os_write (drop w b) ?os = (WriteError, ?os\<lparr>calls := Suc (calls ?os)\<rparr>)"
      with True show ?thesis unfolding eq by (subst flush_loop.simps) (simp del: split_paired_Ex)
    next
      fix n os1
      assume wr: "os_write (drop w b) ?os = (Wrote n, os1)" "writes os1 = writes ?os"
      show ?thesis
      proof (cases "n = 0")
        case True
        with wr \<open>w < length b\<close> show ?thesis unfolding eq by (subst flush_loop.simps) (simp del: split_paired_Ex)
      next
        case False
        then have "\<exists>r. flush_loop b (w + n) os1 = Some r"
          using \<open>w < length b\<close> wr(2) less.prems by (intro less.hyps) auto
        with False wr(1) \<open>w < length b\<close> show ?thesis unfolding eq by (subst flush_loop.simps) (simp del: split_paired_Ex)
      qed
    qed
  qed
qed

lemma aof_flush_returns:
  assumes "\<And>n. \<exists>m \<ge> n. writes os m \<noteq> Interrupted"
  shows "\<exists>r. aof_flush aof os = Some r"
  using flush_loop_returns [OF assms, of "buffer aof" 0]
  by (auto simp: aof_flush_def split: bool.splits)

section \<open>The interface of the loader: a framed codec\<close>

text \<open>
  What a reader of a byte stream relies on to find the end of a message: the length of a message
  that is there as a whole, 0 while a part of it is missing, \<open>None\<close> for anything that is refused.
\<close>

locale framing =
  fixes encode :: "'a \<Rightarrow> bytes"
    and frame :: "bytes \<Rightarrow> nat option"
    and ok :: "'a \<Rightarrow> bool"
  assumes frame_whole: "ok a \<Longrightarrow> frame (encode a @ rest) = Some (length (encode a))"
    and frame_part: "ok a \<Longrightarrow> strict_prefix s (encode a) \<Longrightarrow> frame s = Some 0"
    and frame_nonempty: "ok a \<Longrightarrow> encode a \<noteq> []"
begin

text \<open>A reader that holds \<open>s\<close> of a stream that goes on with \<open>future\<close> sees the next message or waits.\<close>

lemma next_frame:
  assumes "ok a" "s @ future = encode a @ later"
  obtains (there) t where "s = encode a @ t" "t @ future = later" "frame s = Some (length (encode a))" "0 < length (encode a)"
  | (wait) "frame s = Some 0" "strict_prefix s (encode a)" "future \<noteq> []"
proof (cases "length (encode a) \<le> length s")
  case True
  then obtain t where "s = encode a @ t" "t @ future = later"
    using assms(2) by (metis append_eq_append_conv_if append_eq_conv_conj)
  then show thesis using there frame_whole [OF assms(1), of t] frame_nonempty [OF assms(1)] by simp
next
  case False
  then obtain u where u: "encode a = s @ u" "future = u @ later"
    using assms(2) by (metis append_eq_append_conv2 append_eq_conv_conj length_append le_add1)
  then have "u \<noteq> []" using False by auto
  then have "strict_prefix s (encode a)" using u(1) by (auto simp: strict_prefix_def)
  with u(2) \<open>u \<noteq> []\<close> show thesis using wait frame_part [OF assms(1)] by simp
qed

text \<open>A stream is cut into messages in one way only.\<close>

lemma frames_inject:
  assumes "\<forall>a \<in> set as. ok a" "\<forall>b \<in> set bs. ok b" "concat (map encode as) = concat (map encode bs)"
  shows "map encode as = map encode bs"
  using assms
proof (induction as arbitrary: bs)
  case Nil
  then show ?case using frame_nonempty by (cases bs) auto
next
  case (Cons a as)
  then obtain b bs' where bs: "bs = b # bs'" using frame_nonempty [of a] by (cases bs) auto
  have "length (encode a) = length (encode b)"
    using Cons.prems frame_whole [of a "concat (map encode as)"] frame_whole [of b "concat (map encode bs')"] bs by simp
  with Cons bs show ?case by simp
qed

end

text \<open>
  What recovery relies on of the wire format: a command that is followed by anything is read
  back whole, and no proper prefix of an encoding is taken for a command or an error.
\<close>

locale framed_codec =
  fixes encode :: "'a \<Rightarrow> bytes"
    and decode :: "bytes \<Rightarrow> ('a \<times> nat) option"
    and partial :: "bytes \<Rightarrow> bool"
    and ok :: "'a \<Rightarrow> bool"
  assumes decode_encode: "ok a \<Longrightarrow> decode (encode a @ rest) = Some (a, length (encode a))"
    and decode_partial: "ok a \<Longrightarrow> encode a = p @ q \<Longrightarrow> q \<noteq> [] \<Longrightarrow> partial p"
    and partial_not_whole: "partial p \<Longrightarrow> decode p = None"
    and codec_nonempty: "ok a \<Longrightarrow> encode a \<noteq> []"
begin

text \<open>
  Any prefix of a log is a number of whole commands and a proper prefix of the next one.
\<close>

lemma prefix_of_log:
  assumes "prefix s (concat (map encode cs))"
  shows "\<exists>n rest. s = concat (map encode (take n cs)) @ rest \<and>
    (n = length cs \<and> rest = [] \<or> n < length cs \<and> strict_prefix rest (encode (cs ! n)))"
  using assms
proof (induction cs arbitrary: s)
  case Nil
  then show ?case by simp
next
  case (Cons c cs)
  show ?case
  proof (cases "prefix (encode c) s")
    case True
    then obtain s' where s: "s = encode c @ s'" by (auto simp: prefix_def)
    with Cons.prems have "prefix s' (concat (map encode cs))" by simp
    with Cons.IH [of s'] obtain n rest where "s' = concat (map encode (take n cs)) @ rest"
      "n = length cs \<and> rest = [] \<or> n < length cs \<and> strict_prefix rest (encode (cs ! n))"
      by auto
    with s show ?thesis by (intro exI [of _ "Suc n"] exI [of _ rest]) auto
  next
    case False
    with Cons.prems have "strict_prefix s (encode c)"
      by (auto simp: prefix_append strict_prefix_def)
    then show ?thesis by (intro exI [of _ 0] exI [of _ s]) simp
  qed
qed

lemma strict_prefix_partial: "ok a \<Longrightarrow> strict_prefix p (encode a) \<Longrightarrow> partial p"
  by (elim strict_prefixE') (auto intro: decode_partial)

end

sublocale framed_codec \<subseteq> framing encode "\<lambda>s. Some (case decode s of None \<Rightarrow> 0 | Some (a, n) \<Rightarrow> n)" ok
  using decode_encode codec_nonempty partial_not_whole [OF strict_prefix_partial] by unfold_locales auto

text \<open>The commands the server logs respect the limits of the parser.\<close>

definition loggable :: "bytes list \<Rightarrow> bool" where
  "loggable args \<longleftrightarrow> args \<noteq> [] \<and> length args \<le> MAX_ARGUMENTS \<and> (\<forall>a \<in> set args. length a \<le> MAX_BULK_SIZE)"

definition decode_command :: "bytes \<Rightarrow> (bytes list \<times> nat) option" where
  "decode_command b = (let r = parseRespCommand b in
     if status r = Complete then Some (arguments r, consumedBytes r) else None)"

interpretation resp_log: framed_codec respArray decode_command
  "\<lambda>b. status (parseRespCommand b) = Incomplete" loggable
proof
  fix a rest assume "loggable a"
  then show "decode_command (respArray a @ rest) = Some (a, length (respArray a))"
    using parse_encoded_command [of a rest] by (simp add: loggable_def decode_command_def)
next
  fix a p q assume "loggable a" "respArray a = p @ q" "q \<noteq> []"
  then show "status (parseRespCommand p) = Incomplete"
    using parse_prefix_incomplete [of a p q] by (simp add: loggable_def)
qed (simp_all add: decode_command_def respArray_def)

section \<open>Recovery\<close>

fun replay_all :: "(bytes list \<Rightarrow> 's \<Rightarrow> (bool \<times> bytes) \<times> 's) \<Rightarrow> bytes list list \<Rightarrow> 's \<Rightarrow> 's option" where
  "replay_all replay [] s = Some s"
| "replay_all replay (c # cs) s =
     (case replay c s of ((True, _), s1) \<Rightarrow> replay_all replay cs s1 | ((False, _), _) \<Rightarrow> None)"

lemma load_loop_step:
  assumes "drop position contents = respArray c @ rest" "loggable c"
  shows "load_loop replay trunc contents position n s =
    (case replay c s of
       ((False, e), s1) \<Rightarrow> (Inl (''AOF command #'' @ to_string_nat (Suc n) @ '' ('' @ hd c @
           '') failed: '' @ e), s1, contents)
     | ((True, _), s1) \<Rightarrow> load_loop replay trunc contents (position + length (respArray c)) (Suc n) s1)"
proof -
  have "respArray c \<noteq> []" by (simp add: respArray_def)
  then have "position < length contents" using assms(1) by (metis append_is_Nil_conv drop_all not_le)
  moreover have "parseRespCommand (drop position contents) = completeResult c (length (respArray c))"
    using assms parse_encoded_command [of c rest] by (simp add: loggable_def)
  ultimately show ?thesis
    using assms(2) by (subst load_loop.simps) (auto simp: loggable_def split: prod.splits bool.splits)
qed

lemma load_loop_log:
  assumes "drop position contents = concat (map respArray cs) @ rest" "\<forall>c \<in> set cs. loggable c"
    "rest \<noteq> [] \<longrightarrow> status (parseRespCommand rest) = Incomplete"
    "replay_all replay cs s = Some s'" "position \<le> length contents"
  shows "load_loop replay None contents position n s =
    (Inr (), s', take position contents @ concat (map respArray cs))"
  using assms
proof (induction cs arbitrary: position n s)
  case Nil
  show ?case
  proof (cases "rest = []")
    case True
    with Nil show ?thesis by (subst load_loop.simps) simp
  next
    case False
    with Nil have "position < length contents" by (metis append_Nil concat.simps(1) drop_all list.simps(8) not_le)
    with False Nil show ?thesis by (subst load_loop.simps) simp
  qed
next
  case (Cons c cs)
  obtain e s1 where r: "replay c s = ((True, e), s1)" "replay_all replay cs s1 = Some s'"
    using Cons.prems(4) by (auto split: prod.splits bool.splits)
  let ?p = "position + length (respArray c)"
  have d: "drop position contents = respArray c @ (concat (map respArray cs) @ rest)"
    using Cons.prems(1) by simp
  then have "drop ?p contents = concat (map respArray cs) @ rest"
    by (metis add.commute append_eq_conv_conj drop_drop)
  moreover have "?p \<le> length contents" using arg_cong [OF d, of length] Cons.prems(5) by simp
  ultimately have "load_loop replay None contents ?p (Suc n) s1 =
      (Inr (), s', take ?p contents @ concat (map respArray cs))"
    using Cons r(2) by simp
  moreover have "take ?p contents = take position contents @ respArray c"
    using d by (simp add: take_add)
  ultimately show ?case
    using load_loop_step [OF d, of replay None n s] Cons.prems(2) r by simp
qed

text \<open>
  The whole commands of a file that a crash cut anywhere, and the part of the next command that
  made it to the disk.
\<close>

definition cut_log :: "bytes list list \<Rightarrow> bytes \<Rightarrow> bytes list list \<Rightarrow> bool" where
  "cut_log cs contents whole \<longleftrightarrow>
     (\<exists>rest. contents = concat (map respArray whole) @ rest \<and>
       (whole = cs \<and> rest = [] \<or>
        (\<exists>c cs'. cs = whole @ c # cs' \<and> strict_prefix rest (respArray c))))"

lemma cut_log_exists:
  assumes "prefix contents (concat (map respArray cs))"
  shows "\<exists>whole. cut_log cs contents whole"
proof -
  obtain n rest where n: "contents = concat (map respArray (take n cs)) @ rest"
    "n = length cs \<and> rest = [] \<or> n < length cs \<and> strict_prefix rest (respArray (cs ! n))"
    using resp_log.prefix_of_log [OF assms] by blast
  moreover have "cs = take n cs @ cs ! n # drop (Suc n) cs" if "n < length cs"
    using that by (rule id_take_nth_drop)
  ultimately show ?thesis unfolding cut_log_def by (metis take_all order_refl)
qed

lemma load_cut_log:
  assumes "cut_log cs contents whole" "\<forall>c \<in> set cs. loggable c" "replay_all replay whole s = Some s'"
  shows "aof_load replay None (Some contents) s = (Inr (), s', Some (concat (map respArray whole)))"
proof -
  obtain rest where r: "contents = concat (map respArray whole) @ rest"
    "whole = cs \<and> rest = [] \<or> (\<exists>c cs'. cs = whole @ c # cs' \<and> strict_prefix rest (respArray c))"
    using assms(1) by (auto simp: cut_log_def)
  then have "rest \<noteq> [] \<longrightarrow> status (parseRespCommand rest) = Incomplete" "\<forall>c \<in> set whole. loggable c"
    using assms(2) by (auto intro: resp_log.strict_prefix_partial)
  then have "load_loop replay None contents 0 0 s = (Inr (), s', concat (map respArray whole))"
    using load_loop_log [of 0 contents whole rest replay s s' 0] r(1) assms(3) by simp
  then show ?thesis by (simp add: aof_load_def)
qed

end
