(* ===== verification/FKV_Commands.thy ===== *)
theory FKV_Commands
  imports FKV_Database FKV_Aof
begin

text \<open>
  The command layer, \<open>class CommandProcessor\<close> of \<open>src/include/commands.hpp\<close> and
  \<open>src/src/commands.cpp\<close>: the command table, \<open>execute\<close> with its checks, every handler, and the
  propagation of writes to the append-only file. A handler takes the argument vector and the
  processor (the database, the attached file if any, the counters) and returns its reply or the
  exception it throws, with the processor after it.

  \<open>formatBytesHuman\<close> computes in \<open>double\<close> and prints with two decimals; the model does the same
  arithmetic exactly: the conversion rounds to 53 significant bits, divisions by 1024 are exact,
  and \<open>printf\<close> rounds the binary value to the nearest hundredth, ties to even.
\<close>

section \<open>Data\<close>

definition FLASHKV_VERSION :: bytes where "FLASHKV_VERSION = ''0.2.0''"

record ServerStats =
  startTimeMs :: int
  port :: int
  connectedClients :: nat
  totalConnections :: "64 word"
  totalCommands :: "64 word"

record CommandReply =
  payload :: bytes
  closeConnection :: bool

record CommandProcessor =
  database :: Database
  aof :: "AppendOnlyFile option"
  serverStats :: ServerStats

type_synonym handler = "bytes list \<Rightarrow> CommandProcessor \<Rightarrow> (exn + bytes) \<times> CommandProcessor"

record CommandSpec =
  spec_handler :: handler
  arity :: int
  write_cmd :: bool
  denyOom :: bool

section \<open>Helpers\<close>

definition cmd_parseInteger :: "bytes \<Rightarrow> int option" where
  "cmd_parseInteger s =
     (if s = [] then None
      else case from_chars_ll s of Some (v, []) \<Rightarrow> Some v | _ \<Rightarrow> None)"

definition notAnInteger :: bytes where
  "notAnInteger = respError ''value is not an integer or out of range''"

definition syntaxError :: bytes where
  "syntaxError = respError ''syntax error''"

definition nullableBulk :: "bytes option \<Rightarrow> bytes" where
  "nullableBulk v = (case v of Some s \<Rightarrow> respBulkString s | None \<Rightarrow> respNull)"

definition unit_multiplier :: "bytes \<Rightarrow> nat option" where
  "unit_multiplier u =
     (if u = [] \<or> u = ''b'' then Some 1
      else if u = ''k'' then Some 1000
      else if u = ''kb'' then Some 1024
      else if u = ''m'' then Some (1000 * 1000)
      else if u = ''mb'' then Some (1024 * 1024)
      else if u = ''g'' then Some (1000 * 1000 * 1000)
      else if u = ''gb'' then Some (1024 * 1024 * 1024)
      else None)"

definition parseMemorySize :: "bytes \<Rightarrow> size_t option" where
  "parseMemorySize s =
     (let digits = takeWhile is_digit s; suffix = dropWhile is_digit s in
      if digits = [] then None
      else
        (case from_chars_ull digits of
           None \<Rightarrow> None
         | Some (amount, _) \<Rightarrow>
             (case unit_multiplier (lowercase suffix) of
                None \<Rightarrow> None
              | Some multiplier \<Rightarrow>
                  if amount * multiplier < 2 ^ 64 then Some (of_nat (amount * multiplier)) else None)))"

text \<open>\<open>a / b\<close> rounded to the nearest integer, ties to even.\<close>

definition round_half_even :: "nat \<Rightarrow> nat \<Rightarrow> nat" where
  "round_half_even a b =
     (let q = a div b; r = a mod b in
      if 2 * r < b then q
      else if 2 * r > b then Suc q
      else if even q then q else Suc q)"

fun bit_length :: "nat \<Rightarrow> nat" where
  "bit_length n = (if n = 0 then 0 else Suc (bit_length (n div 2)))"

declare bit_length.simps [simp del]

text \<open>\<open>static_cast<double>(n)\<close>: an integer, since it has at most 53 significant bits.\<close>

definition to_double :: "nat \<Rightarrow> nat" where
  "to_double n =
     (let shift = bit_length n - 53 in round_half_even n (2 ^ shift) * 2 ^ shift)"

text \<open>The loop over the units: \<open>v / 1024 ^ u\<close> is the value after \<open>u\<close> divisions.\<close>

definition human_unit :: "nat \<Rightarrow> nat" where
  "human_unit v =
     (if v < 1024 then 0 else if v < 1024 ^ 2 then 1 else if v < 1024 ^ 3 then 2
      else if v < 1024 ^ 4 then 3 else 4)"

definition formatBytesHuman :: "size_t \<Rightarrow> bytes" where
  "formatBytesHuman n =
     (let v = to_double (unat n); u = human_unit v in
      if u = 0 then to_string_nat (unat n) @ ''B''
      else
        (let h = round_half_even (100 * v) (1024 ^ u)
         in to_string_nat (h div 100) @ ''.'' @ [digit_char (h mod 100 div 10), digit_char (h mod 10)] @
            [''BKMGT'' ! u]))"

text \<open>\<open>long long\<close> division truncates towards zero.\<close>

definition llong_div :: "int \<Rightarrow> int \<Rightarrow> int" where
  "llong_div a b = sgn a * sgn b * (\<bar>a\<bar> div \<bar>b\<bar>)"

text \<open>Calling the database from a handler, and going on unless it threw.\<close>

definition db_call :: "(Database \<Rightarrow> 'a \<times> Database) \<Rightarrow> CommandProcessor \<Rightarrow> 'a \<times> CommandProcessor" where
  "db_call f p = (let (r, db) = f (database p) in (r, p\<lparr>database := db\<rparr>))"

definition and_then :: "(exn + 'a) \<times> CommandProcessor \<Rightarrow> ('a \<Rightarrow> CommandProcessor \<Rightarrow> (exn + 'b) \<times> CommandProcessor)
    \<Rightarrow> (exn + 'b) \<times> CommandProcessor" where
  "and_then rp f = (case rp of (Inl e, p) \<Rightarrow> (Inl e, p) | (Inr x, p) \<Rightarrow> f x p)"

definition new_processor :: "Database \<Rightarrow> AppendOnlyFile option \<Rightarrow> CommandProcessor" where
  "new_processor db a =
     (let (t, db1) = now db
      in \<lparr>database = db1, aof = a,
          serverStats = \<lparr>startTimeMs = t, port = 0, connectedClients = 0, totalConnections = 0,
            totalCommands = 0\<rparr>\<rparr>)"

section \<open>Propagation\<close>

definition propagate :: "bytes list \<Rightarrow> CommandProcessor \<Rightarrow> CommandProcessor" where
  "propagate args p =
     (case aof p of None \<Rightarrow> p | Some a \<Rightarrow> p\<lparr>aof := Some (aof_append args a)\<rparr>)"

definition propagateExpiry :: "bytes \<Rightarrow> int \<Rightarrow> CommandProcessor \<Rightarrow> CommandProcessor" where
  "propagateExpiry key unixTimeMs p = propagate [''PEXPIREAT'', key, to_string unixTimeMs] p"

section \<open>Connection and server\<close>

definition cmd_ping :: handler where
  "cmd_ping args p =
     (if length args = 1 then (Inr (respSimpleString ''PONG''), p)
      else if length args = 2 then (Inr (respBulkString (args ! 1)), p)
      else (Inr (respError ''wrong number of arguments for 'ping' command''), p))"

definition cmd_echo :: handler where
  "cmd_echo args p = (Inr (respBulkString (args ! 1)), p)"

definition cmd_select :: handler where
  "cmd_select args p =
     (if args ! 1 \<noteq> ''0'' then (Inr (respError ''DB index is out of range''), p)
      else (Inr (respSimpleString ''OK''), p))"

definition cmd_commandInfo :: handler where
  "cmd_commandInfo args p = (Inr (respEncodedArray []), p)"

definition cmd_dbsize :: handler where
  "cmd_dbsize args p = (Inr (respInteger (int (db_size (database p)))), p)"

definition cmd_flushall :: handler where
  "cmd_flushall args p =
     (Inr (respSimpleString ''OK''), propagate [''FLUSHALL''] (p\<lparr>database := db_clear (database p)\<rparr>))"

definition info_sections :: "int \<Rightarrow> CommandProcessor \<Rightarrow> (bytes \<times> bytes) list" where
  "info_sections uptimeSeconds p =
     (let db = database p; st = statistics db; sv = serverStats p; num = (\<lambda>w. to_string_nat (unat w)) in
      [(''server'',
        ''# Server'' @ CRLF @
        ''flashkv_version:'' @ FLASHKV_VERSION @ CRLF @
        ''tcp_port:'' @ to_string (port sv) @ CRLF @
        ''uptime_in_seconds:'' @ to_string uptimeSeconds @ CRLF),
       (''clients'',
        ''# Clients'' @ CRLF @
        ''connected_clients:'' @ to_string_nat (connectedClients sv) @ CRLF),
       (''memory'',
        ''# Memory'' @ CRLF @
        ''used_memory:'' @ num (memoryUsed db) @ CRLF @
        ''used_memory_human:'' @ formatBytesHuman (memoryUsed db) @ CRLF @
        ''maxmemory:'' @ num (memoryLimit db) @ CRLF @
        ''maxmemory_human:'' @ formatBytesHuman (memoryLimit db) @ CRLF @
        ''maxmemory_policy:'' @ evictionPolicyName (policy db) @ CRLF),
       (''persistence'',
        ''# Persistence'' @ CRLF @
        ''aof_enabled:'' @ (if aof p \<noteq> None then ''1'' else ''0'') @ CRLF @
        ''aof_last_write_status:'' @
          (case aof p of None \<Rightarrow> ''ok'' | Some a \<Rightarrow> if aof_healthy a then ''ok'' else ''err'') @ CRLF),
       (''stats'',
        ''# Stats'' @ CRLF @
        ''total_connections_received:'' @ num (totalConnections sv) @ CRLF @
        ''total_commands_processed:'' @ num (totalCommands sv) @ CRLF @
        ''expired_keys:'' @ num (expiredKeys st) @ CRLF @
        ''evicted_keys:'' @ num (evictedKeys st) @ CRLF @
        ''keyspace_hits:'' @ num (keyspaceHits st) @ CRLF @
        ''keyspace_misses:'' @ num (keyspaceMisses st) @ CRLF),
       (''keyspace'',
        ''# Keyspace'' @ CRLF @
        (if db_size db = 0 then []
         else ''db0:keys='' @ to_string_nat (db_size db) @ '',expires='' @
              to_string_nat (volatileKeyCount db) @ CRLF))])"

fun join_sections :: "bytes \<Rightarrow> bytes \<Rightarrow> (bytes \<times> bytes) list \<Rightarrow> bytes" where
  "join_sections requested output [] = output"
| "join_sections requested output ((name, body) # rest) =
     (if requested \<noteq> ''all'' \<and> requested \<noteq> ''everything'' \<and> requested \<noteq> ''default'' \<and> requested \<noteq> name
      then join_sections requested output rest
      else join_sections requested ((if output \<noteq> [] then output @ CRLF else output) @ body) rest)"

definition cmd_info :: handler where
  "cmd_info args p =
     (let (t, p1) = db_call now p;
          uptimeSeconds = llong_div (t - startTimeMs (serverStats p1)) 1000;
          requested = (if length args > 1 then lowercase (args ! 1) else ''all'')
      in (Inr (respBulkString (join_sections requested [] (info_sections uptimeSeconds p1))), p1))"

definition config_parameters :: "CommandProcessor \<Rightarrow> (bytes \<times> bytes) list" where
  "config_parameters p =
     [(''maxmemory'', to_string_nat (unat (memoryLimit (database p)))),
      (''maxmemory-policy'', evictionPolicyName (policy (database p))),
      (''appendonly'', if aof p \<noteq> None then ''yes'' else ''no''),
      (''port'', to_string (port (serverStats p))),
      (''save'', [])]"

text \<open>Logging the evicted keys, one \<open>DEL\<close> each.\<close>

definition propagate_dels :: "bytes list \<Rightarrow> CommandProcessor \<Rightarrow> CommandProcessor" where
  "propagate_dels evicted p = fold (\<lambda>key. propagate [''DEL'', key]) evicted p"

definition evict_and_log :: "CommandProcessor \<Rightarrow> (exn + bool) \<times> CommandProcessor" where
  "evict_and_log p =
     (case evictIfNeeded (database p) of
        (r, evicted, db) \<Rightarrow> (r, propagate_dels evicted (p\<lparr>database := db\<rparr>)))"

definition cmd_config :: handler where
  "cmd_config args p =
     (let subcommand = uppercase (args ! 1) in
      if subcommand = ''GET'' \<and> length args = 3 then
        (let pattern = lowercase (args ! 2)
         in (Inr (respArray (concat (map (\<lambda>(name, v). [name, v])
                   (filter (\<lambda>(name, v). globMatch pattern name) (config_parameters p))))), p))
      else if subcommand = ''SET'' \<and> length args = 4 then
        (let parameter = lowercase (args ! 2) in
         if parameter = ''maxmemory'' then
           (case parseMemorySize (args ! 3) of
              None \<Rightarrow> (Inr (respError ''argument must be a memory value''), p)
            | Some n \<Rightarrow>
                and_then (evict_and_log (p\<lparr>database := setMaxMemory n (database p)\<rparr>))
                  (\<lambda>_ p1. (Inr (respSimpleString ''OK''), p1)))
         else if parameter = ''maxmemory-policy'' then
           (case parseEvictionPolicy (lowercase (args ! 3)) of
              None \<Rightarrow> (Inr (respError ''invalid maxmemory-policy; use noeviction or allkeys-lru''), p)
            | Some pol \<Rightarrow> (Inr (respSimpleString ''OK''), p\<lparr>database := setEvictionPolicy pol (database p)\<rparr>))
         else (Inr (respError (''Unsupported CONFIG parameter: '' @ args ! 2)), p))
      else (Inr (respError ''unknown subcommand or wrong number of arguments for 'config' command''), p))"

definition cmd_memory :: handler where
  "cmd_memory args p =
     (if uppercase (args ! 1) \<noteq> ''USAGE'' \<or> length args \<noteq> 3
      then (Inr (respError ''unknown subcommand or wrong number of arguments for 'memory' command''), p)
      else
        (let (info, p1) = db_call (inspect (args ! 2)) p
         in (Inr (case info of None \<Rightarrow> respNull | Some i \<Rightarrow> respInteger (sint (info_memory i))), p1)))"

section \<open>Keyspace\<close>

fun del_loop :: "bytes list \<Rightarrow> nat \<Rightarrow> Database \<Rightarrow> nat \<times> Database" where
  "del_loop [] deleted db = (deleted, db)"
| "del_loop (key # ks) deleted db =
     (let (gone, db1) = db_del key db in del_loop ks (if gone then Suc deleted else deleted) db1)"

definition cmd_del :: handler where
  "cmd_del args p =
     (let (deleted, p1) = db_call (del_loop (drop 1 args) 0) p;
          p2 = (if deleted > 0 then propagate args p1 else p1)
      in (Inr (respInteger (int deleted)), p2))"

fun exists_loop :: "bytes list \<Rightarrow> nat \<Rightarrow> Database \<Rightarrow> nat \<times> Database" where
  "exists_loop [] found db = (found, db)"
| "exists_loop (key # ks) found db =
     (let (present, db1) = db_exists key db in exists_loop ks (if present then Suc found else found) db1)"

definition cmd_exists :: handler where
  "cmd_exists args p =
     (let (found, p1) = db_call (exists_loop (drop 1 args) 0) p in (Inr (respInteger (int found)), p1))"

definition cmd_type :: handler where
  "cmd_type args p =
     (let (t, p1) = db_call (db_type (args ! 1)) p
      in (Inr (respSimpleString (case t of Some vt \<Rightarrow> valueTypeName vt | None \<Rightarrow> ''none'')), p1))"

definition cmd_keys :: handler where
  "cmd_keys args p = (let (ks, p1) = db_call (db_keys (args ! 1)) p in (Inr (respArray ks), p1))"

text \<open>\<open>amount * unitMs\<close>, plus the time when relative; \<open>None\<close> on overflow. The clock is read only
  when the product does not overflow and the deadline is relative.\<close>

definition expire_when :: "int \<Rightarrow> int \<Rightarrow> bool \<Rightarrow> CommandProcessor \<Rightarrow> int option \<times> CommandProcessor" where
  "expire_when amount unitMs absolute p =
     (case mul_overflow amount unitMs of
        None \<Rightarrow> (None, p)
      | Some d \<Rightarrow>
          if absolute then (Some d, p)
          else (let (t, p1) = db_call now p in (add_overflow d t, p1)))"

definition expireGeneric :: "bytes list \<Rightarrow> int \<Rightarrow> bool \<Rightarrow> CommandProcessor \<Rightarrow> (exn + bytes) \<times> CommandProcessor" where
  "expireGeneric args unitMs absolute p =
     (case cmd_parseInteger (args ! 2) of
        None \<Rightarrow> (Inr notAnInteger, p)
      | Some amount \<Rightarrow>
          (case expire_when amount unitMs absolute p of
             (None, p1) \<Rightarrow> (Inr (respError (''invalid expire time in '' @ [SQUOTE] @ lowercase (args ! 0) @ [SQUOTE] @ '' command'')), p1)
           | (Some deadline, p1) \<Rightarrow>
               (let key = args ! 1; (done, p2) = db_call (expireAtMs_op key deadline) p1 in
                if \<not> done then (Inr (respInteger 0), p2)
                else
                  (let (present, p3) = db_call (db_exists key) p2
                   in (Inr (respInteger 1),
                       if present then propagateExpiry key deadline p3
                       else propagate [''DEL'', key] p3)))))"

definition cmd_expire :: handler where
  "cmd_expire args = expireGeneric args 1000 False"

definition cmd_pexpire :: handler where
  "cmd_pexpire args = expireGeneric args 1 False"

definition cmd_expireat :: handler where
  "cmd_expireat args = expireGeneric args 1000 True"

definition cmd_pexpireat :: handler where
  "cmd_pexpireat args = expireGeneric args 1 True"

definition cmd_ttl :: handler where
  "cmd_ttl args p = (let (t, p1) = db_call (ttl (args ! 1)) p in (Inr (respInteger t), p1))"

definition cmd_pttl :: handler where
  "cmd_pttl args p = (let (t, p1) = db_call (ttlMs (args ! 1)) p in (Inr (respInteger t), p1))"

definition cmd_persist :: handler where
  "cmd_persist args p =
     (let (cleared, p1) = db_call (db_persist (args ! 1)) p in
      if \<not> cleared then (Inr (respInteger 0), p1)
      else (Inr (respInteger 1), propagate args p1))"

section \<open>Strings\<close>

record SetOptions =
  onlyIfMissing :: bool
  onlyIfPresent :: bool
  deadline :: "int option"

text \<open>The option loop of \<open>SET\<close>: the options, or the error reply.\<close>

fun set_options :: "bytes list \<Rightarrow> SetOptions \<Rightarrow> CommandProcessor \<Rightarrow> (bytes + SetOptions) \<times> CommandProcessor" where
  "set_options [] opts p = (Inr opts, p)"
| "set_options (a # rest) opts p =
     (let option = uppercase a in
      if option = ''NX'' then set_options rest (opts\<lparr>onlyIfMissing := True\<rparr>) p
      else if option = ''XX'' then set_options rest (opts\<lparr>onlyIfPresent := True\<rparr>) p
      else
        (case rest of
           [] \<Rightarrow> (Inl syntaxError, p)
         | v # rest' \<Rightarrow>
             if (option = ''EX'' \<or> option = ''PX'') \<and> deadline opts = None then
               (case cmd_parseInteger v of
                  None \<Rightarrow> (Inl notAnInteger, p)
                | Some amount \<Rightarrow>
                    if amount \<le> 0 then (Inl (respError ''invalid expire time in 'set' command''), p)
                    else
                      (case expire_when amount (if option = ''EX'' then 1000 else 1) False p of
                         (None, p1) \<Rightarrow> (Inl (respError ''invalid expire time in 'set' command''), p1)
                       | (Some w, p1) \<Rightarrow> set_options rest' (opts\<lparr>deadline := Some w\<rparr>) p1))
             else (Inl syntaxError, p)))"

definition cmd_set :: handler where
  "cmd_set args p =
     (let key = args ! 1; v = args ! 2 in
      case set_options (drop 3 args) \<lparr>onlyIfMissing = False, onlyIfPresent = False, deadline = None\<rparr> p of
        (Inl reply, p1) \<Rightarrow> (Inr reply, p1)
      | (Inr opts, p1) \<Rightarrow>
          if onlyIfMissing opts \<and> onlyIfPresent opts then (Inr syntaxError, p1)
          else
            (let (present, p2) = db_call (db_exists key) p1 in
             if onlyIfMissing opts \<and> present \<or> onlyIfPresent opts \<and> \<not> present then (Inr respNull, p2)
             else
               (let p3 = p2\<lparr>database := db_set key v (database p2)\<rparr>;
                    p4 = propagate [''SET'', key, v] p3;
                    p6 = (case deadline opts of
                            None \<Rightarrow> p4
                          | Some d \<Rightarrow>
                              (let (_, p5) = db_call (expireAtMs_op key d) p4 in propagateExpiry key d p5))
                in (Inr (respSimpleString ''OK''), p6))))"

definition cmd_get :: handler where
  "cmd_get args p =
     and_then (db_call (db_get (args ! 1)) p) (\<lambda>v p1. (Inr (nullableBulk v), p1))"

fun mset_loop :: "bytes list \<Rightarrow> Database \<Rightarrow> Database" where
  "mset_loop (k # v # rest) db = mset_loop rest (db_set k v db)"
| "mset_loop _ db = db"

definition cmd_mset :: handler where
  "cmd_mset args p =
     (if length args mod 2 = 0
      then (Inr (respError ''wrong number of arguments for 'mset' command''), p)
      else
        (let p1 = p\<lparr>database := mset_loop (drop 1 args) (database p)\<rparr>
         in (Inr (respSimpleString ''OK''), propagate args p1)))"

fun mget_loop :: "bytes list \<Rightarrow> bytes list \<Rightarrow> Database \<Rightarrow> (exn + bytes list) \<times> Database" where
  "mget_loop [] values db = (Inr values, db)"
| "mget_loop (k # ks) values db =
     (case db_get k db of
        (Inr v, db1) \<Rightarrow> mget_loop ks (values @ [nullableBulk v]) db1
      | (Inl e, db1) \<Rightarrow>
          if e = WrongTypeError then mget_loop ks (values @ [respNull]) db1 else (Inl e, db1))"

definition cmd_mget :: handler where
  "cmd_mget args p =
     and_then (db_call (mget_loop (drop 1 args) []) p) (\<lambda>vs p1. (Inr (respEncodedArray vs), p1))"

text \<open>A write whose reply is an integer and which is always logged.\<close>

definition cmd_incr :: handler where
  "cmd_incr args p =
     and_then (db_call (incrementBy (args ! 1) 1) p) (\<lambda>r p1. (Inr (respInteger r), propagate args p1))"

definition cmd_decr :: handler where
  "cmd_decr args p =
     and_then (db_call (incrementBy (args ! 1) (-1)) p) (\<lambda>r p1. (Inr (respInteger r), propagate args p1))"

definition cmd_incrby :: handler where
  "cmd_incrby args p =
     (case cmd_parseInteger (args ! 2) of
        None \<Rightarrow> (Inr notAnInteger, p)
      | Some delta \<Rightarrow>
          and_then (db_call (incrementBy (args ! 1) delta) p)
            (\<lambda>r p1. (Inr (respInteger r), propagate args p1)))"

definition cmd_decrby :: handler where
  "cmd_decrby args p =
     (case cmd_parseInteger (args ! 2) of
        None \<Rightarrow> (Inr notAnInteger, p)
      | Some delta \<Rightarrow>
          if delta = LLONG_MIN then (Inr (respError ''decrement would overflow''), p)
          else
            and_then (db_call (incrementBy (args ! 1) (- delta)) p)
              (\<lambda>r p1. (Inr (respInteger r), propagate args p1)))"

definition cmd_append :: handler where
  "cmd_append args p =
     and_then (db_call (db_append (args ! 1) (args ! 2)) p)
       (\<lambda>n p1. (Inr (respInteger (int n)), propagate args p1))"

definition cmd_strlen :: handler where
  "cmd_strlen args p =
     and_then (db_call (stringLength (args ! 1)) p) (\<lambda>n p1. (Inr (respInteger (int n)), p1))"

section \<open>Lists\<close>

definition cmd_lpush :: handler where
  "cmd_lpush args p =
     and_then (db_call (listPush (args ! 1) (drop 2 args) Left) p)
       (\<lambda>n p1. (Inr (respInteger (int n)), propagate args p1))"

definition cmd_rpush :: handler where
  "cmd_rpush args p =
     and_then (db_call (listPush (args ! 1) (drop 2 args) Right) p)
       (\<lambda>n p1. (Inr (respInteger (int n)), propagate args p1))"

definition cmd_lpop :: handler where
  "cmd_lpop args p =
     and_then (db_call (listPop (args ! 1) Left) p)
       (\<lambda>v p1. (Inr (nullableBulk v), if v \<noteq> None then propagate args p1 else p1))"

definition cmd_rpop :: handler where
  "cmd_rpop args p =
     and_then (db_call (listPop (args ! 1) Right) p)
       (\<lambda>v p1. (Inr (nullableBulk v), if v \<noteq> None then propagate args p1 else p1))"

definition cmd_lrange :: handler where
  "cmd_lrange args p =
     (case (cmd_parseInteger (args ! 2), cmd_parseInteger (args ! 3)) of
        (Some start, Some stop) \<Rightarrow>
          and_then (db_call (listRange (args ! 1) start stop) p) (\<lambda>l p1. (Inr (respArray l), p1))
      | _ \<Rightarrow> (Inr notAnInteger, p))"

definition cmd_llen :: handler where
  "cmd_llen args p =
     and_then (db_call (listLength (args ! 1)) p) (\<lambda>n p1. (Inr (respInteger (int n)), p1))"

definition cmd_lindex :: handler where
  "cmd_lindex args p =
     (case cmd_parseInteger (args ! 2) of
        None \<Rightarrow> (Inr notAnInteger, p)
      | Some index \<Rightarrow>
          and_then (db_call (listIndex (args ! 1) index) p) (\<lambda>v p1. (Inr (nullableBulk v), p1)))"

section \<open>Hashes\<close>

fun pairs :: "bytes list \<Rightarrow> (bytes \<times> bytes) list" where
  "pairs (f # v # rest) = (f, v) # pairs rest"
| "pairs _ = []"

definition cmd_hset :: handler where
  "cmd_hset args p =
     (if length args mod 2 \<noteq> 0
      then (Inr (respError ''wrong number of arguments for 'hset' command''), p)
      else
        and_then (db_call (hashSet (args ! 1) (pairs (drop 2 args))) p)
          (\<lambda>n p1. (Inr (respInteger (int n)), propagate args p1)))"

definition cmd_hget :: handler where
  "cmd_hget args p =
     and_then (db_call (hashGet (args ! 1) (args ! 2)) p) (\<lambda>v p1. (Inr (nullableBulk v), p1))"

definition cmd_hdel :: handler where
  "cmd_hdel args p =
     and_then (db_call (hashDelete (args ! 1) (drop 2 args)) p)
       (\<lambda>n p1. (Inr (respInteger (int n)), if n > 0 then propagate args p1 else p1))"

definition cmd_hgetall :: handler where
  "cmd_hgetall args p =
     and_then (db_call (hashGetAll (args ! 1)) p)
       (\<lambda>h p1. (Inr (respArray (concat (map (\<lambda>(f, v). [f, v]) h))), p1))"

definition cmd_hlen :: handler where
  "cmd_hlen args p =
     and_then (db_call (hashLength (args ! 1)) p) (\<lambda>n p1. (Inr (respInteger (int n)), p1))"

definition cmd_hexists :: handler where
  "cmd_hexists args p =
     and_then (db_call (hashExists (args ! 1) (args ! 2)) p)
       (\<lambda>b p1. (Inr (respInteger (if b then 1 else 0)), p1))"

definition cmd_hkeys :: handler where
  "cmd_hkeys args p =
     and_then (db_call (hashGetAll (args ! 1)) p) (\<lambda>h p1. (Inr (respArray (map fst h)), p1))"

definition cmd_hvals :: handler where
  "cmd_hvals args p =
     and_then (db_call (hashGetAll (args ! 1)) p) (\<lambda>h p1. (Inr (respArray (map snd h)), p1))"

section \<open>Sets\<close>

definition cmd_sadd :: handler where
  "cmd_sadd args p =
     and_then (db_call (setAdd (args ! 1) (drop 2 args)) p)
       (\<lambda>n p1. (Inr (respInteger (int n)), if n > 0 then propagate args p1 else p1))"

definition cmd_srem :: handler where
  "cmd_srem args p =
     and_then (db_call (setRemove (args ! 1) (drop 2 args)) p)
       (\<lambda>n p1. (Inr (respInteger (int n)), if n > 0 then propagate args p1 else p1))"

definition cmd_smembers :: handler where
  "cmd_smembers args p =
     and_then (db_call (setMembers (args ! 1)) p) (\<lambda>s p1. (Inr (respArray s), p1))"

definition cmd_sismember :: handler where
  "cmd_sismember args p =
     and_then (db_call (setIsMember (args ! 1) (args ! 2)) p)
       (\<lambda>b p1. (Inr (respInteger (if b then 1 else 0)), p1))"

definition cmd_scard :: handler where
  "cmd_scard args p =
     and_then (db_call (setCardinality (args ! 1)) p) (\<lambda>n p1. (Inr (respInteger (int n)), p1))"

section \<open>The table and the dispatcher\<close>

definition command_spec :: "handler \<Rightarrow> int \<Rightarrow> bool \<Rightarrow> bool \<Rightarrow> CommandSpec" where
  "command_spec h n w d = \<lparr>spec_handler = h, arity = n, write_cmd = w, denyOom = d\<rparr>"

definition commandTable :: "(bytes \<times> CommandSpec) list" where
  "commandTable =
     [(''PING'', command_spec cmd_ping (-1) False False),
      (''ECHO'', command_spec cmd_echo 2 False False),
      (''SELECT'', command_spec cmd_select 2 False False),
      (''COMMAND'', command_spec cmd_commandInfo (-1) False False),
      (''DBSIZE'', command_spec cmd_dbsize 1 False False),
      (''FLUSHALL'', command_spec cmd_flushall (-1) True False),
      (''FLUSHDB'', command_spec cmd_flushall (-1) True False),
      (''INFO'', command_spec cmd_info (-1) False False),
      (''CONFIG'', command_spec cmd_config (-2) False False),
      (''MEMORY'', command_spec cmd_memory (-2) False False),
      (''DEL'', command_spec cmd_del (-2) True False),
      (''UNLINK'', command_spec cmd_del (-2) True False),
      (''EXISTS'', command_spec cmd_exists (-2) False False),
      (''TYPE'', command_spec cmd_type 2 False False),
      (''KEYS'', command_spec cmd_keys 2 False False),
      (''EXPIRE'', command_spec cmd_expire 3 True False),
      (''PEXPIRE'', command_spec cmd_pexpire 3 True False),
      (''EXPIREAT'', command_spec cmd_expireat 3 True False),
      (''PEXPIREAT'', command_spec cmd_pexpireat 3 True False),
      (''TTL'', command_spec cmd_ttl 2 False False),
      (''PTTL'', command_spec cmd_pttl 2 False False),
      (''PERSIST'', command_spec cmd_persist 2 True False),
      (''SET'', command_spec cmd_set (-3) True True),
      (''GET'', command_spec cmd_get 2 False False),
      (''MSET'', command_spec cmd_mset (-3) True True),
      (''MGET'', command_spec cmd_mget (-2) False False),
      (''INCR'', command_spec cmd_incr 2 True True),
      (''DECR'', command_spec cmd_decr 2 True True),
      (''INCRBY'', command_spec cmd_incrby 3 True True),
      (''DECRBY'', command_spec cmd_decrby 3 True True),
      (''APPEND'', command_spec cmd_append 3 True True),
      (''STRLEN'', command_spec cmd_strlen 2 False False),
      (''LPUSH'', command_spec cmd_lpush (-3) True True),
      (''RPUSH'', command_spec cmd_rpush (-3) True True),
      (''LPOP'', command_spec cmd_lpop 2 True False),
      (''RPOP'', command_spec cmd_rpop 2 True False),
      (''LRANGE'', command_spec cmd_lrange 4 False False),
      (''LLEN'', command_spec cmd_llen 2 False False),
      (''LINDEX'', command_spec cmd_lindex 3 False False),
      (''HSET'', command_spec cmd_hset (-4) True True),
      (''HGET'', command_spec cmd_hget 3 False False),
      (''HDEL'', command_spec cmd_hdel (-3) True False),
      (''HGETALL'', command_spec cmd_hgetall 2 False False),
      (''HLEN'', command_spec cmd_hlen 2 False False),
      (''HEXISTS'', command_spec cmd_hexists 3 False False),
      (''HKEYS'', command_spec cmd_hkeys 2 False False),
      (''HVALS'', command_spec cmd_hvals 2 False False),
      (''SADD'', command_spec cmd_sadd (-3) True True),
      (''SREM'', command_spec cmd_srem (-3) True False),
      (''SMEMBERS'', command_spec cmd_smembers 2 False False),
      (''SISMEMBER'', command_spec cmd_sismember 3 False False),
      (''SCARD'', command_spec cmd_scard 2 False False)]"

definition reply_of :: "bytes \<Rightarrow> CommandReply" where
  "reply_of s = \<lparr>payload = s, closeConnection = False\<rparr>"

text \<open>The arity check. The cast of the number of arguments to \<open>int\<close> is exact below \<open>2 ^ 31\<close>
  arguments, and the protocol allows \<open>MAX_ARGUMENTS\<close>.\<close>

definition arity_error :: "int \<Rightarrow> bytes list \<Rightarrow> bool" where
  "arity_error n args =
     (let count = int (length args) in n > 0 \<and> count \<noteq> n \<or> n < 0 \<and> count < - n)"

text \<open>The replies of the \<open>catch\<close> clauses. Undefined behaviour and divergence are not exceptions.\<close>

definition catch_reply :: "exn + bytes \<Rightarrow> exn + CommandReply" where
  "catch_reply r =
     (case r of
        Inr s \<Rightarrow> Inr (reply_of s)
      | Inl WrongTypeError \<Rightarrow>
          Inr (reply_of (respErrorWithCode ''WRONGTYPE''
            ''Operation against a key holding the wrong kind of value''))
      | Inl NotIntegerError \<Rightarrow> Inr (reply_of (respError ''value is not an integer or out of range''))
      | Inl OverflowError \<Rightarrow> Inr (reply_of (respError ''increment or decrement would overflow''))
      | Inl e \<Rightarrow> Inl e)"

definition call_handler :: "CommandSpec \<Rightarrow> bytes list \<Rightarrow> CommandProcessor \<Rightarrow> (exn + CommandReply) \<times> CommandProcessor" where
  "call_handler spec args p = (let (r, p1) = spec_handler spec args p in (catch_reply r, p1))"

definition run_write :: "CommandSpec \<Rightarrow> bytes list \<Rightarrow> CommandProcessor \<Rightarrow> (exn + CommandReply) \<times> CommandProcessor" where
  "run_write spec args p =
     (if (case aof p of None \<Rightarrow> False | Some a \<Rightarrow> \<not> aof_healthy a)
      then (Inr (reply_of (respErrorWithCode ''MISCONF''
              ''Errors writing to the AOF file. Write commands are disabled.'')), p)
      else
        and_then (evict_and_log p) (\<lambda>withinLimit p1.
          if \<not> withinLimit \<and> denyOom spec
          then (Inr (reply_of (respErrorWithCode ''OOM''
                  ''command not allowed when used memory > 'maxmemory'.'')), p1)
          else call_handler spec args p1))"

definition execute :: "bytes list \<Rightarrow> CommandProcessor \<Rightarrow> (exn + CommandReply) \<times> CommandProcessor" where
  "execute args p =
     (if args = [] then (Inr (reply_of (respError ''empty command'')), p)
      else
        (let p1 = p\<lparr>serverStats := (serverStats p)\<lparr>totalCommands := totalCommands (serverStats p) + 1\<rparr>\<rparr>;
             name = uppercase (args ! 0) in
         if name = ''QUIT'' then (Inr \<lparr>payload = respSimpleString ''OK'', closeConnection = True\<rparr>, p1)
         else
           (case map_of commandTable name of
              None \<Rightarrow> (Inr (reply_of (respError (''unknown command '' @ [SQUOTE] @ args ! 0 @ [SQUOTE]))), p1)
            | Some spec \<Rightarrow>
                if arity_error (arity spec) args
                then (Inr (reply_of (respError (''wrong number of arguments for '' @ [SQUOTE] @
                        lowercase name @ [SQUOTE] @ '' command''))), p1)
                else if write_cmd spec then run_write spec args p1
                else call_handler spec args p1)))"

end
