(* ===== verification/FKV_Database_Inv.thy ===== *)
theory FKV_Database_Inv
  imports FKV_Database "HOL-Library.Multiset"
begin

text \<open>
  The representation invariant of the storage engine and its preservation. The table has
  distinct keys; the LRU list holds exactly one cell per key and every entry's iterator names
  the cell of its own key; the vector of volatile keys and the entries' indices are inverse to
  each other, and a key is in the vector exactly when it has an expiry; every entry's memory
  estimate is what a fresh computation over its value gives, and the total is their sum; hash
  and set values have no duplicates and no aggregate is empty.
\<close>

section \<open>The invariant\<close>

definition keys_ok :: "Database \<Rightarrow> bool" where
  "keys_ok db \<longleftrightarrow> distinct (map fst (data db))"

definition lru_ok :: "Database \<Rightarrow> bool" where
  "lru_ok db \<longleftrightarrow>
     distinct (map fst (lru db)) \<and> distinct (map snd (lru db)) \<and>
     snd ` set (lru db) = fst ` set (data db) \<and>
     (\<forall>k e. map_of (data db) k = Some e \<longrightarrow> (lruPosition e, k) \<in> set (lru db)) \<and>
     (\<forall>i \<in> fst ` set (lru db). i < lruCells db)"

definition volatile_entry_ok :: "bytes list \<Rightarrow> bytes \<Rightarrow> Entry \<Rightarrow> bool" where
  "volatile_entry_ok vk k e =
     (case volatileIndex e of
        None \<Rightarrow> expiresAtMs e = NO_EXPIRY
      | Some i \<Rightarrow> i < length vk \<and> vk ! i = k \<and> 0 < expiresAtMs e)"

definition volatile_ok :: "Database \<Rightarrow> bool" where
  "volatile_ok db \<longleftrightarrow>
     (\<forall>k e. map_of (data db) k = Some e \<longrightarrow> volatile_entry_ok (volatileKeys db) k e) \<and>
     (\<forall>i < length (volatileKeys db).
        \<exists>e. map_of (data db) (volatileKeys db ! i) = Some e \<and> volatileIndex e = Some i)"

definition entry_cost :: "bytes \<Rightarrow> Value \<Rightarrow> size_t" where
  "entry_cost k v = ENTRY_OVERHEAD + string_size k + payloadMemory v"

abbreviation total_memory :: "(bytes \<times> Entry) list \<Rightarrow> size_t" where
  "total_memory al \<equiv> alist_sum (\<lambda>p. memory (snd p)) al"

definition memory_ok :: "Database \<Rightarrow> bool" where
  "memory_ok db \<longleftrightarrow>
     (\<forall>k e. map_of (data db) k = Some e \<longrightarrow> memory e = entry_cost k (value e)) \<and>
     memoryUsed db = total_memory (data db)"

fun value_wf :: "Value \<Rightarrow> bool" where
  "value_wf (StringValue _) = True"
| "value_wf (ListValue _) = True"
| "value_wf (HashValue h) = distinct (map fst h)"
| "value_wf (SetValue s) = distinct s"

fun value_nonempty :: "Value \<Rightarrow> bool" where
  "value_nonempty (StringValue _) = True"
| "value_nonempty (ListValue l) = (l \<noteq> [])"
| "value_nonempty (HashValue h) = (h \<noteq> [])"
| "value_nonempty (SetValue s) = (s \<noteq> [])"

definition all_values :: "(Value \<Rightarrow> bool) \<Rightarrow> Database \<Rightarrow> bool" where
  "all_values P db \<longleftrightarrow> (\<forall>k e. map_of (data db) k = Some e \<longrightarrow> P (value e))"

definition clock_ok :: "Database \<Rightarrow> bool" where
  "clock_ok db \<longleftrightarrow> (\<forall>i. 0 \<le> clock db i)"

text \<open>The structural part, which also holds in the middle of an operation.\<close>

definition db_struct :: "Database \<Rightarrow> bool" where
  "db_struct db \<longleftrightarrow>
     keys_ok db \<and> lru_ok db \<and> volatile_ok db \<and> memory_ok db \<and> all_values value_wf db \<and> clock_ok db"

definition db_inv :: "Database \<Rightarrow> bool" where
  "db_inv db \<longleftrightarrow> db_struct db \<and> all_values value_nonempty db"

lemmas db_struct_defs = db_struct_def keys_ok_def lru_ok_def volatile_ok_def memory_ok_def
  all_values_def clock_ok_def

lemma db_structD:
  assumes "db_struct db"
  shows "keys_ok db" "lru_ok db" "volatile_ok db" "memory_ok db" "all_values value_wf db" "clock_ok db"
  using assms by (simp_all add: db_struct_def)

lemma db_invD: "db_inv db \<Longrightarrow> db_struct db"
  by (simp add: db_inv_def)

lemma new_database_inv: "(\<And>i. 0 \<le> clk i) \<Longrightarrow> db_inv (new_database clk rnd)"
  by (simp add: new_database_def db_inv_def db_struct_defs)

text \<open>Fields outside the representation do not matter.\<close>

lemma db_struct_frame:
  assumes "db_struct db" "data db' = data db" "volatileKeys db' = volatileKeys db"
    "memoryUsed db' = memoryUsed db" "clock db' = clock db" "lru_ok db'"
  shows "db_struct db'"
proof -
  have "volatile_ok db' = volatile_ok db"
    unfolding volatile_ok_def assms(2,3) by (rule refl)
  with assms show ?thesis
    by (simp add: db_struct_def keys_ok_def memory_ok_def all_values_def clock_ok_def)
qed

lemma db_struct_same:
  assumes "data db' = data db" "volatileKeys db' = volatileKeys db" "memoryUsed db' = memoryUsed db"
    "clock db' = clock db" "lru db' = lru db" "lruCells db' = lruCells db"
  shows "db_struct db' \<longleftrightarrow> db_struct db" "db_inv db' \<longleftrightarrow> db_inv db"
proof -
  have lru: "lru_ok db' = lru_ok db"
    unfolding lru_ok_def assms(1,5,6) by (rule refl)
  have vals: "all_values value_nonempty db' = all_values value_nonempty db"
    unfolding all_values_def assms(1) by (rule refl)
  show "db_struct db' \<longleftrightarrow> db_struct db"
  proof
    assume st: "db_struct db'"
    then show "db_struct db"
      by (rule db_struct_frame) (use assms lru st in \<open>simp_all add: db_struct_def\<close>)
  next
    assume st: "db_struct db"
    then show "db_struct db'"
      by (rule db_struct_frame) (use assms lru st in \<open>simp_all add: db_struct_def\<close>)
  qed
  with vals show "db_inv db' \<longleftrightarrow> db_inv db" by (simp add: db_inv_def)
qed

section \<open>Reading and writing entries\<close>

lemma entry_of_Some [simp]: "map_of (data db) k = Some e \<Longrightarrow> entry_of k db = e"
  by (simp add: entry_of_def)

lemma modify_entry_Some:
  "map_of (data db) k = Some e \<Longrightarrow>
     modify_entry k f db = db\<lparr>data := AList.update k (f e) (data db)\<rparr>"
  by (simp add: modify_entry_def)

lemma modify_entry_frame [simp]:
  "lru (modify_entry k f db) = lru db" "lruCells (modify_entry k f db) = lruCells db"
  "volatileKeys (modify_entry k f db) = volatileKeys db"
  "memoryUsed (modify_entry k f db) = memoryUsed db"
  "memoryLimit (modify_entry k f db) = memoryLimit db" "policy (modify_entry k f db) = policy db"
  "clock (modify_entry k f db) = clock db" "readings (modify_entry k f db) = readings db"
  "random (modify_entry k f db) = random db" "draws (modify_entry k f db) = draws db"
  "statistics (modify_entry k f db) = statistics db"
  by (simp_all add: modify_entry_def split: option.splits)

lemma modify_entry_lookup:
  "map_of (data (modify_entry k f db)) k' =
     (if k' = k then map_option f (map_of (data db) k) else map_of (data db) k')"
  by (simp add: modify_entry_def split: option.splits)

lemma modify_entry_keys [simp]: "map fst (data (modify_entry k f db)) = map fst (data db)"
  by (simp add: modify_entry_def map_fst_update_present split: option.splits)

lemma modify_entry_fst_set [simp]: "fst ` set (data (modify_entry k f db)) = fst ` set (data db)"
  by (metis list.set_map modify_entry_keys)

lemma modify_entry_keys_ok [simp]: "keys_ok (modify_entry k f db) \<longleftrightarrow> keys_ok db"
  by (simp add: keys_ok_def)

lemma modify_entry_total_memory:
  assumes "\<And>e. memory (f e) = memory e" "keys_ok db"
  shows "total_memory (data (modify_entry k f db)) = total_memory (data db)"
proof (cases "map_of (data db) k")
  case None
  then show ?thesis by (simp add: modify_entry_def)
next
  case (Some e)
  then show ?thesis
    using assms by (simp add: modify_entry_def alist_sum_update_present keys_ok_def)
qed

lemma lru_ok_cong:
  assumes "lru db' = lru db" "lruCells db' = lruCells db" "map fst (data db') = map fst (data db)"
    and "\<And>k. map_option lruPosition (map_of (data db') k) = map_option lruPosition (map_of (data db) k)"
  shows "lru_ok db' \<longleftrightarrow> lru_ok db"
proof -
  have "fst ` set (data db') = fst ` set (data db)"
    using arg_cong [OF assms(3), of set] by simp
  moreover have "(\<exists>e. map_of (data db') k = Some e \<and> lruPosition e = i) \<longleftrightarrow>
      (\<exists>e. map_of (data db) k = Some e \<and> lruPosition e = i)" for k i
    using assms(4) [of k] by (cases "map_of (data db') k"; cases "map_of (data db) k") auto
  then have "(\<forall>k e. map_of (data db') k = Some e \<longrightarrow> (lruPosition e, k) \<in> set (lru db)) \<longleftrightarrow>
      (\<forall>k e. map_of (data db) k = Some e \<longrightarrow> (lruPosition e, k) \<in> set (lru db))"
    by metis
  ultimately show ?thesis
    using assms(1,2) by (simp add: lru_ok_def)
qed

section \<open>The vector of volatile keys\<close>

lemma volatile_okD:
  assumes "volatile_ok db" "map_of (data db) k = Some e" "volatileIndex e = Some i"
  shows "i < length (volatileKeys db)" "volatileKeys db ! i = k" "0 < expiresAtMs e"
proof -
  have "volatile_entry_ok (volatileKeys db) k e"
    using assms(1,2) by (simp add: volatile_ok_def)
  then show "i < length (volatileKeys db)" "volatileKeys db ! i = k" "0 < expiresAtMs e"
    using assms(3) by (simp_all add: volatile_entry_ok_def)
qed

lemma volatile_ok_None:
  assumes "volatile_ok db" "map_of (data db) k = Some e"
  shows "volatileIndex e = None \<longleftrightarrow> expiresAtMs e = NO_EXPIRY"
proof -
  have "volatile_entry_ok (volatileKeys db) k e"
    using assms by (simp add: volatile_ok_def)
  then show ?thesis
    by (auto simp: volatile_entry_ok_def NO_EXPIRY_def split: option.splits)
qed

lemma volatile_ok_lookup:
  assumes "volatile_ok db" "i < length (volatileKeys db)"
  obtains e where "map_of (data db) (volatileKeys db ! i) = Some e" "volatileIndex e = Some i"
  using assms by (auto simp: volatile_ok_def)

lemma volatile_ok_distinct: "volatile_ok db \<Longrightarrow> distinct (volatileKeys db)"
  unfolding distinct_conv_nth by (metis volatile_ok_def option.inject)

text \<open>Swap-and-pop: the entry of the last key takes over the freed index.\<close>

lemma clearExpiry_frame [simp]:
  "lru (clearExpiry k db) = lru db" "lruCells (clearExpiry k db) = lruCells db"
  "memoryUsed (clearExpiry k db) = memoryUsed db" "memoryLimit (clearExpiry k db) = memoryLimit db"
  "policy (clearExpiry k db) = policy db" "clock (clearExpiry k db) = clock db"
  "readings (clearExpiry k db) = readings db" "random (clearExpiry k db) = random db"
  "draws (clearExpiry k db) = draws db" "statistics (clearExpiry k db) = statistics db"
  by (simp_all add: clearExpiry_def Let_def split: option.splits)

lemma clearExpiry_keys [simp]: "map fst (data (clearExpiry k db)) = map fst (data db)"
  by (simp add: clearExpiry_def Let_def split: option.splits)

lemma clearExpiry_volatileKeys:
  "volatileKeys (clearExpiry k db) =
     (case volatileIndex (entry_of k db) of
        None \<Rightarrow> volatileKeys db
      | Some i \<Rightarrow> butlast ((volatileKeys db)[i := last (volatileKeys db)]))"
  by (simp add: clearExpiry_def Let_def split: option.splits)

lemma clearExpiry_lookup:
  assumes "map_of (data db) k = Some e"
  shows "map_of (data (clearExpiry k db)) k' =
    (if k' = k then Some (e\<lparr>volatileIndex := None, expiresAtMs := NO_EXPIRY\<rparr>)
     else if volatileIndex e \<noteq> None \<and> k' = last (volatileKeys db)
     then map_option (\<lambda>e'. e'\<lparr>volatileIndex := volatileIndex e\<rparr>) (map_of (data db) k')
     else map_of (data db) k')"
  using assms
  by (cases "volatileIndex e"; cases "k = last (volatileKeys db)")
    (auto simp: clearExpiry_def Let_def modify_entry_lookup option.map_comp)

lemma clearExpiry_lookup_fields:
  assumes "map_of (data db) k = Some e"
  shows "map_option (\<lambda>e. (value e, memory e, lruPosition e)) (map_of (data (clearExpiry k db)) k') =
    map_option (\<lambda>e. (value e, memory e, lruPosition e)) (map_of (data db) k')"
  using assms by (auto simp: clearExpiry_lookup option.map_comp o_def)

lemma clearExpiry_volatile_ok:
  assumes ok: "volatile_ok db" and k: "map_of (data db) k = Some e"
  shows "volatile_ok (clearExpiry k db)"
proof (cases "volatileIndex e")
  case None
  have "clearExpiry k db = modify_entry k (\<lambda>e. e\<lparr>expiresAtMs := NO_EXPIRY\<rparr>) db"
    using k None by (simp add: clearExpiry_def)
  moreover have "e\<lparr>expiresAtMs := NO_EXPIRY\<rparr> = e"
    using volatile_ok_None [OF ok k] None by (simp del: Entry.surjective)
  ultimately have "data (clearExpiry k db) = data db" "volatileKeys (clearExpiry k db) = volatileKeys db"
    using k by (simp_all add: modify_entry_Some AList.update_triv)
  then show ?thesis using ok by (simp add: volatile_ok_def)
next
  case (Some i)
  let ?vk = "volatileKeys db" and ?final = "last (volatileKeys db)"
  let ?vk' = "butlast (?vk[i := ?final])"
  have i: "i < length ?vk" "?vk ! i = k" using volatile_okD [OF ok k Some] by auto
  then have ne: "?vk \<noteq> []" by auto
  let ?n = "length ?vk - 1"
  have final: "?final = ?vk ! ?n" using ne by (rule last_conv_nth)
  have vk': "volatileKeys (clearExpiry k db) = ?vk'"
    using k Some by (simp add: clearExpiry_volatileKeys)
  have len: "length ?vk' = ?n" by simp
  have nth: "?vk' ! j = (if j = i then ?final else ?vk ! j)" if "j < ?n" for j
    using that i by (simp add: nth_butlast)
  have inj: "?vk ! a = ?vk ! b \<longleftrightarrow> a = b" if "a < length ?vk" "b < length ?vk" for a b
    using volatile_ok_distinct [OF ok] that by (simp add: nth_eq_iff_index_eq)
  have n: "?n < length ?vk" using ne by (simp add: length_greater_0_conv)
  have lookup: "map_of (data (clearExpiry k db)) k' =
      (if k' = k then Some (e\<lparr>volatileIndex := None, expiresAtMs := NO_EXPIRY\<rparr>)
       else if k' = ?final then map_option (\<lambda>e'. e'\<lparr>volatileIndex := Some i\<rparr>) (map_of (data db) k')
       else map_of (data db) k')" for k'
    using clearExpiry_lookup [OF k] Some by simp
  have one: "volatile_entry_ok ?vk' k' e'"
    if e': "map_of (data (clearExpiry k db)) k' = Some e'" for k' e'
  proof (cases "k' = k")
    case True
    with e' show ?thesis by (auto simp: lookup volatile_entry_ok_def)
  next
    case False
    then obtain e0 where e0: "map_of (data db) k' = Some e0"
      and e'_eq: "e' = (if k' = ?final then e0\<lparr>volatileIndex := Some i\<rparr> else e0)"
      using e' lookup [of k'] by (auto split: if_splits)
    show ?thesis
    proof (cases "k' = ?final")
      case True
      obtain ef where "map_of (data db) ?final = Some ef" "volatileIndex ef = Some ?n"
        using volatile_ok_lookup [OF ok n] final by metis
      with True e0 have vi: "volatileIndex e0 = Some ?n" by simp
      have "i \<noteq> ?n" using True False final i(2) by auto
      then have "i < ?n" using i(1) by simp
      with True e'_eq nth [of i] volatile_okD(3) [OF ok e0 vi] show ?thesis
        by (simp add: volatile_entry_ok_def)
    next
      case False': False
      have "volatile_entry_ok ?vk k' e0" using ok e0 by (auto simp: volatile_ok_def)
      moreover have "j < ?n \<and> ?vk' ! j = k'" if j: "j < length ?vk" "?vk ! j = k'" for j
      proof -
        have "j \<noteq> ?n" using False' final j(2) by auto
        then have "j < ?n" using j(1) by simp
        moreover have "j \<noteq> i" using False i(2) j(2) by auto
        ultimately show ?thesis using nth [of j] j by simp
      qed
      ultimately show ?thesis
        using e'_eq False' len by (auto simp: volatile_entry_ok_def split: option.splits)
    qed
  qed
  have two: "\<exists>e. map_of (data (clearExpiry k db)) (?vk' ! j) = Some e \<and> volatileIndex e = Some j"
    if j: "j < length ?vk'" for j
  proof (cases "j = i")
    case True
    have "?final \<noteq> k" using i(2) final inj [of i ?n] True j len n by auto
    then show ?thesis
      using volatile_ok_lookup [OF ok n] nth [of j] j len True final lookup [of ?final] by force
  next
    case False
    have jn: "j < ?n" "j < length ?vk" using j len n by auto
    then have "?vk ! j \<noteq> ?final" "?vk ! j \<noteq> k"
      using inj [of j ?n] inj [of j i] n False final i by auto
    then show ?thesis
      using volatile_ok_lookup [OF ok jn(2)] nth [of j] jn False lookup [of "?vk ! j"] by force
  qed
  show ?thesis
    unfolding volatile_ok_def vk' using one two by blast
qed

section \<open>The helpers keep the structure\<close>

lemma clearExpiry_total_memory:
  assumes "keys_ok db"
  shows "total_memory (data (clearExpiry k db)) = total_memory (data db)"
  using assms
  by (simp add: clearExpiry_def Let_def modify_entry_total_memory keys_ok_def split: option.splits)

lemma map_option_lookup_fields:
  assumes "map_option f (map_of al k) = map_option f (map_of al' k)" "map_of al k = Some e"
  obtains e' where "map_of al' k = Some e'" "f e' = f e"
  using assms by (cases "map_of al' k") auto

lemma clearExpiry_struct:
  assumes st: "db_struct db" and k: "map_of (data db) k = Some e"
  shows "db_struct (clearExpiry k db)"
proof -
  note fields = clearExpiry_lookup_fields [OF k]
  have pre: "\<exists>e0. map_of (data db) k' = Some e0 \<and> value e0 = value e' \<and> memory e0 = memory e'"
    if "map_of (data (clearExpiry k db)) k' = Some e'" for k' e'
    using map_option_lookup_fields [OF fields that] by auto
  have "lru_ok (clearExpiry k db)"
  proof (subst lru_ok_cong [of _ db])
    show "map_option lruPosition (map_of (data (clearExpiry k db)) k') =
        map_option lruPosition (map_of (data db) k')" for k'
      using arg_cong [OF fields [of k'], of "map_option (snd \<circ> snd)"]
      by (simp add: option.map_comp o_def)
  qed (use st in \<open>simp_all add: db_struct_def\<close>)
  moreover have "volatile_ok (clearExpiry k db)"
    using st k by (auto simp: db_struct_def intro: clearExpiry_volatile_ok)
  moreover have "memory_ok (clearExpiry k db)"
    using st pre by (fastforce simp: db_struct_def memory_ok_def clearExpiry_total_memory)
  moreover have "all_values value_wf (clearExpiry k db)"
    using st pre by (fastforce simp: db_struct_def all_values_def)
  moreover have "keys_ok (clearExpiry k db)" "clock_ok (clearExpiry k db)"
    using st by (simp_all add: db_struct_def keys_ok_def clock_ok_def)
  ultimately show ?thesis by (simp add: db_struct_def)
qed

lemma setExpiry_frame [simp]:
  "lru (setExpiry k t db) = lru db" "lruCells (setExpiry k t db) = lruCells db"
  "memoryUsed (setExpiry k t db) = memoryUsed db" "memoryLimit (setExpiry k t db) = memoryLimit db"
  "policy (setExpiry k t db) = policy db" "clock (setExpiry k t db) = clock db"
  "readings (setExpiry k t db) = readings db" "random (setExpiry k t db) = random db"
  "draws (setExpiry k t db) = draws db" "statistics (setExpiry k t db) = statistics db"
  "map fst (data (setExpiry k t db)) = map fst (data db)"
  by (simp_all add: setExpiry_def Let_def)

lemma setExpiry_lookup:
  assumes "map_of (data db) k = Some e"
  shows "map_of (data (setExpiry k t db)) k' =
    (if k' = k then Some (e\<lparr>expiresAtMs := t,
       volatileIndex := (if volatileIndex e = None then Some (length (volatileKeys db)) else volatileIndex e)\<rparr>)
     else map_of (data db) k')"
  using assms by (auto simp: setExpiry_def Let_def modify_entry_lookup)

lemma setExpiry_volatileKeys:
  assumes "map_of (data db) k = Some e"
  shows "volatileKeys (setExpiry k t db) =
    (if volatileIndex e = None then volatileKeys db @ [k] else volatileKeys db)"
  using assms by (simp add: setExpiry_def Let_def)

lemma setExpiry_volatile_ok:
  assumes ok: "volatile_ok db" and k: "map_of (data db) k = Some e" and t: "0 < t"
  shows "volatile_ok (setExpiry k t db)"
proof (cases "volatileIndex e")
  case None
  have notin: "volatileKeys db ! i \<noteq> k" if i: "i < length (volatileKeys db)" for i
    using volatile_ok_lookup [OF ok i] k None by force
  have "volatile_entry_ok (volatileKeys db @ [k]) k' e'"
    if "map_of (data (setExpiry k t db)) k' = Some e'" for k' e'
  proof (cases "k' = k")
    case True
    with that None t show ?thesis by (auto simp: setExpiry_lookup [OF k] volatile_entry_ok_def)
  next
    case False
    with that have "map_of (data db) k' = Some e'" by (simp add: setExpiry_lookup [OF k])
    with ok have "volatile_entry_ok (volatileKeys db) k' e'" by (simp add: volatile_ok_def)
    then show ?thesis by (auto simp: volatile_entry_ok_def nth_append split: option.splits)
  qed
  moreover have "\<exists>e'. map_of (data (setExpiry k t db)) ((volatileKeys db @ [k]) ! i) = Some e' \<and>
      volatileIndex e' = Some i" if "i < Suc (length (volatileKeys db))" for i
  proof (cases "i = length (volatileKeys db)")
    case True
    with None show ?thesis by (simp add: setExpiry_lookup [OF k])
  next
    case False
    then have i: "i < length (volatileKeys db)" using that by simp
    with volatile_ok_lookup [OF ok i] notin [OF i] show ?thesis
      by (auto simp: setExpiry_lookup [OF k] nth_append)
  qed
  ultimately show ?thesis
    unfolding volatile_ok_def setExpiry_volatileKeys [OF k] using None by simp
next
  case (Some i)
  have "volatile_entry_ok (volatileKeys db) k' e'"
    if "map_of (data (setExpiry k t db)) k' = Some e'" for k' e'
    using that ok t volatile_okD [OF ok k Some] Some
    by (auto simp: setExpiry_lookup [OF k] volatile_entry_ok_def volatile_ok_def split: if_splits)
  moreover have "\<exists>e'. map_of (data (setExpiry k t db)) (volatileKeys db ! j) = Some e' \<and>
      volatileIndex e' = Some j" if j: "j < length (volatileKeys db)" for j
  proof -
    obtain e' where e': "map_of (data db) (volatileKeys db ! j) = Some e'" "volatileIndex e' = Some j"
      using volatile_ok_lookup [OF ok j] by blast
    then show ?thesis
      using k Some by (cases "volatileKeys db ! j = k") (simp_all add: setExpiry_lookup [OF k])
  qed
  ultimately show ?thesis
    unfolding volatile_ok_def setExpiry_volatileKeys [OF k] using Some by simp
qed

lemma setExpiry_struct:
  assumes st: "db_struct db" and k: "map_of (data db) k = Some e" and t: "0 < t"
  shows "db_struct (setExpiry k t db)"
proof -
  have "total_memory (data (setExpiry k t db)) = total_memory (data db)"
    using st by (simp add: setExpiry_def Let_def modify_entry_total_memory keys_ok_def db_struct_def)
  then have "memory_ok (setExpiry k t db)"
    using st k by (auto simp: db_struct_def memory_ok_def setExpiry_lookup)
  moreover have "lru_ok (setExpiry k t db)"
    by (subst lru_ok_cong [of _ db]) (use st k in \<open>auto simp: db_struct_def setExpiry_lookup\<close>)
  moreover have "all_values value_wf (setExpiry k t db)"
    using st k by (auto simp: db_struct_def all_values_def setExpiry_lookup)
  moreover have "keys_ok (setExpiry k t db)" "clock_ok (setExpiry k t db)"
    using st by (simp_all add: db_struct_def keys_ok_def clock_ok_def)
  ultimately show ?thesis
    using setExpiry_volatile_ok [OF _ k t] st by (simp add: db_struct_def)
qed

section \<open>Erasing, touching and creating entries\<close>

lemma erase_frame [simp]:
  "lruCells (erase k db) = lruCells db" "memoryLimit (erase k db) = memoryLimit db"
  "policy (erase k db) = policy db" "clock (erase k db) = clock db"
  "readings (erase k db) = readings db" "random (erase k db) = random db"
  "draws (erase k db) = draws db" "statistics (erase k db) = statistics db"
  by (simp_all add: erase_def Let_def)

lemma erase_data: "data (erase k db) = AList.delete k (data (clearExpiry k db))"
  by (simp add: erase_def Let_def)

lemma erase_lookup:
  "map_of (data (erase k db)) k' = (if k' = k then None else map_of (data (clearExpiry k db)) k')"
  by (simp add: erase_data)

lemma erase_lookup_fields:
  assumes "map_of (data db) k = Some e"
  shows "map_option (\<lambda>e. (value e, expiresAtMs e)) (map_of (data (erase k db)) k') =
    (if k' = k then None else map_option (\<lambda>e. (value e, expiresAtMs e)) (map_of (data db) k'))"
  using assms by (simp add: erase_lookup clearExpiry_lookup option.map_comp o_def)

lemma delete_volatile_ok:
  assumes ok: "volatile_ok db" and k: "map_of (data db) k = Some e" "volatileIndex e = None"
    and db': "volatileKeys db' = volatileKeys db" "data db' = AList.delete k (data db)"
  shows "volatile_ok db'"
proof -
  have "volatileKeys db ! i \<noteq> k" if "i < length (volatileKeys db)" for i
    using volatile_ok_lookup [OF ok that] k by force
  then show ?thesis
    using ok db' by (auto simp: volatile_ok_def)
qed

lemma delete_lru_ok:
  assumes ok: "lru_ok db" and k: "map_of (data db) k = Some e"
    and db': "lru db' = filter (\<lambda>cell. fst cell \<noteq> lruPosition e) (lru db)"
      "data db' = AList.delete k (data db)" "lruCells db' = lruCells db"
  shows "lru_ok db'"
proof -
  have d: "distinct (map fst (lru db))" "distinct (map snd (lru db))" "(lruPosition e, k) \<in> set (lru db)"
    using ok k by (auto simp: lru_ok_def)
  have set: "set (lru db') = set (lru db) - {(lruPosition e, k)}"
    using set_filter_fst_neq [OF d(1,3)] db'(1) by simp
  have "snd ` (set (lru db) - {(lruPosition e, k)}) = snd ` set (lru db) - {k}"
    using d(2,3) by (auto simp: distinct_map inj_on_def image_iff) force+
  then have "snd ` set (lru db') = fst ` set (data db')"
    using ok set db'(2) by (simp add: lru_ok_def)
  moreover have "distinct (map fst (lru db'))" "distinct (map snd (lru db'))"
    using d db'(1) by (simp_all add: map_filter_fst_distinct)
  ultimately show ?thesis
    using ok set db' by (auto simp: lru_ok_def)
qed

lemma erase_struct:
  assumes st: "db_struct db" and k: "map_of (data db) k = Some e"
  shows "db_struct (erase k db)"
proof -
  let ?c = "clearExpiry k db" and ?e = "e\<lparr>volatileIndex := None, expiresAtMs := NO_EXPIRY\<rparr>"
  have c: "db_struct ?c" using st k by (rule clearExpiry_struct)
  have kc: "map_of (data ?c) k = Some ?e" by (simp add: clearExpiry_lookup [OF k])
  have "erase k db = ?c\<lparr>lru := filter (\<lambda>cell. fst cell \<noteq> lruPosition ?e) (lru ?c),
      memoryUsed := memoryUsed ?c - memory ?e, data := AList.delete k (data ?c)\<rparr>"
    using kc by (simp add: erase_def Let_def entry_of_def)
  moreover have "total_memory (AList.delete k (data ?c)) = memoryUsed ?c - memory ?e"
    using c kc alist_sum_delete_present [OF kc, of "\<lambda>p. memory (snd p)"]
    by (simp add: db_struct_def keys_ok_def memory_ok_def)
  ultimately show ?thesis
    using c kc delete_volatile_ok [of ?c k ?e] delete_lru_ok [of ?c k ?e]
    by (simp add: db_struct_def keys_ok_def memory_ok_def all_values_def clock_ok_def)
qed

lemma erase_length_lru:
  assumes "db_struct db" "map_of (data db) k = Some e"
  shows "length (lru (erase k db)) < length (lru db)"
proof -
  have "(lruPosition e, k) \<in> set (lru db)"
    using assms by (auto simp: db_struct_def lru_ok_def)
  then show ?thesis
    using assms by (auto simp: erase_def Let_def entry_of_def clearExpiry_lookup intro!: length_filter_less)
qed

lemma erase_lru_keys:
  assumes "db_struct db" "map_of (data db) k = Some e"
  shows "map snd (lru (erase k db)) = filter (\<lambda>x. x \<noteq> k) (map snd (lru db))"
proof -
  have "(lruPosition e, k) \<in> set (lru db)" "distinct (map fst (lru db))" "distinct (map snd (lru db))"
    using assms by (auto simp: db_struct_def lru_ok_def)
  with map_snd_filter_fst_neq [of "lru db" "lruPosition e" k] show ?thesis
    using assms by (simp add: erase_def Let_def entry_of_def clearExpiry_lookup)
qed

lemma touch_frame [simp]:
  "data (touch k db) = data db" "lruCells (touch k db) = lruCells db"
  "volatileKeys (touch k db) = volatileKeys db" "memoryUsed (touch k db) = memoryUsed db"
  "memoryLimit (touch k db) = memoryLimit db" "policy (touch k db) = policy db"
  "clock (touch k db) = clock db" "readings (touch k db) = readings db"
  "random (touch k db) = random db" "draws (touch k db) = draws db"
  "statistics (touch k db) = statistics db"
  by (simp_all add: touch_def Let_def)

lemma touch_lru:
  assumes "db_struct db" "map_of (data db) k = Some e"
  shows "lru (touch k db) = (lruPosition e, k) # filter (\<lambda>cell. fst cell \<noteq> lruPosition e) (lru db)"
proof -
  have "(lruPosition e, k) \<in> set (lru db)" "distinct (map fst (lru db))"
    using assms by (auto simp: db_struct_def lru_ok_def)
  with distinct_filter_fst_unique [of "lru db" "lruPosition e" k] show ?thesis
    using assms(2) by (simp add: touch_def Let_def)
qed

lemma touch_struct:
  assumes st: "db_struct db" and k: "map_of (data db) k = Some e"
  shows "db_struct (touch k db)"
proof -
  have l: "(lruPosition e, k) \<in> set (lru db)" "distinct (map fst (lru db))" "distinct (map snd (lru db))"
    using st k by (auto simp: db_struct_def lru_ok_def)
  have set: "set (lru (touch k db)) = set (lru db)"
    using l touch_lru [OF st k] set_filter_fst_neq [OF l(2,1)] by auto
  have "mset (lru (touch k db)) = mset (lru db)"
    by (simp add: touch_def Let_def mset_filter multiset_partition)
  then have "distinct (map fst (lru (touch k db)))" "distinct (map snd (lru (touch k db)))"
    using l(2,3) by (metis mset_map mset_eq_imp_distinct_iff)+
  then have "lru_ok (touch k db)"
    using st set by (auto simp: db_struct_def lru_ok_def)
  then show ?thesis by (intro db_struct_frame [OF st]) simp_all
qed

lemma touch_keys:
  assumes "db_struct db" "map_of (data db) k = Some e"
  shows "keysByRecency (touch k db) = k # filter (\<lambda>x. x \<noteq> k) (keysByRecency db)"
proof -
  have "(lruPosition e, k) \<in> set (lru db)" "distinct (map fst (lru db))" "distinct (map snd (lru db))"
    using assms by (auto simp: db_struct_def lru_ok_def)
  with map_snd_filter_fst_neq [of "lru db" "lruPosition e" k] show ?thesis
    by (simp add: keysByRecency_def touch_lru [OF assms])
qed

lemma create_frame [simp]:
  "volatileKeys (create k v db) = volatileKeys db" "memoryLimit (create k v db) = memoryLimit db"
  "policy (create k v db) = policy db" "clock (create k v db) = clock db"
  "readings (create k v db) = readings db" "random (create k v db) = random db"
  "draws (create k v db) = draws db" "statistics (create k v db) = statistics db"
  by (simp_all add: create_def Let_def)

definition fresh_entry :: "bytes \<Rightarrow> Value \<Rightarrow> nat \<Rightarrow> Entry" where
  "fresh_entry k v cell = \<lparr>value = v, expiresAtMs = NO_EXPIRY, memory = entry_cost k v,
     lruPosition = cell, volatileIndex = None\<rparr>"

lemma fresh_entry_sels [simp]:
  "value (fresh_entry k v c) = v" "expiresAtMs (fresh_entry k v c) = NO_EXPIRY"
  "memory (fresh_entry k v c) = entry_cost k v" "lruPosition (fresh_entry k v c) = c"
  "volatileIndex (fresh_entry k v c) = None"
  by (simp_all add: fresh_entry_def)

lemma create_eq:
  "create k v db = db\<lparr>data := AList.update k (fresh_entry k v (lruCells db)) (data db),
     lru := (lruCells db, k) # lru db, lruCells := Suc (lruCells db),
     memoryUsed := memoryUsed db + entry_cost k v\<rparr>"
  by (simp add: create_def fresh_entry_def entry_cost_def Let_def)

lemma create_lookup:
  "map_of (data (create k v db)) k' =
     (if k' = k then Some (fresh_entry k v (lruCells db)) else map_of (data db) k')"
  by (simp add: create_eq)

lemma create_struct:
  assumes st: "db_struct db" and k: "map_of (data db) k = None" and v: "value_wf v"
  shows "db_struct (create k v db)"
proof -
  have knew: "k \<notin> fst ` set (data db)" using k by (simp add: map_of_None_fst)
  have "lru_ok (create k v db)"
    using st knew by (force simp: db_struct_def lru_ok_def create_eq)
  moreover have "volatile_ok (create k v db)"
  proof -
    have "volatileKeys db ! i \<noteq> k" if "i < length (volatileKeys db)" for i
      using volatile_ok_lookup [OF db_structD(3) [OF st] that] k by force
    then show ?thesis
      using st by (auto simp: db_struct_def volatile_ok_def create_eq volatile_entry_ok_def [of _ k])
  qed
  moreover have "memory_ok (create k v db)"
    using st k by (auto simp: db_struct_def memory_ok_def create_eq alist_sum_update_absent)
  moreover have "all_values value_wf (create k v db)"
    using st v by (auto simp: db_struct_def all_values_def create_eq)
  ultimately show ?thesis
    using st by (simp add: db_struct_def keys_ok_def clock_ok_def create_eq)
qed

end
