(* ===== verification/FKV_Database_Abs.thy ===== *)
theory FKV_Database_Abs
  imports FKV_Database_Inv
begin

text \<open>
  The abstract keyspace: what a client can observe of the storage engine. A key maps to a
  value (a string, a list, a finite map, a set) and an optional deadline; the LRU list, the
  vector of volatile keys, the memory accounting and the counters are gone. The internal
  helpers of the class are described by their effect on it, which is what the refinement of
  the public operations builds on.
\<close>

section \<open>The abstract keyspace\<close>

datatype aval = AString bytes | AList "bytes list" | AHash "bytes \<rightharpoonup> bytes" | ASet "bytes set"

type_synonym astore = "bytes \<rightharpoonup> aval \<times> int option"

fun aval_of :: "Value \<Rightarrow> aval" where
  "aval_of (StringValue s) = AString s"
| "aval_of (ListValue l) = AList l"
| "aval_of (HashValue h) = AHash (map_of h)"
| "aval_of (SetValue s) = ASet (set s)"

definition deadline_of :: "int \<Rightarrow> int option" where
  "deadline_of t = (if t = NO_EXPIRY then None else Some t)"

definition abs_entry :: "Entry \<Rightarrow> aval \<times> int option" where
  "abs_entry e = (aval_of (value e), deadline_of (expiresAtMs e))"

definition abs_db :: "Database \<Rightarrow> astore" where
  "abs_db db = (\<lambda>k. map_option abs_entry (map_of (data db) k))"

text \<open>A key whose deadline has come is gone on access.\<close>

definition expired_at :: "int \<Rightarrow> aval \<times> int option \<Rightarrow> bool" where
  "expired_at t x = (case snd x of None \<Rightarrow> False | Some d \<Rightarrow> d \<le> t)"

definition purge :: "int \<Rightarrow> bytes \<Rightarrow> astore \<Rightarrow> astore" where
  "purge t k m = (case m k of Some x \<Rightarrow> if expired_at t x then m(k := None) else m | None \<Rightarrow> m)"

abbreviation time_now :: "Database \<Rightarrow> int" where
  "time_now db \<equiv> clock db (readings db)"

lemma abs_db_apply: "abs_db db k = map_option abs_entry (map_of (data db) k)"
  by (simp add: abs_db_def)

lemma abs_db_Some: "map_of (data db) k = Some e \<Longrightarrow> abs_db db k = Some (abs_entry e)"
  by (simp add: abs_db_def)

lemma abs_db_None: "abs_db db k = None \<longleftrightarrow> map_of (data db) k = None"
  by (simp add: abs_db_def)

lemma abs_db_cong: "data db' = data db \<Longrightarrow> abs_db db' = abs_db db"
  by (simp add: abs_db_def)

lemma purge_other [simp]: "k' \<noteq> k \<Longrightarrow> purge t k m k' = m k'"
  by (auto simp: purge_def split: option.splits)

section \<open>The helpers on the abstract keyspace\<close>

lemma abs_erase:
  assumes "map_of (data db) k = Some e"
  shows "abs_db (erase k db) = (abs_db db)(k := None)"
proof
  fix k'
  have "map_option (map_prod aval_of deadline_of) (map_option (\<lambda>e. (value e, expiresAtMs e)) x) =
      map_option abs_entry x" for x
    by (cases x) (simp_all add: abs_entry_def)
  then show "abs_db (erase k db) k' = ((abs_db db)(k := None)) k'"
    using arg_cong [OF erase_lookup_fields [OF assms, of k'], of "map_option (map_prod aval_of deadline_of)"]
    by (auto simp: abs_db_def)
qed

lemma abs_touch [simp]: "abs_db (touch k db) = abs_db db"
  by (rule abs_db_cong) simp

lemma abs_create: "abs_db (create k v db) = (abs_db db)(k \<mapsto> (aval_of v, None))"
  by (auto simp: abs_db_def create_lookup abs_entry_def deadline_of_def)

lemma abs_clearExpiry:
  assumes "map_of (data db) k = Some e"
  shows "abs_db (clearExpiry k db) = (abs_db db)(k \<mapsto> (aval_of (value e), None))"
proof
  fix k'
  have "map_option abs_entry (map_option (\<lambda>e'. e'\<lparr>volatileIndex := i\<rparr>) x) = map_option abs_entry x" for i x
    by (cases x) (simp_all add: abs_entry_def)
  then show "abs_db (clearExpiry k db) k' = ((abs_db db)(k \<mapsto> (aval_of (value e), None))) k'"
    using assms by (simp add: abs_db_def clearExpiry_lookup abs_entry_def [of "e\<lparr>volatileIndex := _, expiresAtMs := _\<rparr>"] deadline_of_def)
qed

lemma abs_setExpiry:
  assumes "map_of (data db) k = Some e" "0 < t"
  shows "abs_db (setExpiry k t db) = (abs_db db)(k \<mapsto> (aval_of (value e), Some t))"
  using assms
  by (auto simp: abs_db_def fun_eq_iff setExpiry_lookup abs_entry_def deadline_of_def NO_EXPIRY_def)

section \<open>Writing a value with its memory account\<close>

text \<open>
  The operations change a value and book the difference in two steps. Together these are one
  write of the value with the entry's account recomputed, \<open>put_value\<close>.
\<close>

definition put_value :: "bytes \<Rightarrow> Value \<Rightarrow> Database \<Rightarrow> Database" where
  "put_value k v db =
     (case map_of (data db) k of
        None \<Rightarrow> db
      | Some e \<Rightarrow> db\<lparr>data := AList.update k (e\<lparr>value := v, memory := entry_cost k v\<rparr>) (data db),
                      memoryUsed := memoryUsed db - memory e + entry_cost k v\<rparr>)"

lemma put_value_frame [simp]:
  "lru (put_value k v db) = lru db" "lruCells (put_value k v db) = lruCells db"
  "volatileKeys (put_value k v db) = volatileKeys db" "memoryLimit (put_value k v db) = memoryLimit db"
  "policy (put_value k v db) = policy db" "clock (put_value k v db) = clock db"
  "readings (put_value k v db) = readings db" "random (put_value k v db) = random db"
  "draws (put_value k v db) = draws db" "statistics (put_value k v db) = statistics db"
  by (simp_all add: put_value_def split: option.splits)

lemma put_value_lookup:
  assumes "map_of (data db) k = Some e"
  shows "map_of (data (put_value k v db)) k' =
    (if k' = k then Some (e\<lparr>value := v, memory := entry_cost k v\<rparr>) else map_of (data db) k')"
  using assms by (simp add: put_value_def)

lemma put_value_keys [simp]: "map fst (data (put_value k v db)) = map fst (data db)"
  by (simp add: put_value_def map_fst_update_present split: option.splits)

lemma put_value_struct:
  assumes st: "db_struct db" and k: "map_of (data db) k = Some e" and v: "value_wf v"
  shows "db_struct (put_value k v db)"
proof -
  let ?db = "put_value k v db"
  have "lru_ok ?db"
    by (subst lru_ok_cong [of _ db]) (use st k in \<open>auto simp: db_struct_def put_value_lookup [OF k]\<close>)
  moreover have "volatile_ok ?db"
  proof -
    have "\<exists>e. map_of (data ?db) (volatileKeys db ! i) = Some e \<and> volatileIndex e = Some i"
      if "i < length (volatileKeys db)" for i
      by (rule volatile_ok_lookup [OF db_structD(3) [OF st] that], cases "volatileKeys db ! i = k")
        (use k in \<open>auto simp: put_value_lookup [OF k]\<close>)
    moreover have "volatile_entry_ok (volatileKeys db) k' e'"
      if "map_of (data ?db) k' = Some e'" for k' e'
    proof -
      have "volatile_entry_ok (volatileKeys db) k e"
        using db_structD(3) [OF st] k by (simp add: volatile_ok_def)
      then have "volatile_entry_ok (volatileKeys db) k (e\<lparr>value := v, memory := entry_cost k v\<rparr>)"
        by (simp add: volatile_entry_ok_def split: option.splits)
      with that db_structD(3) [OF st] show ?thesis
        by (auto simp: put_value_lookup [OF k] volatile_ok_def split: if_splits)
    qed
    ultimately show ?thesis by (simp add: volatile_ok_def)
  qed
  moreover have "memory_ok ?db"
    using db_structD(1,4) [OF st] k
    by (auto simp: memory_ok_def put_value_def alist_sum_update_present keys_ok_def)
  moreover have "all_values value_wf ?db"
    using db_structD(5) [OF st] v k by (auto simp: all_values_def put_value_lookup)
  ultimately show ?thesis
    using st by (simp add: db_struct_def keys_ok_def clock_ok_def)
qed

lemma put_value_same:
  assumes "db_struct db" "map_of (data db) k = Some e"
  shows "put_value k (value e) db = db"
proof -
  have "memory e = entry_cost k (value e)"
    using assms by (simp add: db_struct_def memory_ok_def)
  then have "e\<lparr>value := value e, memory := entry_cost k (value e)\<rparr> = e" by (metis Entry.surjective Entry.update_convs(1,3))
  with \<open>memory e = _\<close> assms(2) show ?thesis
    by (simp add: put_value_def AList.update_triv)
qed

lemma put_value_put_value [simp]: "put_value k w (put_value k v db) = put_value k w db"
  by (simp add: put_value_def split: option.splits)

lemma put_value_entry:
  "map_of (data db) k = Some e \<Longrightarrow> value (entry_of k (put_value k v db)) = v"
  by (simp add: entry_of_def put_value_lookup)

lemma abs_put_value:
  assumes "map_of (data db) k = Some e"
  shows "abs_db (put_value k v db) = (abs_db db)(k \<mapsto> (aval_of v, deadline_of (expiresAtMs e)))"
  using assms by (auto simp: abs_db_def fun_eq_iff put_value_lookup abs_entry_def)

text \<open>Booking steps of the code, in the orders it uses them.\<close>

lemma update_order:
  "e\<lparr>memory := m, value := v\<rparr> = e\<lparr>value := v, memory := m\<rparr>"
  "db\<lparr>memoryUsed := u, data := d\<rparr> = db\<lparr>data := d, memoryUsed := u\<rparr>"
  by (cases e; simp) (cases db; simp)

lemma addMemory_set_value:
  assumes st: "db_struct db" and k: "map_of (data db) k = Some e"
    and cost: "payloadMemory v = payloadMemory (value e) + c"
  shows "addMemory k c (set_value k v db) = put_value k v db"
proof -
  have "memory e = entry_cost k (value e)" using st k by (simp add: db_struct_def memory_ok_def)
  then have "memory e + c = entry_cost k v" using cost by (simp add: entry_cost_def)
  then have "memoryUsed db + c = memoryUsed db - memory e + entry_cost k v"
    by (simp add: algebra_simps)
  with \<open>memory e + c = _\<close> k show ?thesis
    by (simp add: addMemory_def set_value_def put_value_def modify_entry_def Let_def)
qed

lemma removeMemory_set_value:
  assumes st: "db_struct db" and k: "map_of (data db) k = Some e"
    and cost: "payloadMemory (value e) = payloadMemory v + c"
  shows "removeMemory k c (set_value k v db) = put_value k v db"
proof -
  have "memory e = entry_cost k (value e)" using st k by (simp add: db_struct_def memory_ok_def)
  then have m: "memory e - c = entry_cost k v" using cost by (simp add: entry_cost_def)
  then have "memoryUsed db - c = memoryUsed db - memory e + entry_cost k v"
    by (simp add: algebra_simps flip: m)
  with m k show ?thesis
    by (simp add: removeMemory_def set_value_def put_value_def modify_entry_def Let_def)
qed

lemma set_value_removeMemory:
  assumes st: "db_struct db" and k: "map_of (data db) k = Some e"
    and cost: "payloadMemory (value e) = payloadMemory v + c"
  shows "set_value k v (removeMemory k c db) = put_value k v db"
proof -
  have "set_value k v (removeMemory k c db) = removeMemory k c (set_value k v db)"
    using k by (simp add: removeMemory_def set_value_def modify_entry_def Let_def update_order)
  with removeMemory_set_value [OF assms] show ?thesis by simp
qed

text \<open>Replacing a part of the value: its old size is taken off first, the new one added last.\<close>

lemma replace_part:
  assumes st: "db_struct db" and k: "map_of (data db) k = Some e"
    and cost: "payloadMemory v + old = payloadMemory (value e) + new"
  shows "addMemory k new (set_value k v (removeMemory k old db)) = put_value k v db"
proof -
  have "memory e = entry_cost k (value e)" using st k by (simp add: db_struct_def memory_ok_def)
  then have m: "memory e - old + new = entry_cost k v"
    using cost by (simp add: entry_cost_def algebra_simps)
  then have "memoryUsed db - old + new = memoryUsed db - memory e + entry_cost k v"
    by (simp add: algebra_simps flip: m)
  with m k show ?thesis
    by (simp add: removeMemory_def addMemory_def set_value_def put_value_def modify_entry_def Let_def
        update_order)
qed

section \<open>Looking a key up\<close>

lemma count_stat_frame [simp]:
  "data (count_stat u n db) = data db" "lru (count_stat u n db) = lru db"
  "lruCells (count_stat u n db) = lruCells db" "volatileKeys (count_stat u n db) = volatileKeys db"
  "memoryUsed (count_stat u n db) = memoryUsed db" "memoryLimit (count_stat u n db) = memoryLimit db"
  "policy (count_stat u n db) = policy db" "clock (count_stat u n db) = clock db"
  "readings (count_stat u n db) = readings db" "random (count_stat u n db) = random db"
  "draws (count_stat u n db) = draws db"
  by (simp_all add: count_stat_def)

lemma abs_count_stat [simp]: "abs_db (count_stat u n db) = abs_db db"
  by (rule abs_db_cong) simp

lemma count_stat_inv [simp]: "db_struct (count_stat u n db) = db_struct db" "db_inv (count_stat u n db) = db_inv db"
  by (rule db_struct_same; simp)+

lemma readings_inv [simp]:
  "db_struct (db\<lparr>readings := n\<rparr>) = db_struct db" "db_inv (db\<lparr>readings := n\<rparr>) = db_inv db"
  by (rule db_struct_same; simp)+

lemma draws_inv [simp]:
  "db_struct (db\<lparr>draws := n\<rparr>) = db_struct db" "db_inv (db\<lparr>draws := n\<rparr>) = db_inv db"
  by (rule db_struct_same; simp)+

lemma abs_readings [simp]: "abs_db (db\<lparr>readings := n\<rparr>) = abs_db db" "abs_db (db\<lparr>draws := n\<rparr>) = abs_db db"
  by (simp_all add: abs_db_def)

lemma entry_of_readings [simp]:
  "entry_of k (db\<lparr>readings := n\<rparr>) = entry_of k db" "entry_of k (db\<lparr>draws := n\<rparr>) = entry_of k db"
  by (simp_all add: entry_of_def)

lemma nonempty_erase:
  assumes "all_values value_nonempty db" "map_of (data db) k = Some e"
  shows "all_values value_nonempty (erase k db)"
  unfolding all_values_def
proof (intro allI impI)
  fix k' e' assume "map_of (data (erase k db)) k' = Some e'"
  then obtain e0 where "map_of (data db) k' = Some e0" "value e0 = value e'"
    using erase_lookup_fields [OF assms(2), of k']
    by (cases "k' = k"; cases "map_of (data db) k'") auto
  then show "value_nonempty (value e')"
    using assms(1) unfolding all_values_def by metis
qed

lemma erase_inv:
  assumes "db_inv db" "map_of (data db) k = Some e"
  shows "db_inv (erase k db)"
  using assms erase_struct nonempty_erase by (simp add: db_inv_def)

text \<open>The two outcomes of \<open>findLive\<close>, which every operation starts with.\<close>

lemma findLive_cases:
  assumes "db_inv db"
  obtains
    (missing) db1 where "findLive k db = (None, db1)" "db_inv db1" "map_of (data db1) k = None"
      "abs_db db1 = purge (time_now db) k (abs_db db)" "purge (time_now db) k (abs_db db) k = None"
      "clock db1 = clock db"
  | (live) db1 e where "findLive k db = (Some k, db1)" "db_inv db1" "map_of (data db1) k = Some e"
      "map_of (data db) k = Some e" "abs_db db1 = purge (time_now db) k (abs_db db)"
      "purge (time_now db) k (abs_db db) k = Some (abs_entry e)" "clock db1 = clock db"
proof (cases "map_of (data db) k")
  case None
  then have "purge (time_now db) k (abs_db db) = abs_db db" "abs_db db k = None"
    by (simp_all add: purge_def abs_db_def)
  with None assms show ?thesis by (intro missing) (auto simp: findLive_def)
next
  case (Some e)
  then have abs: "abs_db db k = Some (abs_entry e)" by (rule abs_db_Some)
  show ?thesis
  proof (cases "expiresAtMs e \<noteq> NO_EXPIRY \<and> expiresAtMs e \<le> time_now db")
    case True
    let ?db1 = "count_stat expiredKeys_update 1 (erase k (db\<lparr>readings := Suc (readings db)\<rparr>))"
    have k': "map_of (data (db\<lparr>readings := Suc (readings db)\<rparr>)) k = Some e" using Some by simp
    have p: "purge (time_now db) k (abs_db db) = (abs_db db)(k := None)"
      using True abs by (simp add: purge_def expired_at_def abs_entry_def deadline_of_def)
    have "db_inv ?db1" using assms erase_inv [OF _ k'] by simp
    then show ?thesis
      using True Some p abs_erase [OF k']
      by (intro missing [of ?db1]) (simp_all add: findLive_def now_def erase_lookup)
  next
    case False
    have p: "purge (time_now db) k (abs_db db) = abs_db db"
      using False abs by (auto simp: purge_def expired_at_def abs_entry_def deadline_of_def)
    let ?db1 = "if expiresAtMs e \<noteq> NO_EXPIRY then db\<lparr>readings := Suc (readings db)\<rparr> else db"
    show ?thesis
      using False Some p abs assms
      by (intro live [of ?db1 e]) (auto simp: findLive_def now_def)
  qed
qed

end
