(* ===== verification/FKV_Database_Ops.thy ===== *)
theory FKV_Database_Ops
  imports FKV_Database_Abs
begin

text \<open>
  The specification of the public operations over the abstract keyspace, one \<open>spec_\<close> function
  per operation, and for each operation that the code keeps the invariant, returns what the
  specification returns and leaves the keyspace the specification leaves. The time argument of
  a specification is the reading the code takes when it looks the key up.
\<close>

section \<open>Specification\<close>

fun atype :: "aval \<Rightarrow> ValueType" where
  "atype (AString _) = String"
| "atype (AList _) = List"
| "atype (AHash _) = Hash"
| "atype (ASet _) = Set"

fun as_string :: "aval \<Rightarrow> exn + bytes" where
  "as_string (AString s) = Inr s"
| "as_string _ = Inl WrongTypeError"

fun as_list :: "aval \<Rightarrow> exn + bytes list" where
  "as_list (AList l) = Inr l"
| "as_list _ = Inl WrongTypeError"

fun as_hash :: "aval \<Rightarrow> exn + (bytes \<rightharpoonup> bytes)" where
  "as_hash (AHash h) = Inr h"
| "as_hash _ = Inl WrongTypeError"

fun as_set :: "aval \<Rightarrow> exn + bytes set" where
  "as_set (ASet s) = Inr s"
| "as_set _ = Inl WrongTypeError"

text \<open>A read of a typed value: a default when the key is missing, an error on another type.\<close>

definition spec_read :: "(aval \<Rightarrow> exn + 'v) \<Rightarrow> 'r \<Rightarrow> ('v \<Rightarrow> 'r) \<Rightarrow> int \<Rightarrow> bytes \<Rightarrow> astore \<Rightarrow> (exn + 'r) \<times> astore" where
  "spec_read as dflt f t k m =
     (let m1 = purge t k m in
      case m1 k of
        None \<Rightarrow> (Inr dflt, m1)
      | Some (v, _) \<Rightarrow> (map_sum id f (as v), m1))"

text \<open>An update of a typed value, creating it (with no deadline) when the key is missing.\<close>

definition spec_upsert :: "(aval \<Rightarrow> exn + 'v) \<Rightarrow> aval \<Rightarrow> ('v \<Rightarrow> aval \<times> 'r) \<Rightarrow> int \<Rightarrow> bytes \<Rightarrow> astore \<Rightarrow> (exn + 'r) \<times> astore" where
  "spec_upsert as initial f t k m =
     (let m1 = purge t k m;
          (v, d) = (case m1 k of None \<Rightarrow> (initial, None) | Some x \<Rightarrow> x)
      in case as v of
           Inl e \<Rightarrow> (Inl e, m1)
         | Inr x \<Rightarrow> (Inr (snd (f x)), m1(k \<mapsto> (fst (f x), d))))"

text \<open>An update of a typed value that removes the key when nothing is left.\<close>

definition spec_shrink :: "(aval \<Rightarrow> exn + 'v) \<Rightarrow> 'r \<Rightarrow> ('v \<Rightarrow> aval option \<times> 'r) \<Rightarrow> int \<Rightarrow> bytes \<Rightarrow> astore \<Rightarrow> (exn + 'r) \<times> astore" where
  "spec_shrink as dflt f t k m =
     (let m1 = purge t k m in
      case m1 k of
        None \<Rightarrow> (Inr dflt, m1)
      | Some (v, d) \<Rightarrow>
          (case as v of
             Inl e \<Rightarrow> (Inl e, m1)
           | Inr x \<Rightarrow>
               (Inr (snd (f x)),
                m1(k := (case fst (f x) of None \<Rightarrow> None | Some v' \<Rightarrow> Some (v', d))))))"

definition spec_del :: "int \<Rightarrow> bytes \<Rightarrow> astore \<Rightarrow> bool \<times> astore" where
  "spec_del t k m = (let m1 = purge t k m in (m1 k \<noteq> None, m1(k := None)))"

definition spec_exists :: "int \<Rightarrow> bytes \<Rightarrow> astore \<Rightarrow> bool \<times> astore" where
  "spec_exists t k m = (let m1 = purge t k m in (m1 k \<noteq> None, m1))"

definition spec_type :: "int \<Rightarrow> bytes \<Rightarrow> astore \<Rightarrow> ValueType option \<times> astore" where
  "spec_type t k m = (let m1 = purge t k m in (map_option (atype \<circ> fst) (m1 k), m1))"

definition spec_keys :: "int \<Rightarrow> bytes \<Rightarrow> astore \<Rightarrow> bytes set" where
  "spec_keys t pattern m = {k. \<exists>x. m k = Some x \<and> \<not> expired_at t x \<and> glob_spec pattern k}"

definition spec_set :: "bytes \<Rightarrow> bytes \<Rightarrow> astore \<Rightarrow> astore" where
  "spec_set k v m = m(k \<mapsto> (AString v, None))"

definition spec_get :: "int \<Rightarrow> bytes \<Rightarrow> astore \<Rightarrow> (exn + bytes option) \<times> astore" where
  "spec_get = spec_read as_string None Some"

definition spec_append :: "bytes \<Rightarrow> int \<Rightarrow> bytes \<Rightarrow> astore \<Rightarrow> (exn + nat) \<times> astore" where
  "spec_append v = spec_upsert as_string (AString []) (\<lambda>s. (AString (s @ v), length s + length v))"

definition spec_incr :: "int \<Rightarrow> int \<Rightarrow> bytes \<Rightarrow> astore \<Rightarrow> (exn + int) \<times> astore" where
  "spec_incr delta t k m =
     (let m1 = purge t k m;
          (v, d) = (case m1 k of None \<Rightarrow> (AString ''0'', None) | Some x \<Rightarrow> x);
          m2 = m1(k \<mapsto> (v, d))
      in case as_string v of
           Inl e \<Rightarrow> (Inl e, m2)
         | Inr s \<Rightarrow>
             (case parseStrictInteger s of
                None \<Rightarrow> (Inl NotIntegerError, m2)
              | Some n \<Rightarrow>
                  if in_llong (n + delta)
                  then (Inr (n + delta), m2(k \<mapsto> (AString (to_string (n + delta)), d)))
                  else (Inl OverflowError, m2)))"

definition spec_strlen :: "int \<Rightarrow> bytes \<Rightarrow> astore \<Rightarrow> (exn + nat) \<times> astore" where
  "spec_strlen = spec_read as_string 0 length"

definition spec_push :: "bytes list \<Rightarrow> ListSide \<Rightarrow> int \<Rightarrow> bytes \<Rightarrow> astore \<Rightarrow> (exn + nat) \<times> astore" where
  "spec_push vs side = spec_upsert as_list (AList [])
     (\<lambda>l. let l' = (if side = Left then rev vs @ l else l @ vs) in (AList l', length l'))"

definition spec_pop :: "ListSide \<Rightarrow> int \<Rightarrow> bytes \<Rightarrow> astore \<Rightarrow> (exn + bytes option) \<times> astore" where
  "spec_pop side = spec_shrink as_list None
     (\<lambda>l. let l' = (if side = Left then tl l else butlast l)
          in (if l' = [] then None else Some (AList l'), Some (if side = Left then hd l else last l)))"

definition list_slice :: "int \<Rightarrow> int \<Rightarrow> bytes list \<Rightarrow> bytes list" where
  "list_slice start stop l =
     (let norm = (\<lambda>i. if i < 0 then i + int (length l) else i)
      in map (nth l) (filter (\<lambda>i. norm start \<le> int i \<and> int i \<le> norm stop) [0..<length l]))"

definition spec_range :: "int \<Rightarrow> int \<Rightarrow> int \<Rightarrow> bytes \<Rightarrow> astore \<Rightarrow> (exn + bytes list) \<times> astore" where
  "spec_range start stop = spec_read as_list [] (list_slice start stop)"

definition list_at :: "int \<Rightarrow> bytes list \<Rightarrow> bytes option" where
  "list_at index l =
     (let i = (if index < 0 then index + int (length l) else index)
      in if 0 \<le> i \<and> i < int (length l) then Some (l ! nat i) else None)"

definition spec_index :: "int \<Rightarrow> int \<Rightarrow> bytes \<Rightarrow> astore \<Rightarrow> (exn + bytes option) \<times> astore" where
  "spec_index index = spec_read as_list None (list_at index)"

definition spec_llen :: "int \<Rightarrow> bytes \<Rightarrow> astore \<Rightarrow> (exn + nat) \<times> astore" where
  "spec_llen = spec_read as_list 0 length"

definition spec_hset :: "(bytes \<times> bytes) list \<Rightarrow> int \<Rightarrow> bytes \<Rightarrow> astore \<Rightarrow> (exn + nat) \<times> astore" where
  "spec_hset fs = spec_upsert as_hash (AHash Map.empty)
     (\<lambda>h. (AHash (h ++ map_of (rev fs)), card (fst ` set fs - dom h)))"

definition spec_hget :: "bytes \<Rightarrow> int \<Rightarrow> bytes \<Rightarrow> astore \<Rightarrow> (exn + bytes option) \<times> astore" where
  "spec_hget f = spec_read as_hash None (\<lambda>h. h f)"

definition spec_hdel :: "bytes list \<Rightarrow> int \<Rightarrow> bytes \<Rightarrow> astore \<Rightarrow> (exn + nat) \<times> astore" where
  "spec_hdel fs = spec_shrink as_hash 0
     (\<lambda>h. let h' = h |` (- set fs)
          in (if h' = Map.empty then None else Some (AHash h'), card (set fs \<inter> dom h)))"

definition spec_hgetall :: "int \<Rightarrow> bytes \<Rightarrow> astore \<Rightarrow> (exn + (bytes \<times> bytes) list) \<times> astore" where
  "spec_hgetall = spec_read as_hash [] (\<lambda>h. sorted_list_of_set {(f, v). h f = Some v})"

definition spec_hlen :: "int \<Rightarrow> bytes \<Rightarrow> astore \<Rightarrow> (exn + nat) \<times> astore" where
  "spec_hlen = spec_read as_hash 0 (\<lambda>h. card (dom h))"

definition spec_hexists :: "bytes \<Rightarrow> int \<Rightarrow> bytes \<Rightarrow> astore \<Rightarrow> (exn + bool) \<times> astore" where
  "spec_hexists f = spec_read as_hash False (\<lambda>h. f \<in> dom h)"

definition spec_sadd :: "bytes list \<Rightarrow> int \<Rightarrow> bytes \<Rightarrow> astore \<Rightarrow> (exn + nat) \<times> astore" where
  "spec_sadd ms = spec_upsert as_set (ASet {}) (\<lambda>s. (ASet (s \<union> set ms), card (set ms - s)))"

definition spec_srem :: "bytes list \<Rightarrow> int \<Rightarrow> bytes \<Rightarrow> astore \<Rightarrow> (exn + nat) \<times> astore" where
  "spec_srem ms = spec_shrink as_set 0
     (\<lambda>s. (if s - set ms = {} then None else Some (ASet (s - set ms)), card (s \<inter> set ms)))"

definition spec_smembers :: "int \<Rightarrow> bytes \<Rightarrow> astore \<Rightarrow> (exn + bytes list) \<times> astore" where
  "spec_smembers = spec_read as_set [] sorted_list_of_set"

definition spec_sismember :: "bytes \<Rightarrow> int \<Rightarrow> bytes \<Rightarrow> astore \<Rightarrow> (exn + bool) \<times> astore" where
  "spec_sismember x = spec_read as_set False (\<lambda>s. x \<in> s)"

definition spec_scard :: "int \<Rightarrow> bytes \<Rightarrow> astore \<Rightarrow> (exn + nat) \<times> astore" where
  "spec_scard = spec_read as_set 0 card"

section \<open>Tools\<close>

text \<open>What is proved of every operation: the invariant, the result and the keyspace after it.\<close>

definition refines :: "('r \<times> Database) \<Rightarrow> ('r \<times> astore) \<Rightarrow> bool" where
  "refines c a \<longleftrightarrow> db_inv (snd c) \<and> fst c = fst a \<and> abs_db (snd c) = snd a"

lemma touch_inv: "db_inv db \<Longrightarrow> map_of (data db) k = Some e \<Longrightarrow> db_inv (touch k db)"
  using touch_struct by (auto simp: db_inv_def all_values_def)

lemma put_value_inv:
  assumes "db_struct db" "map_of (data db) k = Some e" "value_wf v" "value_nonempty v"
    and "\<And>k' e'. k' \<noteq> k \<Longrightarrow> map_of (data db) k' = Some e' \<Longrightarrow> value_nonempty (value e')"
  shows "db_inv (put_value k v db)"
  using assms by (auto simp: db_inv_def put_value_struct all_values_def put_value_lookup)

lemma create_inv:
  assumes "db_inv db" "map_of (data db) k = None" "value_wf v" "value_nonempty v"
  shows "db_inv (create k v db)"
  using assms by (auto simp: db_inv_def create_struct all_values_def create_lookup)

lemma inv_nonempty: "db_inv db \<Longrightarrow> map_of (data db) k = Some e \<Longrightarrow> value_nonempty (value e)"
  by (simp add: db_inv_def all_values_def)

lemma inv_wf: "db_inv db \<Longrightarrow> map_of (data db) k = Some e \<Longrightarrow> value_wf (value e)"
  by (simp add: db_inv_def db_struct_def all_values_def)

lemma abs_entry_pair: "abs_entry e = (aval_of (value e), deadline_of (expiresAtMs e))"
  by (simp add: abs_entry_def)

lemma as_aval_of [simp]:
  "as_string (aval_of v) = (case v of StringValue s \<Rightarrow> Inr s | _ \<Rightarrow> Inl WrongTypeError)"
  "as_list (aval_of v) = (case v of ListValue l \<Rightarrow> Inr l | _ \<Rightarrow> Inl WrongTypeError)"
  "as_hash (aval_of v) = (case v of HashValue h \<Rightarrow> Inr (map_of h) | _ \<Rightarrow> Inl WrongTypeError)"
  "as_set (aval_of v) = (case v of SetValue s \<Rightarrow> Inr (set s) | _ \<Rightarrow> Inl WrongTypeError)"
  "atype (aval_of v) = valueType v"
  by (cases v; simp)+

lemmas valueAs_defs = valueAs_string_def valueAs_list_def valueAs_hash_def valueAs_set_def

section \<open>Keyspace\<close>

lemma db_del_refines:
  assumes inv: "db_inv db"
  shows "refines (db_del k db) (spec_del (time_now db) k (abs_db db))"
  by (rule findLive_cases [OF inv, of k])
    (auto simp: refines_def db_del_def spec_del_def Let_def erase_inv abs_erase)

lemma db_exists_refines:
  assumes inv: "db_inv db"
  shows "refines (db_exists k db) (spec_exists (time_now db) k (abs_db db))"
  by (rule findLive_cases [OF inv, of k]) (auto simp: refines_def db_exists_def spec_exists_def Let_def)

lemma db_type_refines:
  assumes inv: "db_inv db"
  shows "refines (db_type k db) (spec_type (time_now db) k (abs_db db))"
  by (rule findLive_cases [OF inv, of k])
    (auto simp: refines_def db_type_def spec_type_def Let_def abs_entry_pair)

section \<open>Strings\<close>

lemma db_set_refines:
  assumes inv: "db_inv db"
  shows "db_inv (db_set k v db) \<and> abs_db (db_set k v db) = spec_set k v (abs_db db)"
proof (rule findLive_cases [OF inv, of k])
  fix db1 assume a: "findLive k db = (None, db1)" "db_inv db1" "map_of (data db1) k = None"
    "abs_db db1 = purge (time_now db) k (abs_db db)"
  then show ?thesis
    by (auto simp: db_set_def spec_set_def abs_create create_inv fun_eq_iff)
next
  fix db1 e assume a: "findLive k db = (Some k, db1)" "db_inv db1" "map_of (data db1) k = Some e"
    "abs_db db1 = purge (time_now db) k (abs_db db)"
  have "map_of (data (erase k db1)) k = None" by (simp add: erase_lookup)
  with a show ?thesis
    by (auto simp: db_set_def spec_set_def abs_create abs_erase create_inv erase_inv fun_eq_iff)
qed

lemma db_get_refines:
  assumes inv: "db_inv db"
  shows "refines (db_get k db) (spec_get (time_now db) k (abs_db db))"
proof (rule findLive_cases [OF inv, of k])
  fix db1 e assume a: "findLive k db = (Some k, db1)" "db_inv db1" "map_of (data db1) k = Some e"
    "abs_db db1 = purge (time_now db) k (abs_db db)"
    "purge (time_now db) k (abs_db db) k = Some (abs_entry e)"
  have "db_inv (touch k (count_stat keyspaceHits_update 1 db1))"
    using a(2,3) by (intro touch_inv [of _ _ e]) simp_all
  with a show ?thesis
    by (cases "value e")
      (simp_all add: refines_def db_get_def spec_get_def spec_read_def Let_def abs_entry_pair valueAs_defs)
qed (auto simp: refines_def db_get_def spec_get_def spec_read_def Let_def)

lemma stringLength_refines:
  assumes inv: "db_inv db"
  shows "refines (stringLength k db) (spec_strlen (time_now db) k (abs_db db))"
  by (rule findLive_cases [OF inv, of k])
    (auto simp: refines_def stringLength_def spec_strlen_def spec_read_def Let_def abs_entry_pair
      valueAs_defs split: Value.splits)

lemma db_append_refines:
  assumes inv: "db_inv db"
  shows "refines (db_append k v db) (spec_append v (time_now db) k (abs_db db))"
proof (rule findLive_cases [OF inv, of k])
  fix db1 assume "findLive k db = (None, db1)" "db_inv db1" "map_of (data db1) k = None"
    "abs_db db1 = purge (time_now db) k (abs_db db)" "purge (time_now db) k (abs_db db) k = None"
  then show ?thesis
    by (simp add: refines_def db_append_def spec_append_def spec_upsert_def Let_def abs_create create_inv)
next
  fix db1 e assume a: "findLive k db = (Some k, db1)" "db_inv db1" "map_of (data db1) k = Some e"
    "abs_db db1 = purge (time_now db) k (abs_db db)"
    "purge (time_now db) k (abs_db db) k = Some (abs_entry e)"
  show ?thesis
  proof (cases "value e")
    case (StringValue s)
    have put: "addMemory k (string_size v) (set_value k (StringValue (s @ v)) db1) =
        put_value k (StringValue (s @ v)) db1"
      using a(2,3) StringValue
      by (intro addMemory_set_value [of _ _ e]) (simp_all add: db_inv_def string_size_def)
    have "db_inv (put_value k (StringValue (s @ v)) db1)"
      using a(2,3) by (intro put_value_inv [of _ _ e]) (auto simp: db_inv_def all_values_def)
    then have "db_inv (touch k (put_value k (StringValue (s @ v)) db1))"
      using put_value_lookup [OF a(3)] by (intro touch_inv) simp_all
    with a put StringValue show ?thesis
      by (simp add: refines_def db_append_def spec_append_def spec_upsert_def Let_def abs_entry_pair
          valueAs_defs abs_put_value)
  qed (use a in \<open>simp_all add: refines_def db_append_def spec_append_def spec_upsert_def Let_def
          abs_entry_pair valueAs_defs\<close>)
qed

section \<open>Finding or creating an entry\<close>

definition find_or_create :: "bytes \<Rightarrow> Value \<Rightarrow> Database \<Rightarrow> Database" where
  "find_or_create k v0 db =
     (case findLive k db of (None, db1) \<Rightarrow> create k v0 db1 | (Some _, db1) \<Rightarrow> db1)"

lemma find_or_create_props:
  fixes k :: bytes
  assumes inv: "db_inv db" and v0: "value_wf v0"
  defines "m1 \<equiv> purge (time_now db) k (abs_db db)"
  obtains e where "map_of (data (find_or_create k v0 db)) k = Some e"
    "db_struct (find_or_create k v0 db)"
    "\<And>k' e'. k' \<noteq> k \<Longrightarrow> map_of (data (find_or_create k v0 db)) k' = Some e' \<Longrightarrow> value_nonempty (value e')"
    "abs_entry e = (case m1 k of None \<Rightarrow> (aval_of v0, None) | Some x \<Rightarrow> x)"
    "abs_db (find_or_create k v0 db) = m1(k \<mapsto> abs_entry e)"
    "m1 k = None \<Longrightarrow> value e = v0"
    "m1 k \<noteq> None \<or> value_nonempty v0 \<Longrightarrow> db_inv (find_or_create k v0 db)"
    "clock (find_or_create k v0 db) = clock db"
proof (rule findLive_cases [OF inv, of k])
  fix db1 assume a: "findLive k db = (None, db1)" "db_inv db1" "map_of (data db1) k = None"
    "abs_db db1 = purge (time_now db) k (abs_db db)" "purge (time_now db) k (abs_db db) k = None"
    "clock db1 = clock db"
  let ?e = "fresh_entry k v0 (lruCells db1)"
  have eq: "find_or_create k v0 db = create k v0 db1" using a(1) by (simp add: find_or_create_def)
  have "abs_entry ?e = (aval_of v0, None)" by (simp add: abs_entry_def deadline_of_def)
  then show thesis
    using a v0 create_struct [of db1 k v0] create_inv [of db1 k v0]
    by (intro that [of ?e]) (auto simp: eq m1_def create_lookup abs_create db_inv_def all_values_def)
next
  fix db1 e assume a: "findLive k db = (Some k, db1)" "db_inv db1" "map_of (data db1) k = Some e"
    "abs_db db1 = purge (time_now db) k (abs_db db)"
    "purge (time_now db) k (abs_db db) k = Some (abs_entry e)" "clock db1 = clock db"
  have eq: "find_or_create k v0 db = db1" using a(1) by (simp add: find_or_create_def)
  show thesis
    using a by (intro that [of e]) (auto simp: eq m1_def inv_nonempty db_inv_def [symmetric] db_invD)
qed

lemma put_touch_refines:
  assumes k: "map_of (data db2) k = Some e" and st: "db_struct db2"
    and others: "\<And>k' e'. k' \<noteq> k \<Longrightarrow> map_of (data db2) k' = Some e' \<Longrightarrow> value_nonempty (value e')"
    and v: "value_wf v" "value_nonempty v"
  shows "db_inv (touch k (put_value k v db2))"
    "abs_db (touch k (put_value k v db2)) = (abs_db db2)(k \<mapsto> (aval_of v, snd (abs_entry e)))"
proof -
  have "db_inv (put_value k v db2)"
    using st k v others by (rule put_value_inv)
  moreover have "map_of (data (put_value k v db2)) k = Some (e\<lparr>value := v, memory := entry_cost k v\<rparr>)"
    by (simp add: put_value_lookup [OF k])
  ultimately show "db_inv (touch k (put_value k v db2))" by (rule touch_inv)
  show "abs_db (touch k (put_value k v db2)) = (abs_db db2)(k \<mapsto> (aval_of v, snd (abs_entry e)))"
    by (simp add: abs_put_value [OF k] abs_entry_def)
qed

text \<open>An operation that finds or creates its entry and then rewrites the value.\<close>

lemma upsert_refines:
  assumes inv: "db_inv db" and v0: "value_wf v0" "as (aval_of v0) \<noteq> Inl WrongTypeError"
    and err: "\<And>v e. as v = Inl e \<Longrightarrow> e = WrongTypeError"
    and op_err: "\<And>e err. map_of (data (find_or_create k v0 db)) k = Some e \<Longrightarrow>
      as (aval_of (value e)) = Inl err \<Longrightarrow> c = (Inl err, find_or_create k v0 db)"
    and op_ok: "\<And>e x. map_of (data (find_or_create k v0 db)) k = Some e \<Longrightarrow>
      db_struct (find_or_create k v0 db) \<Longrightarrow> as (aval_of (value e)) = Inr x \<Longrightarrow>
      \<exists>v. value_wf v \<and> value_nonempty v \<and> aval_of v = fst (f x) \<and>
        c = (Inr (snd (f x)), touch k (put_value k v (find_or_create k v0 db)))"
  shows "refines c (spec_upsert as (aval_of v0) f (time_now db) k (abs_db db))"
proof (rule find_or_create_props [where k = k, OF inv v0(1)])
  let ?db2 = "find_or_create k v0 db" and ?m1 = "purge (time_now db) k (abs_db db)"
  fix e assume a: "map_of (data ?db2) k = Some e" "db_struct ?db2"
    "\<And>k' e'. k' \<noteq> k \<Longrightarrow> map_of (data ?db2) k' = Some e' \<Longrightarrow> value_nonempty (value e')"
    "abs_entry e = (case ?m1 k of None \<Rightarrow> (aval_of v0, None) | Some x \<Rightarrow> x)"
    "abs_db ?db2 = ?m1(k \<mapsto> abs_entry e)" "?m1 k = None \<Longrightarrow> value e = v0"
    "?m1 k \<noteq> None \<or> value_nonempty v0 \<Longrightarrow> db_inv ?db2"
  show ?thesis
  proof (cases "as (aval_of (value e))")
    case (Inl er)
    then have live: "?m1 k \<noteq> None" using a(6) v0(2) err by metis
    then have "?m1(k \<mapsto> abs_entry e) = ?m1" using a(4) by (auto simp: fun_eq_iff)
    with live a Inl op_err [OF a(1) Inl] show ?thesis
      by (auto simp: refines_def spec_upsert_def Let_def abs_entry_pair split: option.splits)
  next
    case (Inr x)
    obtain v where v: "value_wf v" "value_nonempty v" "aval_of v = fst (f x)"
      "c = (Inr (snd (f x)), touch k (put_value k v ?db2))"
      using op_ok [OF a(1,2) Inr] by blast
    have t: "db_inv (touch k (put_value k v ?db2))"
      "abs_db (touch k (put_value k v ?db2)) = (abs_db ?db2)(k \<mapsto> (aval_of v, snd (abs_entry e)))"
      using put_touch_refines [OF a(1,2) _ v(1,2)] a(3) by blast+
    with a(4,5) v(3,4) Inr show ?thesis
      by (auto simp: refines_def spec_upsert_def Let_def abs_entry_pair split: option.splits)
  qed
qed

lemma incrementBy_refines:
  assumes inv: "db_inv db"
  shows "refines (incrementBy k delta db) (spec_incr delta (time_now db) k (abs_db db))"
proof (rule find_or_create_props [where k = k and ?v0.0 = "StringValue ''0''", OF inv])
  let ?db2 = "find_or_create k (StringValue ''0'') db" and ?m1 = "purge (time_now db) k (abs_db db)"
  fix e assume a: "map_of (data ?db2) k = Some e" "db_struct ?db2"
    "\<And>k' e'. k' \<noteq> k \<Longrightarrow> map_of (data ?db2) k' = Some e' \<Longrightarrow> value_nonempty (value e')"
    "abs_entry e = (case ?m1 k of None \<Rightarrow> (aval_of (StringValue ''0''), None) | Some x \<Rightarrow> x)"
    "abs_db ?db2 = ?m1(k \<mapsto> abs_entry e)"
    "?m1 k \<noteq> None \<or> value_nonempty (StringValue ''0'') \<Longrightarrow> db_inv ?db2"
  have start: "incrementBy k delta db =
      (case valueAs_string k ?db2 of Inl e \<Rightarrow> (Inl e, ?db2) | Inr s \<Rightarrow>
        (case parseStrictInteger s of None \<Rightarrow> (Inl NotIntegerError, ?db2) | Some current \<Rightarrow>
          (case add_overflow current delta of None \<Rightarrow> (Inl OverflowError, ?db2) | Some r \<Rightarrow>
            (Inr r, touch k (addMemory k (string_size (to_string r))
              (set_value k (StringValue (to_string r)) (removeMemory k (string_size s) ?db2)))))))"
    unfolding incrementBy_def find_or_create_def Let_def by (simp split: prod.splits option.splits)
  have abs2: "spec_incr delta (time_now db) k (abs_db db) =
      (let (v, d) = abs_entry e; m2 = abs_db ?db2 in
       case as_string v of Inl e \<Rightarrow> (Inl e, m2) | Inr s \<Rightarrow>
         (case parseStrictInteger s of None \<Rightarrow> (Inl NotIntegerError, m2) | Some n \<Rightarrow>
            if in_llong (n + delta)
            then (Inr (n + delta), m2(k \<mapsto> (AString (to_string (n + delta)), d)))
            else (Inl OverflowError, m2)))"
    using a(4,5) by (auto simp: spec_incr_def Let_def split: prod.splits option.splits)
  show ?thesis
  proof (cases "value e")
    case (StringValue s)
    have put: "addMemory k (string_size u) (set_value k (StringValue u) (removeMemory k (string_size s) ?db2)) =
        put_value k (StringValue u) ?db2" for u
      using a(1,2) StringValue by (intro replace_part [of _ _ e]) simp_all
    have t: "db_inv (touch k (put_value k (StringValue u) ?db2))"
      "abs_db (touch k (put_value k (StringValue u) ?db2)) = (abs_db ?db2)(k \<mapsto> (AString u, snd (abs_entry e)))" for u
      using put_touch_refines [OF a(1,2), of "StringValue u"] a(3) by auto
    show ?thesis
      unfolding start abs2 using a(1,6) StringValue put t
      by (auto simp: refines_def valueAs_defs abs_entry_pair add_overflow_def split: option.splits)
  qed (use a(1,6) in \<open>simp_all add: start abs2 refines_def valueAs_defs abs_entry_pair\<close>)
qed simp

section \<open>Lists\<close>

lemma payload_push: "payloadMemory (ListValue (push_value side v l)) = payloadMemory (ListValue l) + elementCost v"
  by (simp add: push_value_def)

lemma push_loop_put:
  assumes "db_struct db" "map_of (data db) k = Some e" "value e = ListValue l"
  shows "push_loop side k vs db = put_value k (ListValue (fold (push_value side) vs l)) db"
  using assms
proof (induction vs arbitrary: db e l)
  case Nil
  then show ?case by (metis fold_Nil id_apply push_loop.simps(1) put_value_same)
next
  case (Cons v vs)
  let ?l = "push_value side v l"
  let ?db = "put_value k (ListValue ?l) db"
  have "addMemory k (elementCost v) (set_value k (ListValue ?l) db) = ?db"
    using Cons.prems payload_push [of side v l] by (intro addMemory_set_value [of _ _ e]) simp_all
  moreover have "list_ref k db = l" using Cons.prems by (simp add: list_ref_def)
  moreover have "db_struct ?db" using Cons.prems by (simp add: put_value_struct)
  moreover have "map_of (data ?db) k = Some (e\<lparr>value := ListValue ?l, memory := entry_cost k (ListValue ?l)\<rparr>)"
    using Cons.prems by (simp add: put_value_lookup)
  ultimately show ?case using Cons.IH [of ?db _ ?l] by simp
qed

lemma fold_push_value:
  "fold (push_value side) vs l = (if side = Left then rev vs @ l else l @ vs)"
  by (induction vs arbitrary: l) (auto simp: push_value_def)

lemma listPush_refines:
  assumes inv: "db_inv db" and vs: "vs \<noteq> []"
  shows "refines (listPush k vs side db) (spec_push vs side (time_now db) k (abs_db db))"
proof -
  let ?db2 = "find_or_create k (ListValue []) db"
  have start: "listPush k vs side db =
      (case valueAs_list k ?db2 of Inl e \<Rightarrow> (Inl e, ?db2) | Inr _ \<Rightarrow>
        (Inr (length (list_ref k (touch k (push_loop side k vs ?db2)))), touch k (push_loop side k vs ?db2)))"
    unfolding listPush_def find_or_create_def Let_def by (simp split: prod.splits option.splits)
  have "refines (listPush k vs side db) (spec_upsert as_list (aval_of (ListValue []))
     (\<lambda>l. let l' = (if side = Left then rev vs @ l else l @ vs) in (AList l', length l'))
     (time_now db) k (abs_db db))"
  proof (rule upsert_refines [OF inv])
    fix e l assume a: "map_of (data ?db2) k = Some e" "db_struct ?db2" "as_list (aval_of (value e)) = Inr l"
    then have e: "value e = ListValue l" by (auto split: Value.splits)
    let ?l' = "if side = Left then rev vs @ l else l @ vs"
    have p: "push_loop side k vs ?db2 = put_value k (ListValue ?l') ?db2"
      using push_loop_put [OF a(2,1) e, of side vs] by (simp only: fold_push_value)
    have "list_ref k (touch k (put_value k (ListValue ?l') ?db2)) = ?l'"
      by (simp add: list_ref_def entry_of_def put_value_lookup [OF a(1)])
    then show "\<exists>v. value_wf v \<and> value_nonempty v \<and>
        aval_of v = fst (let l' = ?l' in (AList l', length l')) \<and>
        listPush k vs side db = (Inr (snd (let l' = ?l' in (AList l', length l'))), touch k (put_value k v ?db2))"
      using vs a(1) e p unfolding start
      by (intro exI [of _ "ListValue ?l'"]) (simp add: valueAs_defs Let_def)
  qed (auto simp: start valueAs_defs split: Value.splits elim: as_list.elims)
  then show ?thesis by (simp add: spec_push_def)
qed

lemma filter_upt_interval:
  "filter (\<lambda>i. a \<le> int i \<and> int i \<le> b) [0..<n] = [nat (max a 0)..<nat (min (b + 1) (int n))]"
proof (induction n)
  case 0
  then show ?case by simp
next
  case (Suc n)
  show ?case
  proof (cases "a \<le> int n \<and> int n \<le> b")
    case True
    then have "nat (min (b + 1) (int (Suc n))) = Suc n" "nat (min (b + 1) (int n)) = n"
      "nat (max a 0) \<le> n" by auto
    with True Suc show ?thesis by simp
  next
    case False
    show ?thesis
    proof (cases "int n \<le> b")
      case True
      then have "a > int n" using False by simp
      then have "nat (min (b + 1) (int (Suc n))) \<le> nat (max a 0)" "nat (min (b + 1) (int n)) \<le> nat (max a 0)"
        by auto
      with False Suc show ?thesis by simp
    next
      case False': False
      then have "nat (min (b + 1) (int (Suc n))) = nat (min (b + 1) (int n))" by simp
      with False Suc show ?thesis by simp
    qed
  qed
qed

lemma map_nth_interval: "j \<le> length l \<Longrightarrow> map (nth l) [i..<j] = take (j - i) (drop i l)"
  by (rule nth_equalityI) auto

lemma list_slice_code:
  assumes "start1 = max (if start < 0 then start + int (length l) else start) 0"
    "stop1 = min (if stop < 0 then stop + int (length l) else stop) (int (length l) - 1)"
  shows "list_slice start stop l =
    (if start1 > stop1 \<or> start1 \<ge> int (length l) then []
     else take (nat (stop1 + 1 - start1)) (drop (nat start1) l))"
proof -
  let ?a = "if start < 0 then start + int (length l) else start"
  let ?b = "if stop < 0 then stop + int (length l) else stop"
  let ?i = "nat (max ?a 0)" and ?j = "nat (min (?b + 1) (int (length l)))"
  have "list_slice start stop l = map (nth l) [?i..<?j]"
    by (simp only: list_slice_def Let_def filter_upt_interval)
  also have "\<dots> = take (?j - ?i) (drop ?i l)"
    by (rule map_nth_interval) simp
  finally have eq: "list_slice start stop l = take (?j - ?i) (drop ?i l)" .
  have "?i = nat start1" "?j = nat (stop1 + 1)" unfolding assms by (auto simp: min_def)
  then show ?thesis
    unfolding eq using assms(1) by (auto simp: nat_diff_distrib' nat_le_eq_zle)
qed

lemma listRange_refines:
  assumes inv: "db_inv db"
  shows "refines (listRange k start stop db) (spec_range start stop (time_now db) k (abs_db db))"
proof (rule findLive_cases [OF inv, of k])
  fix db1 e assume a: "findLive k db = (Some k, db1)" "db_inv db1" "map_of (data db1) k = Some e"
    "abs_db db1 = purge (time_now db) k (abs_db db)"
    "purge (time_now db) k (abs_db db) k = Some (abs_entry e)"
  have t: "db_inv (touch k db1)" using a(2,3) by (rule touch_inv)
  show ?thesis
  proof (cases "value e")
    case (ListValue l)
    then show ?thesis
      using a t list_slice_code [OF refl refl, of start stop l]
      by (simp add: refines_def listRange_def spec_range_def spec_read_def Let_def abs_entry_pair valueAs_defs)
  qed (use a in \<open>simp_all add: refines_def listRange_def spec_range_def spec_read_def Let_def
        abs_entry_pair valueAs_defs\<close>)
qed (auto simp: refines_def listRange_def spec_range_def spec_read_def Let_def)

lemma listIndex_refines:
  assumes inv: "db_inv db"
  shows "refines (listIndex k i db) (spec_index i (time_now db) k (abs_db db))"
proof (rule findLive_cases [OF inv, of k])
  fix db1 e assume a: "findLive k db = (Some k, db1)" "db_inv db1" "map_of (data db1) k = Some e"
    "abs_db db1 = purge (time_now db) k (abs_db db)"
    "purge (time_now db) k (abs_db db) k = Some (abs_entry e)"
  have t: "db_inv (touch k db1)" using a(2,3) by (rule touch_inv)
  then show ?thesis
    using a by (cases "value e") (auto simp: refines_def listIndex_def spec_index_def spec_read_def
        Let_def abs_entry_pair valueAs_defs list_at_def)
qed (auto simp: refines_def listIndex_def spec_index_def spec_read_def Let_def)

lemma listLength_refines:
  assumes inv: "db_inv db"
  shows "refines (listLength k db) (spec_llen (time_now db) k (abs_db db))"
  by (rule findLive_cases [OF inv, of k])
    (auto simp: refines_def listLength_def spec_llen_def spec_read_def Let_def abs_entry_pair
      valueAs_defs split: Value.splits)

text \<open>An operation that removes part of a value, and the key with the last part.\<close>

lemma shrink_put:
  assumes "db_inv db" "map_of (data db) k = Some e" "value_wf v"
  shows "value_nonempty v \<Longrightarrow> db_inv (put_value k v db)"
    "db_inv (erase k (put_value k v db))"
    "abs_db (erase k (put_value k v db)) = (abs_db db)(k := None)"
proof -
  have k': "map_of (data (put_value k v db)) k = Some (e\<lparr>value := v, memory := entry_cost k v\<rparr>)"
    using assms(2) by (simp add: put_value_lookup)
  have st: "db_struct (put_value k v db)" using assms by (simp add: db_invD put_value_struct)
  show "db_inv (put_value k v db)" if "value_nonempty v"
    using assms that by (intro put_value_inv [of _ _ e]) (auto simp: db_invD inv_nonempty)
  have "all_values value_nonempty (erase k (put_value k v db))"
    unfolding all_values_def
  proof (intro allI impI)
    fix k1 e1 assume l: "map_of (data (erase k (put_value k v db))) k1 = Some e1"
    then have "k1 \<noteq> k" by (auto simp: erase_lookup)
    with l erase_lookup_fields [OF k', of k1] obtain e0 where
      "map_of (data db) k1 = Some e0" "value e0 = value e1"
      by (cases "map_of (data db) k1") (auto simp: put_value_lookup [OF assms(2)])
    with assms(1) inv_nonempty show "value_nonempty (value e1)" by metis
  qed
  then show "db_inv (erase k (put_value k v db))"
    using erase_struct [OF st k'] by (simp add: db_inv_def)
  show "abs_db (erase k (put_value k v db)) = (abs_db db)(k := None)"
    by (simp add: abs_erase [OF k'] abs_put_value [OF assms(2)])
qed

lemma payload_pop:
  "l \<noteq> [] \<Longrightarrow> payloadMemory (ListValue l) = payloadMemory (ListValue (tl l)) + elementCost (hd l)"
  "l \<noteq> [] \<Longrightarrow> payloadMemory (ListValue l) = payloadMemory (ListValue (butlast l)) + elementCost (last l)"
  by (cases l; simp) (metis append_butlast_last_id payload_push push_value_def ListSide.distinct(1))

lemma listPop_refines:
  assumes inv: "db_inv db"
  shows "refines (listPop k side db) (spec_pop side (time_now db) k (abs_db db))"
proof (rule findLive_cases [OF inv, of k])
  fix db1 e assume a: "findLive k db = (Some k, db1)" "db_inv db1" "map_of (data db1) k = Some e"
    "abs_db db1 = purge (time_now db) k (abs_db db)"
    "purge (time_now db) k (abs_db db) k = Some (abs_entry e)"
  show ?thesis
  proof (cases "value e")
    case (ListValue l)
    have ne: "l \<noteq> []" using inv_nonempty [OF a(2,3)] ListValue by simp
    let ?x = "if side = Left then hd l else last l" and ?l = "if side = Left then tl l else butlast l"
    have put: "removeMemory k (elementCost ?x) (set_value k (ListValue ?l) db1) = put_value k (ListValue ?l) db1"
      using a(2,3) ListValue payload_pop [OF ne]
      by (intro removeMemory_set_value [of _ _ e]) (auto simp: db_invD)
    have k': "map_of (data (put_value k (ListValue ?l) db1)) k =
        Some (e\<lparr>value := ListValue ?l, memory := entry_cost k (ListValue ?l)\<rparr>)"
      by (simp add: put_value_lookup [OF a(3)])
    note sp = shrink_put [OF a(2,3), of "ListValue ?l", simplified]
    have eq: "listPop k side db = (Inr (Some ?x),
        if ?l = [] then erase k (put_value k (ListValue ?l) db1) else touch k (put_value k (ListValue ?l) db1))"
      using a(1,3) ListValue ne by (simp only: listPop_def prod.case option.case valueAs_defs
          entry_of_Some [OF a(3)] ListValue Value.case sum.case Let_def put if_False)
    show ?thesis
    proof (cases "?l = []")
      case True
      with sp a(4,5) ListValue eq show ?thesis
        by (simp add: refines_def spec_pop_def spec_shrink_def Let_def abs_entry_pair)
    next
      case False
      then have "db_inv (touch k (put_value k (ListValue ?l) db1))"
        using sp(1) by (intro touch_inv [OF _ k']) simp
      with False a(4,5) ListValue eq abs_put_value [OF a(3), of "ListValue ?l"] show ?thesis
        by (simp add: refines_def spec_pop_def spec_shrink_def Let_def abs_entry_pair)
    qed
  qed (use a in \<open>simp_all add: refines_def listPop_def spec_pop_def spec_shrink_def Let_def
        abs_entry_pair valueAs_defs\<close>)
qed (auto simp: refines_def listPop_def spec_pop_def spec_shrink_def Let_def)

end
