(* ===== verification/FKV_Database_Aggr.thy ===== *)
theory FKV_Database_Aggr
  imports FKV_Database_Ops
begin

text \<open>
  The refinement of the hash and set operations: the loops over fields and members, with their
  incremental memory accounts, compute the map or set update of the specification and count
  exactly the fields or members that were added or removed.
\<close>

section \<open>Hashes\<close>

abbreviation field_cost :: "bytes \<times> bytes \<Rightarrow> size_t" where
  "field_cost \<equiv> \<lambda>(f, v). elementCost f + string_size v"

lemma payload_hash_new:
  "map_of h f = None \<Longrightarrow>
     payloadMemory (HashValue (AList.update f v h)) = payloadMemory (HashValue h) + (elementCost f + string_size v)"
  by (simp add: alist_sum_update_absent)

lemma payload_hash_old:
  "map_of h f = Some w \<Longrightarrow> distinct (map fst h) \<Longrightarrow>
     payloadMemory (HashValue (AList.update f v h)) + string_size w = payloadMemory (HashValue h) + string_size v"
  by (simp add: alist_sum_update_present)

lemma payload_hash_delete:
  "map_of h f = Some w \<Longrightarrow> distinct (map fst h) \<Longrightarrow>
     payloadMemory (HashValue h) = payloadMemory (HashValue (AList.delete f h)) + (elementCost f + string_size w)"
  by (simp add: alist_sum_delete_present)

text \<open>One iteration of the loop of \<open>hashSet\<close>.\<close>

lemma hash_set_step:
  assumes st: "db_struct db" and k: "map_of (data db) k = Some e" and h: "value e = HashValue h"
  shows "hash_set_loop k ((f, v) # fs) n db =
    hash_set_loop k fs (if map_of h f = None then Suc n else n)
      (put_value k (HashValue (AList.update f v h)) db)"
proof -
  have wf: "distinct (map fst h)" using st k h by (fastforce simp: db_struct_def all_values_def)
  have ref: "hash_ref k db = h" using k h by (simp add: hash_ref_def)
  show ?thesis
  proof (cases "map_of h f")
    case None
    let ?h1 = "AList.update f [] h"
    let ?db1 = "put_value k (HashValue ?h1) db"
    have one: "addMemory k (elementCost f) (set_value k (HashValue ?h1) db) = ?db1"
      using st k h payload_hash_new [OF None, of "[]"]
      by (intro addMemory_set_value [of _ _ e]) (simp_all add: string_size_def)
    have k1: "map_of (data ?db1) k = Some (e\<lparr>value := HashValue ?h1, memory := entry_cost k (HashValue ?h1)\<rparr>)"
      by (simp add: put_value_lookup [OF k])
    have st1: "db_struct ?db1" using st k wf by (simp add: put_value_struct)
    have ref1: "hash_ref k ?db1 = ?h1" using k1 by (simp add: hash_ref_def entry_of_def)
    have "addMemory k (string_size v) (set_value k (HashValue (AList.update f v ?h1)) ?db1) =
        put_value k (HashValue (AList.update f v ?h1)) ?db1"
      using payload_hash_old [of ?h1 f "[]" v] wf
      by (intro addMemory_set_value [OF st1 k1]) (simp add: string_size_def)
    then show ?thesis
      using None one ref ref1 by (simp add: Let_def)
  next
    case (Some w)
    have "addMemory k (string_size v) (set_value k (HashValue (AList.update f v h))
        (removeMemory k (string_size w) db)) = put_value k (HashValue (AList.update f v h)) db"
      using payload_hash_old [OF Some wf, of v] h by (intro replace_part [OF st k]) simp
    moreover have "hash_ref k (removeMemory k (string_size w) db) = h"
      using k h by (simp add: hash_ref_def entry_of_def removeMemory_def Let_def modify_entry_lookup)
    ultimately show ?thesis
      using Some ref by (simp add: Let_def)
  qed
qed

lemma hash_set_loop_put:
  assumes "db_struct db" "map_of (data db) k = Some e" "value e = HashValue h"
  shows "hash_set_loop k fs n db =
    (n + card (fst ` set fs - dom (map_of h)),
     put_value k (HashValue (fold (\<lambda>(f, v). AList.update f v) fs h)) db)"
  using assms
proof (induction fs arbitrary: db e h n)
  case Nil
  then show ?case using put_value_same by fastforce
next
  case (Cons p fs)
  obtain f v where p: "p = (f, v)" by (cases p)
  let ?h = "AList.update f v h" and ?db = "put_value k (HashValue (AList.update f v h)) db"
  have wf: "distinct (map fst h)" using Cons.prems by (fastforce simp: db_struct_def all_values_def)
  have st: "db_struct ?db" using Cons.prems wf by (simp add: put_value_struct)
  have k: "map_of (data ?db) k = Some (e\<lparr>value := HashValue ?h, memory := entry_cost k (HashValue ?h)\<rparr>)"
    using Cons.prems by (simp add: put_value_lookup)
  have IH: "hash_set_loop k fs m ?db = (m + card (fst ` set fs - dom (map_of ?h)),
      put_value k (HashValue (fold (\<lambda>(f, v). AList.update f v) fs ?h)) ?db)" for m
    by (rule Cons.IH [OF st k]) simp
  have d: "dom (map_of ?h) = insert f (dom (map_of h))" by (auto split: if_splits)
  have "card (fst ` set (p # fs) - dom (map_of h)) =
      (if map_of h f = None then Suc (card (fst ` set fs - dom (map_of ?h)))
       else card (fst ` set fs - dom (map_of ?h)))"
  proof (cases "map_of h f")
    case None
    then have "fst ` set (p # fs) - dom (map_of h) = insert f (fst ` set fs - dom (map_of ?h))"
      by (auto simp: p d)
    with None d show ?thesis by simp
  next
    case (Some w)
    then have "fst ` set (p # fs) - dom (map_of h) = fst ` set fs - dom (map_of ?h)"
      by (auto simp: p d)
    with Some show ?thesis by simp
  qed
  with hash_set_step [OF Cons.prems, of f v fs n] IH show ?case by (simp add: p)
qed

lemma hashSet_refines:
  assumes inv: "db_inv db" and fs: "fs \<noteq> []"
  shows "refines (hashSet k fs db) (spec_hset fs (time_now db) k (abs_db db))"
proof -
  let ?db2 = "find_or_create k (HashValue []) db"
  let ?f = "\<lambda>h. (AHash (h ++ map_of (rev fs)), card (fst ` set fs - dom h))"
  have start: "hashSet k fs db =
      (case valueAs_hash k ?db2 of Inl e \<Rightarrow> (Inl e, ?db2) | Inr _ \<Rightarrow>
        (Inr (fst (hash_set_loop k fs 0 ?db2)), touch k (snd (hash_set_loop k fs 0 ?db2))))"
    unfolding hashSet_def find_or_create_def Let_def by (simp split: prod.splits option.splits sum.splits)
  have "refines (hashSet k fs db)
      (spec_upsert as_hash (aval_of (HashValue [])) ?f (time_now db) k (abs_db db))"
  proof (rule upsert_refines [OF inv])
    fix e h0 assume a: "map_of (data ?db2) k = Some e" "db_struct ?db2" "as_hash (aval_of (value e)) = Inr h0"
    then obtain h where h: "value e = HashValue h" "h0 = map_of h" by (auto split: Value.splits)
    have wf: "distinct (map fst h)" using a h by (fastforce simp: db_struct_def all_values_def)
    let ?h = "fold (\<lambda>(f, v). AList.update f v) fs h"
    have "distinct (map fst ?h)" using wf by (rule alist_table.insert_many_wf)
    moreover have "map_of ?h = map_of h ++ map_of (rev fs)"
      using alist_table.insert_many_lookup [OF wf, of fs] by (simp add: map_add_def)
    moreover have "?h \<noteq> []"
      using fs by (cases fs rule: rev_cases) (auto split: prod.splits)
    ultimately show "\<exists>v. value_wf v \<and> value_nonempty v \<and> aval_of v = fst (?f h0) \<and>
        hashSet k fs db = (Inr (snd (?f h0)), touch k (put_value k v ?db2))"
      using a(1) h hash_set_loop_put [OF a(2,1) h(1), of fs 0] unfolding start
      by (intro exI [of _ "HashValue ?h"]) (simp add: valueAs_defs)
  qed (auto simp: start valueAs_defs split: Value.splits elim: as_hash.elims)
  then show ?thesis by (simp add: spec_hset_def)
qed

lemma hashGet_refines:
  assumes inv: "db_inv db"
  shows "refines (hashGet k f db) (spec_hget f (time_now db) k (abs_db db))"
proof (rule findLive_cases [OF inv, of k])
  fix db1 e assume a: "findLive k db = (Some k, db1)" "db_inv db1" "map_of (data db1) k = Some e"
    "abs_db db1 = purge (time_now db) k (abs_db db)"
    "purge (time_now db) k (abs_db db) k = Some (abs_entry e)"
  have t: "db_inv (touch k db1)" using a(2,3) by (rule touch_inv)
  show ?thesis
    using a t by (cases "value e") (auto simp: refines_def hashGet_def spec_hget_def spec_read_def
        Let_def abs_entry_pair valueAs_defs split: option.splits)
qed (auto simp: refines_def hashGet_def spec_hget_def spec_read_def Let_def)

lemma hashLength_refines:
  assumes inv: "db_inv db"
  shows "refines (hashLength k db) (spec_hlen (time_now db) k (abs_db db))"
proof (rule findLive_cases [OF inv, of k])
  fix db1 e assume a: "findLive k db = (Some k, db1)" "db_inv db1" "map_of (data db1) k = Some e"
    "abs_db db1 = purge (time_now db) k (abs_db db)"
    "purge (time_now db) k (abs_db db) k = Some (abs_entry e)"
  have "length h = card (dom (map_of h))" if "value e = HashValue h" for h
    using inv_wf [OF a(2,3)] that
    by (metis dom_map_of_conv_image_fst distinct_card length_map list.set_map value_wf.simps(3))
  with a show ?thesis
    by (cases "value e") (auto simp: refines_def hashLength_def spec_hlen_def spec_read_def Let_def
        abs_entry_pair valueAs_defs)
qed (auto simp: refines_def hashLength_def spec_hlen_def spec_read_def Let_def)

lemma hashExists_refines:
  assumes inv: "db_inv db"
  shows "refines (hashExists k f db) (spec_hexists f (time_now db) k (abs_db db))"
  by (rule findLive_cases [OF inv, of k])
    (auto simp: refines_def hashExists_def spec_hexists_def spec_read_def Let_def abs_entry_pair
      valueAs_defs dom_def split: Value.splits)

lemma sort_distinct_set: "distinct xs \<Longrightarrow> sort xs = sorted_list_of_set (set xs)"
  by (simp add: sorted_list_of_set_sort_remdups distinct_remdups_id)

lemma hashGetAll_refines:
  assumes inv: "db_inv db"
  shows "refines (hashGetAll k db) (spec_hgetall (time_now db) k (abs_db db))"
proof (rule findLive_cases [OF inv, of k])
  fix db1 e assume a: "findLive k db = (Some k, db1)" "db_inv db1" "map_of (data db1) k = Some e"
    "abs_db db1 = purge (time_now db) k (abs_db db)"
    "purge (time_now db) k (abs_db db) k = Some (abs_entry e)"
  have t: "db_inv (touch k db1)" using a(2,3) by (rule touch_inv)
  have "sort h = sorted_list_of_set {(f, v). map_of h f = Some v}" if "value e = HashValue h" for h
  proof -
    have "distinct (map fst h)" using inv_wf [OF a(2,3)] that by simp
    then have "{(f, v). map_of h f = Some v} = set h" "distinct h"
      by (auto simp: distinct_map)
    then show ?thesis by (simp add: sort_distinct_set)
  qed
  with a t show ?thesis
    by (cases "value e") (auto simp: refines_def hashGetAll_def spec_hgetall_def spec_read_def Let_def
        abs_entry_pair valueAs_defs)
qed (auto simp: refines_def hashGetAll_def spec_hgetall_def spec_read_def Let_def)

lemma hash_delete_loop_put:
  assumes "db_struct db" "map_of (data db) k = Some e" "value e = HashValue h"
  shows "hash_delete_loop k fs n db =
    (n + card (set fs \<inter> dom (map_of h)), put_value k (HashValue (fold AList.delete fs h)) db)"
  using assms
proof (induction fs arbitrary: db e h n)
  case Nil
  then show ?case using put_value_same by fastforce
next
  case (Cons f fs)
  have wf: "distinct (map fst h)" using Cons.prems by (fastforce simp: db_struct_def all_values_def)
  have ref: "hash_ref k db = h" using Cons.prems by (simp add: hash_ref_def)
  show ?case
  proof (cases "map_of h f")
    case None
    then have "AList.delete f h = h" by (simp add: map_of_None_fst)
    moreover have "set (f # fs) \<inter> dom (map_of h) = set fs \<inter> dom (map_of h)" using None by auto
    ultimately show ?thesis using None ref Cons.IH [OF Cons.prems] by simp
  next
    case (Some w)
    let ?h = "AList.delete f h" and ?db = "put_value k (HashValue (AList.delete f h)) db"
    have "set_value k (HashValue ?h) (removeMemory k (elementCost f + string_size w) db) = ?db"
      using Cons.prems payload_hash_delete [OF Some wf]
      by (intro set_value_removeMemory [of _ _ e]) simp_all
    moreover have "map_of (data ?db) k = Some (e\<lparr>value := HashValue ?h, memory := entry_cost k (HashValue ?h)\<rparr>)"
      using Cons.prems by (simp add: put_value_lookup)
    moreover have "db_struct ?db" using Cons.prems wf by (simp add: put_value_struct)
    moreover have "set (f # fs) \<inter> dom (map_of h) = insert f (set fs \<inter> dom (map_of ?h))"
      "f \<notin> dom (map_of ?h)"
      using Some by (auto split: if_splits)
    ultimately show ?thesis
      using Some ref Cons.IH [of ?db _ ?h "Suc n"] by (simp add: AList.delete_conv' fun_upd_def)
  qed
qed

text \<open>The common end of \<open>hashDelete\<close> and \<open>setRemove\<close>: erase the key when nothing is left.\<close>

lemma shrink_refines:
  assumes inv: "db_inv db" and k: "map_of (data db) k = Some e" and wf: "value_wf v"
    and a: "aval_of v = w" and c: "c = (Inr n, if \<not> value_nonempty v then erase k (put_value k v db) else put_value k v db)"
  shows "refines c (Inr n, (abs_db db)(k := (if value_nonempty v then Some (w, snd (abs_entry e)) else None)))"
  using shrink_put [OF inv k wf] abs_put_value [OF k, of v] a c
  by (auto simp: refines_def abs_entry_pair)

lemma hashDelete_refines:
  assumes inv: "db_inv db"
  shows "refines (hashDelete k fs db) (spec_hdel fs (time_now db) k (abs_db db))"
proof (rule findLive_cases [OF inv, of k])
  fix db1 e assume a: "findLive k db = (Some k, db1)" "db_inv db1" "map_of (data db1) k = Some e"
    "abs_db db1 = purge (time_now db) k (abs_db db)"
    "purge (time_now db) k (abs_db db) k = Some (abs_entry e)"
  show ?thesis
  proof (cases "value e")
    case (HashValue h)
    have wf: "distinct (map fst h)" using inv_wf [OF a(2,3)] HashValue by simp
    let ?h = "fold AList.delete fs h"
    have lk: "map_of ?h = map_of h |` (- set fs)"
      using alist_table.erase_many_lookup [OF wf, of fs] by (simp add: restrict_map_def fun_eq_iff)
    have empty: "?h = [] \<longleftrightarrow> map_of h |` (- set fs) = Map.empty"
      unfolding lk [symmetric] by simp
    have ref: "hash_ref k (put_value k (HashValue ?h) db1) = ?h"
      by (simp add: hash_ref_def put_value_entry [OF a(3)])
    have "hashDelete k fs db = (Inr (card (set fs \<inter> dom (map_of h))),
        if \<not> value_nonempty (HashValue ?h) then erase k (put_value k (HashValue ?h) db1)
        else put_value k (HashValue ?h) db1)"
      using a(1,3) HashValue hash_delete_loop_put [OF db_invD [OF a(2)] a(3) HashValue, of fs 0] ref
      by (simp add: hashDelete_def valueAs_defs)
    moreover have "value_wf (HashValue ?h)" using alist_table.erase_many_wf [OF wf] by simp
    ultimately have "refines (hashDelete k fs db) (Inr (card (set fs \<inter> dom (map_of h))),
       (abs_db db1)(k := (if value_nonempty (HashValue ?h)
         then Some (AHash (map_of h |` (- set fs)), snd (abs_entry e)) else None)))"
      using lk by (intro shrink_refines [OF a(2,3)]) simp_all
    with a(4,5) HashValue empty show ?thesis
      by (auto simp: spec_hdel_def spec_shrink_def Let_def abs_entry_pair)
  qed (use a in \<open>simp_all add: refines_def hashDelete_def spec_hdel_def spec_shrink_def Let_def
        abs_entry_pair valueAs_defs\<close>)
qed (auto simp: refines_def hashDelete_def spec_hdel_def spec_shrink_def Let_def)

section \<open>Sets\<close>

lemma set_add_loop_put:
  assumes "db_struct db" "map_of (data db) k = Some e" "value e = SetValue s"
  shows "\<exists>s'. distinct s' \<and> set s' = set s \<union> set ms \<and>
    set_add_loop k ms n db = (n + card (set ms - set s), put_value k (SetValue s') db)"
  using assms
proof (induction ms arbitrary: db e s n)
  case Nil
  moreover have "distinct s" using Nil by (fastforce simp: db_struct_def all_values_def)
  moreover have "put_value k (SetValue s) db = db" using Nil put_value_same by fastforce
  ultimately show ?case by (intro exI [of _ s]) simp
next
  case (Cons m ms)
  have ref: "set_ref k db = s" using Cons.prems by (simp add: set_ref_def)
  show ?case
  proof (cases "m \<in> set s")
    case True
    then have "set (m # ms) - set s = set ms - set s" "set s \<union> set (m # ms) = set s \<union> set ms" by auto
    with True ref Cons.IH [OF Cons.prems, of n] show ?thesis by simp
  next
    case False
    let ?s = "m # s" and ?db = "put_value k (SetValue (m # s)) db"
    have "distinct s" using Cons.prems by (fastforce simp: db_struct_def all_values_def)
    then have st: "db_struct ?db" using Cons.prems False by (simp add: put_value_struct)
    have put: "addMemory k (elementCost m) (set_value k (SetValue ?s) db) = ?db"
      using Cons.prems by (intro addMemory_set_value [of _ _ e]) simp_all
    have k: "map_of (data ?db) k = Some (e\<lparr>value := SetValue ?s, memory := entry_cost k (SetValue ?s)\<rparr>)"
      using Cons.prems by (simp add: put_value_lookup)
    obtain s' where "distinct s'" "set s' = set ?s \<union> set ms"
      "set_add_loop k ms (Suc n) ?db = (Suc n + card (set ms - set ?s), put_value k (SetValue s') ?db)"
      using Cons.IH [OF st k, of ?s "Suc n"] by auto
    moreover have "set (m # ms) - set s = insert m (set ms - set ?s)" using False by auto
    ultimately show ?thesis
      using False ref put by (intro exI [of _ s']) auto
  qed
qed

lemma setAdd_refines:
  assumes inv: "db_inv db" and ms: "ms \<noteq> []"
  shows "refines (setAdd k ms db) (spec_sadd ms (time_now db) k (abs_db db))"
proof -
  let ?db2 = "find_or_create k (SetValue []) db"
  let ?f = "\<lambda>s. (ASet (s \<union> set ms), card (set ms - s))"
  have start: "setAdd k ms db =
      (case valueAs_set k ?db2 of Inl e \<Rightarrow> (Inl e, ?db2) | Inr _ \<Rightarrow>
        (Inr (fst (set_add_loop k ms 0 ?db2)), touch k (snd (set_add_loop k ms 0 ?db2))))"
    unfolding setAdd_def find_or_create_def Let_def by (simp split: prod.splits option.splits sum.splits)
  have "refines (setAdd k ms db)
      (spec_upsert as_set (aval_of (SetValue [])) ?f (time_now db) k (abs_db db))"
  proof (rule upsert_refines [OF inv])
    fix e s0 assume a: "map_of (data ?db2) k = Some e" "db_struct ?db2" "as_set (aval_of (value e)) = Inr s0"
    then obtain s where s: "value e = SetValue s" "s0 = set s" by (auto split: Value.splits)
    obtain s' where "distinct s'" "set s' = set s \<union> set ms"
      "set_add_loop k ms 0 ?db2 = (0 + card (set ms - set s), put_value k (SetValue s') ?db2)"
      using set_add_loop_put [OF a(2,1) s(1), of ms 0] by blast
    then show "\<exists>v. value_wf v \<and> value_nonempty v \<and> aval_of v = fst (?f s0) \<and>
        setAdd k ms db = (Inr (snd (?f s0)), touch k (put_value k v ?db2))"
      using a(1) s ms unfolding start
      by (intro exI [of _ "SetValue s'"]) (auto simp: valueAs_defs)
  qed (auto simp: start valueAs_defs split: Value.splits elim: as_set.elims)
  then show ?thesis by (simp add: spec_sadd_def)
qed

lemma payload_set_remove:
  "m \<in> set s \<Longrightarrow> payloadMemory (SetValue s) = payloadMemory (SetValue (remove1 m s)) + elementCost m"
  by (induction s) auto

lemma set_remove_loop_put:
  assumes "db_struct db" "map_of (data db) k = Some e" "value e = SetValue s"
  shows "\<exists>s'. distinct s' \<and> set s' = set s - set ms \<and>
    set_remove_loop k ms n db = (n + card (set s \<inter> set ms), put_value k (SetValue s') db)"
  using assms
proof (induction ms arbitrary: db e s n)
  case Nil
  moreover have "distinct s" using Nil by (fastforce simp: db_struct_def all_values_def)
  moreover have "put_value k (SetValue s) db = db" using Nil put_value_same by fastforce
  ultimately show ?case by (intro exI [of _ s]) simp
next
  case (Cons m ms)
  have ref: "set_ref k db = s" using Cons.prems by (simp add: set_ref_def)
  show ?case
  proof (cases "m \<in> set s")
    case False
    then have "set s \<inter> set (m # ms) = set s \<inter> set ms" "set s - set (m # ms) = set s - set ms" by auto
    with False ref Cons.IH [OF Cons.prems, of n] show ?thesis by simp
  next
    case True
    let ?s = "remove1 m s" and ?db = "put_value k (SetValue (remove1 m s)) db"
    have d: "distinct s" using Cons.prems by (fastforce simp: db_struct_def all_values_def)
    then have st: "db_struct ?db" using Cons.prems by (simp add: put_value_struct)
    have put: "removeMemory k (elementCost m) (set_value k (SetValue ?s) db) = ?db"
      using Cons.prems payload_set_remove [OF True] by (intro removeMemory_set_value [of _ _ e]) simp_all
    have k: "map_of (data ?db) k = Some (e\<lparr>value := SetValue ?s, memory := entry_cost k (SetValue ?s)\<rparr>)"
      using Cons.prems by (simp add: put_value_lookup)
    obtain s' where "distinct s'" "set s' = set ?s - set ms"
      "set_remove_loop k ms (Suc n) ?db = (Suc n + card (set ?s \<inter> set ms), put_value k (SetValue s') ?db)"
      using Cons.IH [OF st k, of ?s "Suc n"] by auto
    moreover have "set ?s = set s - {m}" using d by (simp add: set_remove1_eq)
    moreover have "set s \<inter> set (m # ms) = insert m ((set s - {m}) \<inter> set ms)" using True by auto
    ultimately show ?thesis
      using True ref put by (intro exI [of _ s']) auto
  qed
qed

lemma setRemove_refines:
  assumes inv: "db_inv db"
  shows "refines (setRemove k ms db) (spec_srem ms (time_now db) k (abs_db db))"
proof (rule findLive_cases [OF inv, of k])
  fix db1 e assume a: "findLive k db = (Some k, db1)" "db_inv db1" "map_of (data db1) k = Some e"
    "abs_db db1 = purge (time_now db) k (abs_db db)"
    "purge (time_now db) k (abs_db db) k = Some (abs_entry e)"
  show ?thesis
  proof (cases "value e")
    case (SetValue s)
    obtain s' where s': "distinct s'" "set s' = set s - set ms"
      "set_remove_loop k ms 0 db1 = (0 + card (set s \<inter> set ms), put_value k (SetValue s') db1)"
      using set_remove_loop_put [OF db_invD [OF a(2)] a(3) SetValue, of ms 0] by blast
    have ref: "set_ref k (put_value k (SetValue s') db1) = s'"
      by (simp add: set_ref_def put_value_entry [OF a(3)])
    have "setRemove k ms db = (Inr (card (set s \<inter> set ms)),
        if \<not> value_nonempty (SetValue s') then erase k (put_value k (SetValue s') db1)
        else put_value k (SetValue s') db1)"
      using a(1,3) SetValue s'(3) ref by (simp add: setRemove_def valueAs_defs)
    then have "refines (setRemove k ms db) (Inr (card (set s \<inter> set ms)),
       (abs_db db1)(k := (if value_nonempty (SetValue s')
         then Some (ASet (set s - set ms), snd (abs_entry e)) else None)))"
      using s' by (intro shrink_refines [OF a(2,3)]) simp_all
    moreover have "s' = [] \<longleftrightarrow> set s - set ms = {}" using s'(2) by (metis set_empty)
    moreover have "spec_srem ms (time_now db) k (abs_db db) = (Inr (card (set s \<inter> set ms)),
       (abs_db db1)(k := (if set s - set ms = {} then None
         else Some (ASet (set s - set ms), snd (abs_entry e)))))"
      using a(4,5) SetValue
      by (simp add: spec_srem_def spec_shrink_def Let_def abs_entry_pair del: Diff_eq_empty_iff)
    ultimately show ?thesis by (cases "set s \<subseteq> set ms") simp_all
  qed (use a in \<open>simp_all add: refines_def setRemove_def spec_srem_def spec_shrink_def Let_def
        abs_entry_pair valueAs_defs\<close>)
qed (auto simp: refines_def setRemove_def spec_srem_def spec_shrink_def Let_def)

lemma setMembers_refines:
  assumes inv: "db_inv db"
  shows "refines (setMembers k db) (spec_smembers (time_now db) k (abs_db db))"
proof (rule findLive_cases [OF inv, of k])
  fix db1 e assume a: "findLive k db = (Some k, db1)" "db_inv db1" "map_of (data db1) k = Some e"
    "abs_db db1 = purge (time_now db) k (abs_db db)"
    "purge (time_now db) k (abs_db db) k = Some (abs_entry e)"
  have t: "db_inv (touch k db1)" using a(2,3) by (rule touch_inv)
  have "sort s = sorted_list_of_set (set s)" if "value e = SetValue s" for s
    using inv_wf [OF a(2,3)] that by (simp add: sort_distinct_set)
  with a t show ?thesis
    by (cases "value e") (auto simp: refines_def setMembers_def spec_smembers_def spec_read_def Let_def
        abs_entry_pair valueAs_defs)
qed (auto simp: refines_def setMembers_def spec_smembers_def spec_read_def Let_def)

lemma setIsMember_refines:
  assumes inv: "db_inv db"
  shows "refines (setIsMember k x db) (spec_sismember x (time_now db) k (abs_db db))"
  by (rule findLive_cases [OF inv, of k])
    (auto simp: refines_def setIsMember_def spec_sismember_def spec_read_def Let_def abs_entry_pair
      valueAs_defs split: Value.splits)

lemma setCardinality_refines:
  assumes inv: "db_inv db"
  shows "refines (setCardinality k db) (spec_scard (time_now db) k (abs_db db))"
proof (rule findLive_cases [OF inv, of k])
  fix db1 e assume a: "findLive k db = (Some k, db1)" "db_inv db1" "map_of (data db1) k = Some e"
    "abs_db db1 = purge (time_now db) k (abs_db db)"
    "purge (time_now db) k (abs_db db) k = Some (abs_entry e)"
  have "length s = card (set s)" if "value e = SetValue s" for s
    using inv_wf [OF a(2,3)] that by (simp add: distinct_card)
  with a show ?thesis
    by (cases "value e") (auto simp: refines_def setCardinality_def spec_scard_def spec_read_def Let_def
        abs_entry_pair valueAs_defs)
qed (auto simp: refines_def setCardinality_def spec_scard_def spec_read_def Let_def)

end
