(* ===== verification/FKV_Database_Expiry.thy ===== *)
theory FKV_Database_Expiry
  imports FKV_Database_Aggr
begin

text \<open>
  Deadlines: the refinement of \<open>expireAtMs\<close>, \<open>expire\<close>, \<open>persist\<close>, \<open>ttlMs\<close>, \<open>ttl\<close>, \<open>keys\<close>,
  \<open>inspect\<close> and \<open>clear\<close>, the range of the remaining time, and the active expiration cycle: it
  ends within one pass per volatile key and removes expired keys only.
\<close>

section \<open>Specification\<close>

definition spec_expire_at :: "int \<Rightarrow> int \<Rightarrow> int \<Rightarrow> bytes \<Rightarrow> astore \<Rightarrow> bool \<times> astore" where
  "spec_expire_at deadline t t' k m =
     (let m1 = purge t k m in
      case m1 k of
        None \<Rightarrow> (False, m1)
      | Some (v, _) \<Rightarrow> (True, m1(k := (if deadline \<le> t' then None else Some (v, Some deadline)))))"

definition spec_persist :: "int \<Rightarrow> bytes \<Rightarrow> astore \<Rightarrow> bool \<times> astore" where
  "spec_persist t k m =
     (let m1 = purge t k m in
      case m1 k of
        Some (v, Some _) \<Rightarrow> (True, m1(k \<mapsto> (v, None)))
      | _ \<Rightarrow> (False, m1))"

text \<open>As documented: -2 for a missing key, -1 for one without a deadline, otherwise the milliseconds left.\<close>

definition spec_ttl :: "int \<Rightarrow> bytes \<Rightarrow> astore \<Rightarrow> int \<times> astore" where
  "spec_ttl t k m =
     (let m1 = purge t k m in
      case m1 k of
        None \<Rightarrow> (-2, m1)
      | Some (_, None) \<Rightarrow> (-1, m1)
      | Some (_, Some d) \<Rightarrow> (d - t, m1))"

text \<open>The second reading of the clock an operation takes, after the one of \<open>findLive\<close>.\<close>

abbreviation time_after :: "bytes \<Rightarrow> Database \<Rightarrow> int" where
  "time_after k db \<equiv> time_now (snd (findLive k db))"

section \<open>Setting and reading deadlines\<close>

lemma time_nonneg: "db_inv db \<Longrightarrow> 0 \<le> clock db i"
  by (simp add: db_inv_def db_struct_def clock_ok_def)

lemma setExpiry_inv:
  assumes "db_inv db" "map_of (data db) k = Some e" "0 < t"
  shows "db_inv (setExpiry k t db)"
  using assms by (auto simp: db_inv_def setExpiry_struct all_values_def setExpiry_lookup)

lemma clearExpiry_inv:
  assumes "db_inv db" "map_of (data db) k = Some e"
  shows "db_inv (clearExpiry k db)"
proof -
  have "value_nonempty (value e')" if "map_of (data (clearExpiry k db)) k' = Some e'" for k' e'
    using that assms(1) clearExpiry_lookup_fields [OF assms(2), of k']
    by (cases "map_of (data db) k'") (auto simp: db_inv_def all_values_def)
  with assms clearExpiry_struct show ?thesis by (simp add: db_inv_def all_values_def)
qed

lemma expireAtMs_refines:
  assumes inv: "db_inv db"
  shows "refines (expireAtMs_op k d db) (spec_expire_at d (time_now db) (time_after k db) k (abs_db db))"
proof (rule findLive_cases [OF inv, of k])
  fix db1 e assume a: "findLive k db = (Some k, db1)" "db_inv db1" "map_of (data db1) k = Some e"
    "abs_db db1 = purge (time_now db) k (abs_db db)"
    "purge (time_now db) k (abs_db db) k = Some (abs_entry e)"
  let ?db2 = "db1\<lparr>readings := Suc (readings db1)\<rparr>"
  have 2: "db_inv ?db2" "map_of (data ?db2) k = Some e" using a by simp_all
  show ?thesis
  proof (cases "d \<le> time_now db1")
    case True
    with a erase_inv [OF 2] abs_erase [OF 2(2)] show ?thesis
      by (simp add: refines_def expireAtMs_op_def spec_expire_at_def now_def Let_def abs_entry_pair)
  next
    case False
    then have "0 < d" using time_nonneg [OF a(2), of "readings db1"] by simp
    with False a setExpiry_inv [OF 2] abs_setExpiry [OF 2(2)] show ?thesis
      by (simp add: refines_def expireAtMs_op_def spec_expire_at_def now_def Let_def abs_entry_pair)
  qed
qed (auto simp: refines_def expireAtMs_op_def spec_expire_at_def Let_def)

text \<open>\<open>expire\<close> is \<open>expireAtMs\<close> at a deadline that saturates instead of overflowing.\<close>

definition expire_deadline :: "int \<Rightarrow> int \<Rightarrow> int" where
  "expire_deadline t seconds = (if seconds \<le> 0 then t else min LLONG_MAX (t + 1000 * seconds))"

lemma db_expire_deadline:
  assumes inv: "db_inv db"
  shows "\<exists>n. db_expire k s db = expireAtMs_op k (expire_deadline (time_now db) s) (db\<lparr>readings := n\<rparr>)"
proof -
  have t: "0 \<le> time_now db" using inv by (rule time_nonneg)
  consider "s \<le> 0" | "s > 0" "\<not> in_llong (s * 1000)" | "s > 0" "in_llong (s * 1000)" by linarith
  then show ?thesis
  proof cases
    case 1
    then show ?thesis by (auto simp: db_expire_def expire_deadline_def now_def)
  next
    case 2
    then have "expire_deadline (time_now db) s = LLONG_MAX" "mul_overflow s 1000 = None"
      using t by (auto simp: expire_deadline_def mul_overflow_def in_llong_def LLONG_MIN_def)
    with 2 show ?thesis
      by (intro exI [of _ "readings db"]) (simp add: db_expire_def)
  next
    case 3
    then have m: "mul_overflow s 1000 = Some (s * 1000)" by simp
    have "expire_deadline (time_now db) s =
        (case add_overflow (time_now db) (s * 1000) of None \<Rightarrow> LLONG_MAX | Some d \<Rightarrow> d)"
      using 3 t by (auto simp: expire_deadline_def add_overflow_def in_llong_def LLONG_MIN_def LLONG_MAX_def)
    with 3 m show ?thesis
      by (intro exI [of _ "Suc (readings db)"])
        (simp add: db_expire_def now_def mul_overflow_def add_overflow_def)
  qed
qed

lemma db_persist_refines:
  assumes inv: "db_inv db"
  shows "refines (db_persist k db) (spec_persist (time_now db) k (abs_db db))"
proof (rule findLive_cases [OF inv, of k])
  fix db1 e assume a: "findLive k db = (Some k, db1)" "db_inv db1" "map_of (data db1) k = Some e"
    "abs_db db1 = purge (time_now db) k (abs_db db)"
    "purge (time_now db) k (abs_db db) k = Some (abs_entry e)"
  then show ?thesis
    using clearExpiry_inv [OF a(2,3)] abs_clearExpiry [OF a(3)]
    by (simp add: refines_def db_persist_def spec_persist_def Let_def abs_entry_pair deadline_of_def)
qed (auto simp: refines_def db_persist_def spec_persist_def Let_def)

lemma ttlMs_value:
  assumes inv: "db_inv db"
  shows "refines (ttlMs k db) (case purge (time_now db) k (abs_db db) k of
      None \<Rightarrow> -2 | Some (_, None) \<Rightarrow> -1 | Some (_, Some d) \<Rightarrow> d - time_after k db, purge (time_now db) k (abs_db db))"
proof (rule findLive_cases [OF inv, of k])
  fix db1 e assume a: "findLive k db = (Some k, db1)" "db_inv db1" "map_of (data db1) k = Some e"
    "abs_db db1 = purge (time_now db) k (abs_db db)"
    "purge (time_now db) k (abs_db db) k = Some (abs_entry e)"
  then show ?thesis
    by (simp add: refines_def ttlMs_def now_def Let_def abs_entry_pair deadline_of_def)
qed (auto simp: refines_def ttlMs_def Let_def)

text \<open>
  The clock is read twice. When it does not run backwards in between and the deadline of the key does not pass,
  the result is the specified one at the second reading.
\<close>

definition passes_deadline :: "int \<Rightarrow> int \<Rightarrow> bytes \<Rightarrow> astore \<Rightarrow> bool" where
  "passes_deadline t t' k m \<longleftrightarrow> (case m k of Some (_, Some d) \<Rightarrow> t < d \<and> d \<le> t' | _ \<Rightarrow> False)"

lemma purge_later:
  assumes "t \<le> t'" "\<not> passes_deadline t t' k m"
  shows "purge t' k m = purge t k m"
  using assms by (auto simp: purge_def passes_deadline_def expired_at_def split: option.splits)

lemma ttlMs_refines:
  assumes "db_inv db" "time_now db \<le> time_after k db" "\<not> passes_deadline (time_now db) (time_after k db) k (abs_db db)"
  shows "refines (ttlMs k db) (spec_ttl (time_after k db) k (abs_db db))"
proof -
  let ?m = "purge (time_now db) k (abs_db db)"
  have "spec_ttl (time_after k db) k (abs_db db) =
      (case ?m k of None \<Rightarrow> -2 | Some (_, None) \<Rightarrow> -1 | Some (_, Some d) \<Rightarrow> d - time_after k db, ?m)"
    unfolding spec_ttl_def purge_later [OF assms(2,3)] by (simp add: Let_def split: option.split)
  with ttlMs_value [OF assms(1)] show ?thesis by simp
qed

text \<open>What is left of a live key's time is positive.\<close>

lemma spec_ttl_range: "fst (spec_ttl t k m) \<in> {-2, -1} \<or> 0 < fst (spec_ttl t k m)"
  by (auto simp: spec_ttl_def purge_def expired_at_def Let_def split: option.splits)

lemma ttl_ttlMs:
  "fst (ttl k db) = (let r = fst (ttlMs k db) in if r < 0 then r else (r + 500) div 1000)"
  "snd (ttl k db) = snd (ttlMs k db)"
  by (simp_all add: ttl_def Let_def split: prod.splits)

section \<open>Listing keys and inspecting one\<close>

lemma live_in_table:
  "expired_at t (abs_entry e) \<longleftrightarrow> expiresAtMs e \<noteq> NO_EXPIRY \<and> t \<ge> expiresAtMs e"
  by (simp add: expired_at_def abs_entry_def deadline_of_def)

lemma db_keys_spec:
  assumes inv: "db_inv db"
  shows "refines (db_keys p db)
    (sorted_list_of_set (spec_keys (time_now db) p (abs_db db)), abs_db db)"
proof -
  let ?live = "\<lambda>key. \<not> (expiresAtMs (entry_of key db) \<noteq> NO_EXPIRY \<and> time_now db \<ge> expiresAtMs (entry_of key db))
     \<and> globMatch p key"
  let ?ks = "filter ?live (map fst (data db))"
  have d: "distinct ?ks"
    using inv by (intro distinct_filter) (simp add: db_inv_def db_struct_def keys_ok_def)
  have "set ?ks = {k \<in> fst ` set (data db). ?live k}" by auto
  also have "\<dots> = {k. \<exists>e. map_of (data db) k = Some e \<and> \<not> expired_at (time_now db) (abs_entry e) \<and> glob_spec p k}"
    unfolding in_fst_map_of by (auto simp: live_in_table globMatch_spec)
  also have "\<dots> = spec_keys (time_now db) p (abs_db db)"
    unfolding spec_keys_def abs_db_def map_option_eq_Some by blast
  finally show ?thesis
    using inv sort_distinct_set [OF d]
    by (simp add: refines_def db_keys_def now_def Let_def)
qed

lemma inspect_abs:
  assumes inv: "db_inv db"
  shows "db_inv (snd (inspect k db))" "abs_db (snd (inspect k db)) = abs_db db"
    "map_option (\<lambda>i. (aval_of (info_value i), info_memory i)) (fst (inspect k db)) =
     (case abs_db db k of
        Some x \<Rightarrow> if expired_at (time_now db) x then None
          else Some (fst x, entry_cost k (value (entry_of k db)))
      | None \<Rightarrow> None)"
proof -
  show "db_inv (snd (inspect k db))" "abs_db (snd (inspect k db)) = abs_db db"
    using inv by (auto simp: inspect_def now_def Let_def split: option.splits)
  have "memory e = entry_cost k (value e)" if "map_of (data db) k = Some e" for e
    using inv that by (simp add: db_inv_def db_struct_def memory_ok_def)
  then show "map_option (\<lambda>i. (aval_of (info_value i), info_memory i)) (fst (inspect k db)) =
     (case abs_db db k of
        Some x \<Rightarrow> if expired_at (time_now db) x then None
          else Some (fst x, entry_cost k (value (entry_of k db)))
      | None \<Rightarrow> None)"
    by (cases "map_of (data db) k")
      (auto simp: inspect_def now_def Let_def abs_db_def expired_at_def abs_entry_def deadline_of_def)
qed

lemma db_clear_inv: "db_inv db \<Longrightarrow> db_inv (db_clear db)"
  by (simp add: db_clear_def db_inv_def db_struct_defs)

lemma abs_clear: "abs_db (db_clear db) = Map.empty"
  by (simp add: db_clear_def abs_db_def fun_eq_iff)

lemma db_size_card: "db_inv db \<Longrightarrow> db_size db = card (dom (abs_db db))"
proof -
  assume "db_inv db"
  then have "distinct (map fst (data db))" by (simp add: db_inv_def db_struct_def keys_ok_def)
  then have "length (data db) = card (set (map fst (data db)))" by (metis distinct_card length_map)
  moreover have "dom (abs_db db) = set (map fst (data db))"
    by (auto simp: abs_db_def dom_def map_of_eq_None_iff image_iff)
  ultimately show ?thesis by (simp add: db_size_def)
qed

section \<open>The active expiration cycle\<close>

text \<open>What a cycle may do to the keyspace: remove \<open>n\<close> keys, all of them expired at time \<open>t\<close>.\<close>

definition reaps :: "int \<Rightarrow> nat \<Rightarrow> Database \<Rightarrow> Database \<Rightarrow> bool" where
  "reaps t n db db' \<longleftrightarrow>
     db_inv db' \<and> volatileKeyCount db = volatileKeyCount db' + n \<and> db_size db = db_size db' + n \<and>
     (\<forall>k. abs_db db' k = abs_db db k \<or>
        abs_db db' k = None \<and> (\<exists>x. abs_db db k = Some x \<and> expired_at t x))"

lemma reaps_refl [simp]: "db_inv db \<Longrightarrow> reaps t 0 db db"
  by (simp add: reaps_def)

lemma reaps_trans: "reaps t m db1 db2 \<Longrightarrow> reaps t n db2 db3 \<Longrightarrow> reaps t (m + n) db1 db3"
  unfolding reaps_def by (auto 0 3 simp del: split_paired_Ex) (metis option.distinct(1))+

lemma reaps_frame [simp]:
  "reaps t n (db\<lparr>draws := i\<rparr>) db' = reaps t n db db'"
  "reaps t n db (db'\<lparr>draws := i\<rparr>) = reaps t n db db'"
  "reaps t n db (count_stat u w db') = reaps t n db db'"
  by (simp_all add: reaps_def volatileKeyCount_def db_size_def)

lemma erase_reaps:
  assumes inv: "db_inv db" and i: "i < length (volatileKeys db)"
    and k: "k = volatileKeys db ! i" and late: "expiresAtMs (entry_of k db) \<le> t"
  shows "reaps t 1 db (erase k db)"
proof -
  obtain e where e: "map_of (data db) k = Some e" "volatileIndex e = Some i"
    using volatile_ok_lookup [OF db_structD(3) [OF db_invD [OF inv]] i] k by metis
  have "volatileKeys (erase k db) = volatileKeys (clearExpiry k db)" by (simp add: erase_def Let_def)
  then have v: "length (volatileKeys db) = length (volatileKeys (erase k db)) + 1"
    using e i by (simp add: clearExpiry_volatileKeys)
  have kc: "map_of (data (clearExpiry k db)) k \<noteq> None" by (simp add: clearExpiry_lookup [OF e(1)])
  have "distinct (map fst (data (clearExpiry k db)))"
    using inv by (simp add: db_inv_def db_struct_def keys_ok_def)
  moreover have "length (data (clearExpiry k db)) = length (data db)"
    using map_eq_imp_length_eq [OF clearExpiry_keys] .
  ultimately have "length (data db) = length (data (erase k db)) + 1"
    using kc length_delete_present [of "data (clearExpiry k db)" k] by (auto simp: erase_data)
  moreover have "expiresAtMs e \<noteq> NO_EXPIRY"
    using volatile_ok_None [OF db_structD(3) [OF db_invD [OF inv]] e(1)] e(2) by simp
  then have "expired_at t (abs_entry e)" using late e(1) by (simp add: live_in_table)
  ultimately show ?thesis
    using v erase_inv [OF inv e(1)] abs_db_Some [OF e(1)]
    by (simp add: reaps_def volatileKeyCount_def db_size_def abs_erase [OF e(1)] del: split_paired_Ex)
qed

lemma sample_loop_reaps:
  assumes "db_inv db" "sample_loop n t s x db = (s', x', db')"
  shows "\<exists>m. x' = x + m \<and> s' \<ge> s + m \<and> s' \<le> s + n \<and> reaps t m db db'"
  using assms
proof (induction n arbitrary: s x db)
  case 0
  then show ?case by auto
next
  case (Suc n)
  show ?case
  proof (cases "volatileKeys db = []")
    case True
    with Suc.prems show ?thesis by auto
  next
    case False
    let ?i = "random db (draws db) mod length (volatileKeys db)" and ?db1 = "db\<lparr>draws := Suc (draws db)\<rparr>"
    let ?k = "volatileKeys db ! ?i"
    have i: "?i < length (volatileKeys db)" using False by simp
    show ?thesis
    proof (cases "t \<ge> expiresAtMs (entry_of ?k db)")
      case True
      then have r: "reaps t 1 db (erase ?k ?db1)"
        using erase_reaps [of ?db1 ?i ?k t] Suc.prems(1) i by simp
      then have "db_inv (erase ?k ?db1)" by (simp add: reaps_def)
      moreover have "sample_loop n t (Suc s) (Suc x) (erase ?k ?db1) = (s', x', db')"
        using Suc.prems(2) False True by (simp add: pick_def Let_def)
      ultimately obtain m where "x' = Suc x + m" "s' \<ge> Suc s + m" "s' \<le> Suc s + n"
        "reaps t m (erase ?k ?db1) db'"
        using Suc.IH by blast
      with reaps_trans [OF r this(4)] show ?thesis by (intro exI [of _ "Suc m"]) simp
    next
      case late: False
      then have "sample_loop n t (Suc s) x ?db1 = (s', x', db')"
        using Suc.prems(2) False by (simp add: pick_def Let_def)
      then show ?thesis using Suc.IH [of ?db1 "Suc s" x] Suc.prems(1) by fastforce
    qed
  qed
qed

lemma expire_loop_reaps:
  assumes "db_inv db" "length (volatileKeys db) < fuel"
  shows "\<exists>m db'. expire_loop fuel n b p t r db = (Inr (r + m), db') \<and> reaps t m db db'"
  using assms
proof (induction fuel arbitrary: p r db)
  case 0
  then show ?case by simp
next
  case (Suc fuel)
  show ?case
  proof (cases "volatileKeys db = []")
    case True
    with Suc.prems show ?thesis by auto
  next
    case False
    obtain s x db1 where sl: "sample_loop (min n (length (volatileKeys db))) t 0 0 db = (s, x, db1)"
      by (metis prod_cases3)
    then have r1: "reaps t x db db1" and "x \<le> s" using sample_loop_reaps [OF Suc.prems(1) sl] by auto
    let ?db2 = "count_stat expiredKeys_update (of_nat x) db1"
    have r2: "reaps t x db ?db2" using r1 by simp
    show ?thesis
    proof (cases "x * 4 \<le> s \<or> b p")
      case True
      with False sl r2 show ?thesis by (auto simp: Let_def)
    next
      case go: False
      then have "0 < x" using \<open>x \<le> s\<close> by (cases x) auto
      with r2 Suc.prems(2) have "length (volatileKeys ?db2) < fuel" "db_inv ?db2"
        by (auto simp: reaps_def volatileKeyCount_def)
      then obtain m db' where "expire_loop fuel n b (Suc p) t (r + x) ?db2 = (Inr (r + x + m), db')"
        "reaps t m ?db2 db'"
        using Suc.IH by blast
      with False go sl reaps_trans [OF r2, of m db'] show ?thesis
        by (intro exI [of _ "x + m"] exI [of _ db']) (simp add: add.assoc)
    qed
  qed
qed

lemma activeExpireCycle_reaps:
  assumes "db_inv db"
  shows "\<exists>m db'. activeExpireCycle n b db = (Inr m, db') \<and> reaps (time_now db) m db db'"
proof -
  let ?db = "db\<lparr>readings := Suc (readings db)\<rparr>"
  have "reaps t m ?db db' = reaps t m db db'" for t m db'
    by (simp add: reaps_def volatileKeyCount_def db_size_def)
  with expire_loop_reaps [of ?db "Suc (length (volatileKeys db))" n b 0 "time_now db" 0] assms
  show ?thesis by (simp add: activeExpireCycle_def now_def del: expire_loop.simps)
qed

end
