(* ===== verification/FKV_Database_Evict.thy ===== *)
theory FKV_Database_Evict
  imports FKV_Database_Expiry
begin

text \<open>
  Memory and eviction. The total the class keeps is the sum of the costs of the keys in the LRU
  list; \<open>evictIfNeeded\<close> ends after at most one iteration per key, and under \<open>allkeys-lru\<close> it
  removes the shortest run of least recently used keys that brings the total under the limit,
  in order, and nothing else.
\<close>

section \<open>The total as a sum over the keys\<close>

definition keys_cost :: "Database \<Rightarrow> bytes list \<Rightarrow> size_t" where
  "keys_cost db ks = sum_list (map (\<lambda>k. entry_cost k (value (entry_of k db))) ks)"

lemma alist_sum_keys:
  assumes "distinct (map fst al)"
  shows "alist_sum f al = sum_list (map (\<lambda>k. f (k, the (map_of al k))) (map fst al))"
proof -
  have "map f al = map (\<lambda>p. f (fst p, the (map_of al (fst p)))) al"
    using assms by (intro map_cong refl) (metis map_of_is_SomeI option.sel prod.collapse)
  then have "alist_sum f al = alist_sum (\<lambda>p. f (fst p, the (map_of al (fst p)))) al" by (rule arg_cong)
  then show ?thesis by (simp add: o_def)
qed

lemma keysByRecency_props:
  assumes "db_struct db"
  shows "distinct (keysByRecency db)" "set (keysByRecency db) = fst ` set (data db)"
    "k \<in> set (keysByRecency db) \<longleftrightarrow> (\<exists>e. map_of (data db) k = Some e)"
  using assms by (auto simp: keysByRecency_def db_struct_def lru_ok_def in_fst_map_of [symmetric])

lemma memoryUsed_sum:
  assumes st: "db_struct db"
  shows "memoryUsed db = keys_cost db (keysByRecency db)"
proof -
  let ?c = "\<lambda>k. entry_cost k (value (entry_of k db))"
  have d: "distinct (map fst (data db))" using st by (simp add: db_struct_def keys_ok_def)
  have m: "memory (entry_of k db) = ?c k" if "k \<in> fst ` set (data db)" for k
    using that st by (auto simp: in_fst_map_of db_struct_def memory_ok_def)
  have "memoryUsed db = sum_list (map (\<lambda>k. memory (entry_of k db)) (map fst (data db)))"
    using alist_sum_keys [OF d, of "\<lambda>p. memory (snd p)"] st
    by (simp add: db_struct_def memory_ok_def entry_of_def)
  also have "\<dots> = sum_list (map ?c (map fst (data db)))"
    using m by (intro arg_cong [where f = sum_list] map_cong) auto
  also have "\<dots> = sum_list (map ?c (keysByRecency db))"
  proof -
    have "mset (map fst (data db)) = mset (keysByRecency db)"
      using d keysByRecency_props(1,2) [OF st]
      by (subst set_eq_iff_mset_eq_distinct [symmetric]) simp_all
    then have "mset (map ?c (map fst (data db))) = mset (map ?c (keysByRecency db))"
      by (simp only: mset_map)
    then show ?thesis by (simp only: sum_mset_sum_list [symmetric])
  qed
  finally show ?thesis by (simp add: keys_cost_def)
qed

section \<open>Eviction\<close>

lemma erase_keys_cost:
  assumes "map_of (data db) k = Some e" "k \<notin> set ks"
  shows "keys_cost (erase k db) ks = keys_cost db ks"
proof -
  have "value (entry_of k' (erase k db)) = value (entry_of k' db)" if "k' \<noteq> k" for k'
    using erase_lookup_fields [OF assms(1), of k'] that
    by (cases "map_of (data db) k'") (auto simp: entry_of_def)
  with assms(2) show ?thesis
    unfolding keys_cost_def by (intro arg_cong [where f = sum_list] map_cong) (auto, metis)
qed

lemma erase_last:
  assumes inv: "db_inv db" and ks: "keysByRecency db = ks @ [k]"
  obtains e where "map_of (data db) k = Some e" "keysByRecency (erase k db) = ks" "k \<notin> set ks"
proof -
  note p = keysByRecency_props [OF db_invD [OF inv]]
  obtain e where e: "map_of (data db) k = Some e" using p(3) [of k] ks by auto
  have "k \<notin> set ks" using p(1) ks by simp
  moreover from this have "filter (\<lambda>x. x \<noteq> k) (ks @ [k]) = ks" by (auto simp: filter_id_conv)
  then have "keysByRecency (erase k db) = ks"
    using erase_lru_keys [OF db_invD [OF inv] e] ks by (simp add: keysByRecency_def)
  ultimately show thesis using that e by blast
qed

text \<open>
  The outcome of the loop: it kept \<open>keep\<close> and evicted \<open>gone\<close>, last key first.
\<close>

definition evicts :: "Database \<Rightarrow> bytes list \<Rightarrow> bytes list \<Rightarrow> Database \<Rightarrow> bool" where
  "evicts db keep gone db' \<longleftrightarrow>
     db_inv db' \<and> keysByRecency db = keep @ gone \<and> keysByRecency db' = keep \<and>
     abs_db db' = abs_db db |` set keep \<and> memoryUsed db' = keys_cost db keep \<and>
     memoryLimit db' = memoryLimit db \<and> policy db' = policy db \<and>
     (\<forall>i < length gone. memoryLimit db < keys_cost db (keep @ take (Suc i) gone))"

lemma abs_restrict_keys: "db_inv db \<Longrightarrow> abs_db db |` set (keysByRecency db) = abs_db db"
  using keysByRecency_props(3) [of db]
  by (auto simp: db_inv_def restrict_map_def abs_db_def fun_eq_iff)

lemma evicts_refl: "db_inv db \<Longrightarrow> evicts db (keysByRecency db) [] db"
  by (simp add: evicts_def abs_restrict_keys memoryUsed_sum db_invD)

lemma evicts_step:
  assumes inv: "db_inv db" and ks: "keysByRecency db = ks @ [k]"
    and over: "memoryLimit db < memoryUsed db"
    and rest: "evicts (count_stat u n (erase k db)) keep gone db'"
  shows "evicts db keep (gone @ [k]) db'"
proof -
  obtain e where e: "map_of (data db) k = Some e" "keysByRecency (erase k db) = ks" "k \<notin> set ks"
    using erase_last [OF inv ks] .
  let ?db = "count_stat u n (erase k db)"
  have eq: "keysByRecency ?db = ks" "keys_cost ?db = keys_cost (erase k db)"
    using e(2) by (simp_all add: keysByRecency_def keys_cost_def entry_of_def fun_eq_iff)
  then have kg: "ks = keep @ gone" using rest by (simp add: evicts_def)
  have c: "keys_cost ?db xs = keys_cost db xs" if "set xs \<subseteq> set ks" for xs
    using that e(3) eq(2) erase_keys_cost [OF e(1), of xs] by auto
  have kk: "k \<notin> set keep" using e(3) kg by simp
  then have "abs_db db' = abs_db db |` set keep"
    using rest abs_erase [OF e(1)] by (auto simp: evicts_def restrict_map_def fun_eq_iff)
  moreover have "memoryUsed db' = keys_cost db keep"
    using rest c [of keep] kg by (simp add: evicts_def)
  moreover have "memoryLimit db < keys_cost db (keep @ take (Suc i) (gone @ [k]))"
    if "i < length (gone @ [k])" for i
  proof (cases "i < length gone")
    case True
    then have "set (keep @ take (Suc i) gone) \<subseteq> set ks" using kg set_take_subset by fastforce
    with True rest c show ?thesis by (auto simp: evicts_def)
  next
    case False
    with that over memoryUsed_sum [OF db_invD [OF inv]] ks kg show ?thesis by simp
  qed
  ultimately show ?thesis using rest ks kg by (simp add: evicts_def)
qed

lemma evict_loop_spec:
  assumes "db_inv db" "length (lru db) < fuel" "policy db = AllKeysLru"
  shows "\<exists>keep gone db'. evict_loop fuel ev db = (Inr True, ev @ rev gone, db') \<and>
    evicts db keep gone db' \<and> memoryUsed db' \<le> memoryLimit db"
  using assms
proof (induction fuel arbitrary: ev db)
  case 0
  then show ?case by simp
next
  case (Suc fuel)
  show ?case
  proof (cases "memoryLimit db < memoryUsed db")
    case False
    then show ?thesis using evicts_refl [OF Suc.prems(1)]
      by (intro exI [of _ "keysByRecency db"] exI [of _ "[]"] exI [of _ db]) auto
  next
    case True
    have "keysByRecency db \<noteq> []"
      using True memoryUsed_sum [OF db_invD [OF Suc.prems(1)]] by (auto simp: keys_cost_def)
    then obtain ks k where ks: "keysByRecency db = ks @ [k]" by (metis rev_exhaust)
    then obtain e where e: "map_of (data db) k = Some e"
      using erase_last [OF Suc.prems(1)] by blast
    have last: "lru db \<noteq> []" "snd (last (lru db)) = k"
      using ks by (auto simp: keysByRecency_def) (metis last_map last_snoc Nil_is_map_conv snoc_eq_iff_butlast)
    let ?db = "count_stat evictedKeys_update 1 (erase k db)"
    have "db_inv ?db" "length (lru ?db) < fuel" "policy ?db = AllKeysLru"
      using Suc.prems erase_inv [OF _ e] erase_length_lru [OF _ e] by (auto simp: db_invD)
    then obtain keep gone db' where "evict_loop fuel (ev @ [k]) ?db = (Inr True, (ev @ [k]) @ rev gone, db')"
      "evicts ?db keep gone db'" "memoryUsed db' \<le> memoryLimit ?db"
      using Suc.IH by blast
    with True Suc.prems(3) last evicts_step [OF Suc.prems(1) ks True, of evictedKeys_update 1 keep gone db'] show ?thesis
      by (intro exI [of _ keep] exI [of _ "gone @ [k]"] exI [of _ db']) (auto simp: Let_def)
  qed
qed

lemma evictIfNeeded_spec:
  assumes "db_inv db" "policy db = AllKeysLru" "memoryLimit db \<noteq> 0"
  shows "\<exists>keep gone db'. evictIfNeeded db = (Inr True, rev gone, db') \<and>
    evicts db keep gone db' \<and> memoryUsed db' \<le> memoryLimit db"
  using evict_loop_spec [of db "Suc (length (lru db))" "[]"] assms by (auto simp: evictIfNeeded_def)

lemma evictIfNeeded_noop:
  assumes "policy db = NoEviction \<or> memoryLimit db = 0"
  shows "evictIfNeeded db = (Inr (memoryLimit db = 0 \<or> memoryUsed db \<le> memoryLimit db), [], db)"
  using assms by (auto simp: evictIfNeeded_def)

lemma evictIfNeeded_inv:
  assumes "db_inv db" "evictIfNeeded db = (r, ev, db')"
  shows "db_inv db'" "r \<noteq> Inl x" "\<exists>ok. r = Inr ok" "policy db' = policy db" "memoryLimit db' = memoryLimit db"
proof -
  have "db_inv db' \<and> (\<exists>ok. r = Inr ok) \<and> policy db' = policy db \<and> memoryLimit db' = memoryLimit db"
  proof (cases "policy db = NoEviction \<or> memoryLimit db = 0")
    case True
    with assms evictIfNeeded_noop show ?thesis by auto
  next
    case False
    then have "policy db = AllKeysLru" "memoryLimit db \<noteq> 0" by (auto intro: EvictionPolicy.exhaust)
    with evictIfNeeded_spec [OF assms(1)] assms(2) show ?thesis by (auto simp: evicts_def)
  qed
  then show "db_inv db'" "r \<noteq> Inl x" "\<exists>ok. r = Inr ok" "policy db' = policy db" "memoryLimit db' = memoryLimit db"
    by auto
qed

end
