(* ===== verification/FKV_Commands_Inv.thy ===== *)
theory FKV_Commands_Inv
  imports FKV_Commands FKV_Database_Evict
begin

text \<open>
  Safety of the command layer: every handler keeps the invariant of the database and never
  reaches undefined behaviour or a loop that does not end, given the argument counts that
  \<open>execute\<close> has checked. Hence \<open>execute\<close> always answers, whatever the client sends, and a
  processor keeps its invariant through any sequence of commands.
\<close>

section \<open>Safe outcomes\<close>

definition defined_result :: "exn + 'a \<Rightarrow> bool" where
  "defined_result r \<longleftrightarrow> (case r of Inr _ \<Rightarrow> True | Inl e \<Rightarrow> e \<noteq> Undefined \<and> e \<noteq> Diverged)"

definition safe :: "(exn + 'a) \<times> CommandProcessor \<Rightarrow> bool" where
  "safe rp \<longleftrightarrow> db_inv (database (snd rp)) \<and> defined_result (fst rp)"

lemma defined_result_simps [simp]:
  "defined_result (Inr x)" "defined_result (Inl e) \<longleftrightarrow> e \<noteq> Undefined \<and> e \<noteq> Diverged"
  by (simp_all add: defined_result_def)

lemma safe_Inr [simp]: "safe (Inr x, p) \<longleftrightarrow> db_inv (database p)"
  by (simp add: safe_def)

lemma safe_and_then:
  assumes "safe rp" "\<And>x p. db_inv (database p) \<Longrightarrow> safe (f x p)"
  shows "safe (and_then rp f)"
  using assms by (cases rp; cases "fst rp") (auto simp: and_then_def safe_def)

lemma db_call_inv: "db_inv (snd (f (database p))) \<Longrightarrow> db_inv (database (snd (db_call f p)))"
  by (auto simp: db_call_def split: prod.splits)

lemma db_call_cases:
  obtains r db where "f (database p) = (r, db)" "db_call f p = (r, p\<lparr>database := db\<rparr>)"
  by (cases "f (database p)") (simp add: db_call_def)

lemma safe_db_call:
  assumes "refines (f (database p)) a" "defined_result (fst a)"
  shows "safe (db_call f p)"
  using assms by (auto simp: safe_def refines_def db_call_def split: prod.splits)

lemma propagate_frame [simp]:
  "database (propagate args p) = database p" "serverStats (propagate args p) = serverStats p"
  by (simp_all add: propagate_def split: option.splits)

lemma propagateExpiry_frame [simp]: "database (propagateExpiry k t p) = database p"
  by (simp add: propagateExpiry_def)

lemma propagate_dels_frame [simp]: "database (propagate_dels ks p) = database p"
  unfolding propagate_dels_def by (induction ks arbitrary: p) simp_all

section \<open>The specifications throw exceptions only\<close>

lemma as_defined:
  "defined_result (as_string v)" "defined_result (as_list v)" "defined_result (as_hash v)" "defined_result (as_set v)"
  by (cases v; simp)+

lemma defined_map_sum [simp]: "defined_result (map_sum id f r) = defined_result r"
  by (cases r) simp_all

lemma spec_read_defined: "(\<And>v. defined_result (as v)) \<Longrightarrow> defined_result (fst (spec_read as d f t k m))"
  by (simp add: spec_read_def Let_def split: option.splits prod.splits)

lemma spec_upsert_defined: "(\<And>v. defined_result (as v)) \<Longrightarrow> defined_result (fst (spec_upsert as v0 f t k m))"
  unfolding spec_upsert_def Let_def by (simp split: prod.splits sum.splits) (metis defined_result_simps(2))

lemma spec_shrink_defined: "(\<And>v. defined_result (as v)) \<Longrightarrow> defined_result (fst (spec_shrink as d f t k m))"
  unfolding spec_shrink_def Let_def
  by (simp split: option.splits prod.splits sum.splits) (metis defined_result_simps(2))

lemma spec_incr_defined: "defined_result (fst (spec_incr n t k m))"
  unfolding spec_incr_def Let_def
  by (simp split: option.splits prod.splits sum.splits) (metis as_defined(1) defined_result_simps(2))

lemmas spec_defined = spec_read_defined [OF as_defined(1)] spec_read_defined [OF as_defined(2)]
  spec_read_defined [OF as_defined(3)] spec_read_defined [OF as_defined(4)]
  spec_upsert_defined [OF as_defined(1)] spec_upsert_defined [OF as_defined(2)]
  spec_upsert_defined [OF as_defined(3)] spec_upsert_defined [OF as_defined(4)]
  spec_shrink_defined [OF as_defined(2)] spec_shrink_defined [OF as_defined(3)]
  spec_shrink_defined [OF as_defined(4)] spec_incr_defined

lemmas read_specs = spec_get_def spec_strlen_def spec_range_def spec_index_def spec_llen_def
  spec_hget_def spec_hgetall_def spec_hlen_def spec_hexists_def spec_smembers_def
  spec_sismember_def spec_scard_def

lemmas update_specs = spec_append_def spec_push_def spec_hset_def spec_sadd_def
  spec_pop_def spec_hdel_def spec_srem_def

lemmas op_specs = read_specs update_specs

section \<open>Handlers\<close>

text \<open>Handlers that call one operation that may throw, and shape its reply.\<close>

lemma safe_call_then:
  assumes "refines (f (database p)) a" "defined_result (fst a)"
    "\<And>x p. db_inv (database p) \<Longrightarrow> safe (g x p)"
  shows "safe (and_then (db_call f p) g)"
  using assms by (intro safe_and_then safe_db_call)

text \<open>Handlers that call an operation that does not throw.\<close>

lemma refines_inv: "refines c a \<Longrightarrow> db_inv (snd c)"
  by (simp add: refines_def)

lemma del_exists_inv:
  "db_del k db = (r, db1) \<Longrightarrow> db_inv db \<Longrightarrow> db_inv db1"
  "db_exists k db = (r, db1) \<Longrightarrow> db_inv db \<Longrightarrow> db_inv db1"
  using refines_inv [OF db_del_refines [of db k]] refines_inv [OF db_exists_refines [of db k]] by auto

lemma del_loop_inv: "db_inv db \<Longrightarrow> db_inv (snd (del_loop ks n db))"
  by (induction ks arbitrary: n db) (auto simp: Let_def split: prod.splits dest: del_exists_inv)

lemma exists_loop_inv: "db_inv db \<Longrightarrow> db_inv (snd (exists_loop ks n db))"
  by (induction ks arbitrary: n db) (auto simp: Let_def split: prod.splits dest: del_exists_inv)

lemma mset_loop_inv: "db_inv db \<Longrightarrow> db_inv (mset_loop kvs db)"
  by (induction kvs db rule: mset_loop.induct) (simp_all add: db_set_refines)

lemma map_sum_Inl: "Inl e = map_sum id f r \<longleftrightarrow> r = Inl e"
  by (cases r) auto

lemma as_string_error: "as_string v = Inl e \<Longrightarrow> e = WrongTypeError"
  by (cases v) auto

lemma db_get_error:
  assumes "db_inv db" "db_get k db = (Inl e, db1)"
  shows "e = WrongTypeError"
proof -
  have "Inl e = fst (spec_get (time_now db) k (abs_db db))"
    using db_get_refines [OF assms(1), of k] assms(2) by (simp add: refines_def)
  then show ?thesis
    by (auto simp: spec_get_def spec_read_def Let_def map_sum_Inl as_string_error split: option.splits)
qed

lemma mget_loop_total:
  assumes "db_inv db"
  shows "\<exists>vs' db'. mget_loop ks vs db = (Inr vs', db') \<and> db_inv db' \<and> length vs' = length vs + length ks"
  using assms
proof (induction ks arbitrary: vs db)
  case Nil
  then show ?case by simp
next
  case (Cons k ks)
  obtain r db1 where g: "db_get k db = (r, db1)" by (cases "db_get k db")
  then have inv1: "db_inv db1" using refines_inv [OF db_get_refines [OF Cons.prems, of k]] by simp
  show ?case
  proof (cases r)
    case (Inl e)
    with g have "e = WrongTypeError" using db_get_error [OF Cons.prems] by simp
    with Inl g Cons.IH [OF inv1, of "vs @ [respNull]"] show ?thesis by auto
  next
    case (Inr v)
    with g Cons.IH [OF inv1, of "vs @ [nullableBulk v]"] show ?thesis by auto
  qed
qed

lemma now_inv [simp]: "db_inv (snd (now db)) = db_inv db"
  by (simp add: now_def)

lemma expire_when_inv: "db_inv (database p) \<Longrightarrow> db_inv (database (snd (expire_when a u b p)))"
  by (auto simp: expire_when_def db_call_def now_def split: option.splits)

lemma case_when_inv:
  assumes "db_inv (database (snd x))" "\<And>w p. db_inv (database p) \<Longrightarrow> db_inv (database (snd (f w p)))"
  shows "db_inv (database (snd (case x of (None, p) \<Rightarrow> (Inl e, p) | (Some w, p) \<Rightarrow> f w p)))"
  using assms by (cases x; cases "fst x") auto

lemma set_options_inv: "db_inv (database p) \<Longrightarrow> db_inv (database (snd (set_options as opts p)))"
proof (induction as arbitrary: opts p rule: length_induct)
  case (1 as)
  show ?case
  proof (cases as)
    case Nil
    with 1 show ?thesis by simp
  next
    case (Cons a rest)
    then have rest: "db_inv (database (snd (set_options rest o1 p)))" for o1 using 1 by simp
    show ?thesis
    proof (cases rest)
      case Nil
      with Cons rest 1(2) show ?thesis by (simp add: Let_def)
    next
      case r: (Cons v rest')
      have "db_inv (database (snd (set_options rest' o1 p1)))" if "db_inv (database p1)" for o1 p1
        using that 1(1) Cons r by simp
      then have "db_inv (database (snd (case expire_when n u False p of
          (None, p1) \<Rightarrow> (Inl e, p1) | (Some w, p1) \<Rightarrow> set_options rest' (opts\<lparr>deadline := Some w\<rparr>) p1)))" for n u e
        by (intro case_when_inv expire_when_inv [OF 1(2)])
      with Cons r rest 1(2) show ?thesis
        by (auto simp: Let_def split: option.split)
    qed
  qed
qed

lemma evict_and_log_safe:
  assumes "db_inv (database p)"
  shows "safe (evict_and_log p)" "\<exists>ok p1. evict_and_log p = (Inr ok, p1)"
proof -
  obtain r ev db where e: "evictIfNeeded (database p) = (r, ev, db)" by (metis prod_cases3)
  from evictIfNeeded_inv [OF assms this] e
  show "safe (evict_and_log p)" "\<exists>ok p1. evict_and_log p = (Inr ok, p1)"
    by (auto simp: evict_and_log_def safe_def)
qed

lemma config_inv [simp]:
  "db_inv (setMaxMemory n db) = db_inv db" "db_inv (setEvictionPolicy pol db) = db_inv db"
  unfolding setMaxMemory_def setEvictionPolicy_def by (rule db_struct_same; simp)+

lemma server_handlers_safe [handler_safe]:
  assumes "db_inv (database p)"
  shows "safe (cmd_ping args p)" "safe (cmd_echo args p)" "safe (cmd_select args p)"
    "safe (cmd_commandInfo args p)" "safe (cmd_dbsize args p)" "safe (cmd_flushall args p)"
    "safe (cmd_info args p)" "safe (cmd_memory args p)"
  using assms
  by (auto simp: cmd_ping_def cmd_echo_def cmd_select_def cmd_commandInfo_def cmd_dbsize_def
      cmd_flushall_def cmd_info_def cmd_memory_def db_clear_inv db_call_def now_def Let_def
      split: prod.splits dest: inspect_abs(1) [of _ "args ! 2"])

lemma cmd_config_safe [handler_safe]:
  assumes "db_inv (database p)"
  shows "safe (cmd_config args p)"
  unfolding cmd_config_def Let_def
  using assms
  by (auto intro!: safe_and_then evict_and_log_safe(1) split: option.splits)

lemma keyspace_handlers_safe [handler_safe]:
  assumes "db_inv (database p)"
  shows "safe (cmd_del args p)" "safe (cmd_exists args p)" "safe (cmd_type args p)"
    "safe (cmd_keys args p)" "safe (cmd_ttl args p)" "safe (cmd_pttl args p)" "safe (cmd_persist args p)"
proof -
  note db = del_loop_inv [OF assms, of "drop 1 args" 0] exists_loop_inv [OF assms, of "drop 1 args" 0]
    refines_inv [OF db_type_refines [OF assms, of "args ! 1"]]
    refines_inv [OF db_keys_spec [OF assms, of "args ! 1"]]
    refines_inv [OF ttlMs_value [OF assms, of "args ! 1"]]
    refines_inv [OF db_persist_refines [OF assms, of "args ! 1"]]
  show "safe (cmd_del args p)" "safe (cmd_exists args p)" "safe (cmd_type args p)" "safe (cmd_keys args p)"
    "safe (cmd_ttl args p)" "safe (cmd_pttl args p)" "safe (cmd_persist args p)"
    using db
    by (auto simp: cmd_del_def cmd_exists_def cmd_type_def cmd_keys_def cmd_ttl_def cmd_pttl_def
        cmd_persist_def ttl_def db_call_def Let_def split: prod.splits)
qed

lemma expireGeneric_safe:
  assumes "db_inv (database p)"
  shows "safe (expireGeneric args u b p)"
proof (cases "cmd_parseInteger (args ! 2)")
  case None
  with assms show ?thesis by (simp add: expireGeneric_def)
next
  case (Some amount)
  obtain d p1 where w: "expire_when amount u b p = (d, p1)" by (cases "expire_when amount u b p")
  then have 1: "db_inv (database p1)" using expire_when_inv [OF assms, of amount u b] by simp
  show ?thesis
  proof (cases d)
    case None
    with Some w 1 show ?thesis by (simp add: expireGeneric_def)
  next
    case d: (Some deadline)
    obtain ok db2 where e: "expireAtMs_op (args ! 1) deadline (database p1) = (ok, db2)"
      by (cases "expireAtMs_op (args ! 1) deadline (database p1)")
    then have 2: "db_inv db2" using refines_inv [OF expireAtMs_refines [OF 1, of "args ! 1" deadline]] by simp
    obtain present db3 where x: "db_exists (args ! 1) db2 = (present, db3)" by (cases "db_exists (args ! 1) db2")
    then have "db_inv db3" using refines_inv [OF db_exists_refines [OF 2, of "args ! 1"]] by simp
    with Some w d e x 2 show ?thesis by (simp add: expireGeneric_def db_call_def Let_def)
  qed
qed

lemma expire_handlers_safe [handler_safe]:
  assumes "db_inv (database p)"
  shows "safe (cmd_expire args p)" "safe (cmd_pexpire args p)" "safe (cmd_expireat args p)" "safe (cmd_pexpireat args p)"
  by (simp_all add: cmd_expire_def cmd_pexpire_def cmd_expireat_def cmd_pexpireat_def expireGeneric_safe [OF assms])

lemma cmd_set_safe [handler_safe]:
  assumes "db_inv (database p)"
  shows "safe (cmd_set args p)"
proof -
  let ?o = "\<lparr>onlyIfMissing = False, onlyIfPresent = False, deadline = None\<rparr>"
  obtain r p1 where o: "set_options (drop 3 args) ?o p = (r, p1)"
    by (cases "set_options (drop 3 args) ?o p")
  then have 1: "db_inv (database p1)" using set_options_inv [OF assms, of "drop 3 args" ?o] by simp
  obtain present db2 where x: "db_exists (args ! 1) (database p1) = (present, db2)"
    by (cases "db_exists (args ! 1) (database p1)")
  then have 2: "db_inv db2" using refines_inv [OF db_exists_refines [OF 1, of "args ! 1"]] by simp
  then have 3: "db_inv (db_set (args ! 1) (args ! 2) db2)" using db_set_refines by blast
  have 4: "db_inv (snd (expireAtMs_op (args ! 1) d (db_set (args ! 1) (args ! 2) db2)))" for d
    using refines_inv [OF expireAtMs_refines [OF 3]] .
  show ?thesis
    using o 1 x 2 3 4
    by (auto simp: cmd_set_def db_call_def Let_def split: sum.splits option.splits prod.splits) (metis snd_conv)+
qed

lemma string_handlers_safe [handler_safe]:
  assumes "db_inv (database p)"
  shows "safe (cmd_get args p)" "safe (cmd_mset args p)" "safe (cmd_mget args p)" "safe (cmd_incr args p)"
    "safe (cmd_decr args p)" "safe (cmd_incrby args p)" "safe (cmd_decrby args p)"
    "safe (cmd_append args p)" "safe (cmd_strlen args p)"
proof -
  have i: "safe (and_then (db_call (incrementBy k n) p) (\<lambda>r p1. (Inr (respInteger r), propagate args p1)))" for k n
    by (rule safe_call_then, rule incrementBy_refines [OF assms]) (simp_all add: spec_incr_defined)
  then show "safe (cmd_incr args p)" "safe (cmd_decr args p)" "safe (cmd_incrby args p)" "safe (cmd_decrby args p)"
    using assms by (auto simp: cmd_incr_def cmd_decr_def cmd_incrby_def cmd_decrby_def split: option.splits)
  show "safe (cmd_mset args p)" using assms by (simp add: cmd_mset_def mset_loop_inv Let_def)
  show "safe (cmd_mget args p)"
    using mget_loop_total [OF assms, of "drop 1 args" "[]"]
    by (auto simp: cmd_mget_def db_call_def and_then_def)
  show "safe (cmd_get args p)" "safe (cmd_append args p)" "safe (cmd_strlen args p)"
    unfolding cmd_get_def cmd_append_def cmd_strlen_def
    by (rule safe_call_then,
        rule db_get_refines [OF assms] db_append_refines [OF assms] stringLength_refines [OF assms],
        simp add: op_specs spec_defined, simp)+
qed

lemma list_handlers_safe [handler_safe]:
  assumes "db_inv (database p)"
  shows "2 < length args \<Longrightarrow> safe (cmd_lpush args p)" "2 < length args \<Longrightarrow> safe (cmd_rpush args p)"
    "safe (cmd_lpop args p)" "safe (cmd_rpop args p)" "safe (cmd_lrange args p)" "safe (cmd_llen args p)"
    "safe (cmd_lindex args p)"
proof -
  show "safe (cmd_lpush args p)" "safe (cmd_rpush args p)" if "2 < length args"
    using that unfolding cmd_lpush_def cmd_rpush_def
    by - (rule safe_call_then, rule listPush_refines [OF assms], simp, simp add: op_specs spec_defined, simp)+
  show "safe (cmd_lpop args p)" "safe (cmd_rpop args p)" "safe (cmd_llen args p)"
    unfolding cmd_lpop_def cmd_rpop_def cmd_llen_def
    by (rule safe_call_then, rule listPop_refines [OF assms] listLength_refines [OF assms],
        simp add: op_specs spec_defined, simp)+
  have r: "safe (and_then (db_call (listRange k a b) p) (\<lambda>l p1. (Inr (respArray l), p1)))" for k a b
    by (rule safe_call_then, rule listRange_refines [OF assms]) (simp_all add: op_specs spec_defined)
  have x: "safe (and_then (db_call (listIndex k a) p) (\<lambda>v p1. (Inr (nullableBulk v), p1)))" for k a
    by (rule safe_call_then, rule listIndex_refines [OF assms]) (simp_all add: op_specs spec_defined)
  show "safe (cmd_lrange args p)" "safe (cmd_lindex args p)"
    using assms r x by (auto simp: cmd_lrange_def cmd_lindex_def split: option.splits)
qed

lemma pairs_nonempty: "2 \<le> length xs \<Longrightarrow> pairs xs \<noteq> []"
  by (cases xs rule: pairs.cases) auto

lemma hash_handlers_safe [handler_safe]:
  assumes "db_inv (database p)"
  shows "3 < length args \<Longrightarrow> safe (cmd_hset args p)" "safe (cmd_hget args p)" "safe (cmd_hdel args p)"
    "safe (cmd_hgetall args p)" "safe (cmd_hlen args p)" "safe (cmd_hexists args p)"
    "safe (cmd_hkeys args p)" "safe (cmd_hvals args p)"
proof -
  show "safe (cmd_hset args p)" if "3 < length args"
  proof -
    have "pairs (drop 2 args) \<noteq> []" using that by (intro pairs_nonempty) simp
    then have "safe (and_then (db_call (hashSet (args ! 1) (pairs (drop 2 args))) p)
        (\<lambda>n p1. (Inr (respInteger (int n)), propagate args p1)))"
      by - (rule safe_call_then, rule hashSet_refines [OF assms], simp_all add: op_specs spec_defined)
    with assms show ?thesis by (simp add: cmd_hset_def)
  qed
  show "safe (cmd_hget args p)" "safe (cmd_hdel args p)" "safe (cmd_hgetall args p)" "safe (cmd_hlen args p)"
    "safe (cmd_hexists args p)" "safe (cmd_hkeys args p)" "safe (cmd_hvals args p)"
    unfolding cmd_hget_def cmd_hdel_def cmd_hgetall_def cmd_hlen_def cmd_hexists_def cmd_hkeys_def cmd_hvals_def
    by (rule safe_call_then,
        rule hashGet_refines [OF assms] hashDelete_refines [OF assms] hashGetAll_refines [OF assms]
          hashLength_refines [OF assms] hashExists_refines [OF assms],
        simp add: op_specs spec_defined, simp)+
qed

lemma set_handlers_safe [handler_safe]:
  assumes "db_inv (database p)"
  shows "2 < length args \<Longrightarrow> safe (cmd_sadd args p)" "safe (cmd_srem args p)" "safe (cmd_smembers args p)"
    "safe (cmd_sismember args p)" "safe (cmd_scard args p)"
proof -
  show "safe (cmd_sadd args p)" if "2 < length args"
    using that unfolding cmd_sadd_def
    by - (rule safe_call_then, rule setAdd_refines [OF assms], simp_all add: op_specs spec_defined)
  show "safe (cmd_srem args p)" "safe (cmd_smembers args p)" "safe (cmd_sismember args p)" "safe (cmd_scard args p)"
    unfolding cmd_srem_def cmd_smembers_def cmd_sismember_def cmd_scard_def
    by (rule safe_call_then,
        rule setRemove_refines [OF assms] setMembers_refines [OF assms] setIsMember_refines [OF assms]
          setCardinality_refines [OF assms],
        simp add: op_specs spec_defined, simp)+
qed

section \<open>The dispatcher\<close>

lemma table_safe:
  "\<forall>(name, spec) \<in> set commandTable. \<forall>args p. db_inv (database p) \<longrightarrow> \<not> arity_error (arity spec) args \<longrightarrow>
     safe (spec_handler spec args p)"
  by (simp add: commandTable_def command_spec_def arity_error_def handler_safe)

lemma call_handler_total:
  assumes "map_of commandTable name = Some spec" "db_inv (database p)" "\<not> arity_error (arity spec) args"
  shows "\<exists>reply p1. call_handler spec args p = (Inr reply, p1) \<and> db_inv (database p1)"
proof -
  have "safe (spec_handler spec args p)"
    using table_safe map_of_SomeD [OF assms(1)] assms(2,3) by blast
  then show ?thesis
    by (cases "spec_handler spec args p"; cases "fst (spec_handler spec args p)")
      (auto simp: call_handler_def catch_reply_def safe_def split: exn.splits)
qed

lemma execute_total:
  assumes "db_inv (database p)"
  shows "\<exists>reply p'. execute args p = (Inr reply, p') \<and> db_inv (database p')"
proof -
  let ?p1 = "p\<lparr>serverStats := (serverStats p)\<lparr>totalCommands := totalCommands (serverStats p) + 1\<rparr>\<rparr>"
  have 1: "db_inv (database ?p1)" using assms by simp
  have w: "\<exists>reply p'. run_write spec args ?p1 = (Inr reply, p') \<and> db_inv (database p')"
    if "map_of commandTable name = Some spec" "\<not> arity_error (arity spec) args" for name spec
  proof -
    obtain ok p2 where e: "evict_and_log ?p1 = (Inr ok, p2)" using evict_and_log_safe(2) [OF 1] by blast
    then have "db_inv (database p2)" using evict_and_log_safe(1) [OF 1] by (simp add: safe_def)
    with e 1 call_handler_total [OF that(1) this that(2)] show ?thesis
      by (auto simp: run_write_def and_then_def)
  qed
  show ?thesis
    using w call_handler_total [OF _ 1, of _ _ args] assms
    by (auto simp: execute_def Let_def split: option.splits)
qed

interpretation processor: invariant_machine execute "\<lambda>p :: CommandProcessor. db_inv (database p)"
proof
  fix p :: CommandProcessor and i assume "db_inv (database p)"
  then show "db_inv (database (snd (execute i p)))" using execute_total [of p i] by auto
qed

end
