(* ===== verification/FKV_Live.thy ===== *)
theory FKV_Live
  imports FKV_Commands_Inv
begin

text \<open>
  The keyspace as a client sees it at one instant: the keys whose deadline has not come. At a
  fixed time every operation is a function of this live keyspace alone; the expired keys that
  are still in the table, the recency order, the memory account and the counters do not matter.
  This is what makes replaying a log meaningful: the replayed database differs from the original
  in all of these.
\<close>

section \<open>The live keyspace\<close>

definition live :: "int \<Rightarrow> astore \<Rightarrow> astore" where
  "live t m = (\<lambda>k. case m k of Some x \<Rightarrow> if expired_at t x then None else Some x | None \<Rightarrow> None)"

lemma purge_live: "purge t k m k = live t m k"
  by (simp add: purge_def live_def split: option.splits)

lemma live_purge [simp]: "live t (purge t k m) = live t m"
  by (auto simp: purge_def live_def fun_eq_iff split: option.splits)

lemma purge_of_live [simp]: "purge t k (live t m) = live t m"
  by (auto simp: purge_def live_def fun_eq_iff split: option.splits)

lemma live_idem [simp]: "live t (live t m) = live t m"
  by (auto simp: live_def fun_eq_iff split: option.splits)

lemma live_upd: "live t (m(k := v)) = (live t m)(k := (case v of Some x \<Rightarrow> if expired_at t x then None else Some x | None \<Rightarrow> None))"
  by (auto simp: live_def fun_eq_iff)

lemma live_upd_None [simp]: "live t (m(k := None)) = (live t m)(k := None)"
  by (simp add: live_upd)

lemma expired_at_None [simp]: "\<not> expired_at t (v, None)"
  by (simp add: expired_at_def)

lemma live_not_expired: "live t m k = Some x \<Longrightarrow> \<not> expired_at t x"
  by (auto simp: live_def split: option.splits if_splits)

text \<open>A function of the keyspace that only depends on the live part.\<close>

definition live_fun :: "int \<Rightarrow> (astore \<Rightarrow> 'r \<times> astore) \<Rightarrow> bool" where
  "live_fun t F \<longleftrightarrow> (\<forall>m. F (live t m) = (fst (F m), live t (snd (F m))))"

lemma live_funI: "(\<And>m. F (live t m) = (fst (F m), live t (snd (F m)))) \<Longrightarrow> live_fun t F"
  by (simp add: live_fun_def)

lemma live_read: "live_fun t (spec_read as d f t k)"
  by (intro live_funI) (auto simp: spec_read_def Let_def purge_live split: option.splits)

lemma live_upsert: "live_fun t (spec_upsert as v0 f t k)"
proof (rule live_funI)
  fix m
  show "spec_upsert as v0 f t k (live t m) = (fst (spec_upsert as v0 f t k m), live t (snd (spec_upsert as v0 f t k m)))"
    using live_not_expired [of t m k]
    by (auto simp: spec_upsert_def Let_def purge_live live_upd expired_at_def split: option.splits sum.splits prod.splits)
qed

lemma live_shrink: "live_fun t (spec_shrink as d f t k)"
proof (rule live_funI)
  fix m
  show "spec_shrink as d f t k (live t m) = (fst (spec_shrink as d f t k m), live t (snd (spec_shrink as d f t k m)))"
    using live_not_expired [of t m k]
    by (auto simp: spec_shrink_def Let_def purge_live live_upd expired_at_def split: option.splits sum.splits prod.splits)
qed

lemma live_incr: "live_fun t (spec_incr n t k)"
proof (rule live_funI)
  fix m
  show "spec_incr n t k (live t m) = (fst (spec_incr n t k m), live t (snd (spec_incr n t k m)))"
    using live_not_expired [of t m k]
    by (auto simp: spec_incr_def Let_def purge_live live_upd expired_at_def split: option.splits sum.splits prod.splits)
qed

lemma live_del: "live_fun t (spec_del t k)"
  by (intro live_funI) (simp add: spec_del_def Let_def purge_live)

lemma live_exists: "live_fun t (spec_exists t k)"
  by (intro live_funI) (simp add: spec_exists_def Let_def purge_live)

lemma live_persist: "live_fun t (spec_persist t k)"
proof (rule live_funI)
  fix m
  show "spec_persist t k (live t m) = (fst (spec_persist t k m), live t (snd (spec_persist t k m)))"
    by (auto simp: spec_persist_def Let_def purge_live live_upd split: option.splits prod.splits)
qed

lemma live_expire_at: "live_fun t (spec_expire_at d t t k)"
  by (intro live_funI)
    (auto simp: spec_expire_at_def Let_def purge_live live_upd expired_at_def split: option.splits prod.splits)

section \<open>Settings that operations leave alone\<close>

definition conf :: "Database \<Rightarrow> (nat \<Rightarrow> int) \<times> size_t \<times> EvictionPolicy" where
  "conf db = (clock db, memoryLimit db, policy db)"

lemma conf_helpers [simp]:
  "conf (erase k db) = conf db" "conf (touch k db) = conf db" "conf (create k v db) = conf db"
  "conf (count_stat u n db) = conf db" "conf (setExpiry k d db) = conf db" "conf (clearExpiry k db) = conf db"
  "conf (db\<lparr>readings := i\<rparr>) = conf db" "conf (db\<lparr>draws := i\<rparr>) = conf db"
  "conf (modify_entry k f db) = conf db" "conf (set_value k v db) = conf db"
  by (simp_all add: conf_def set_value_def)

lemma conf_memory [simp]: "conf (addMemory k n db) = conf db" "conf (removeMemory k n db) = conf db"
  by (simp_all add: conf_def addMemory_def removeMemory_def Let_def)

lemma conf_findLive [simp]: "conf (snd (findLive k db)) = conf db"
  by (simp add: findLive_def now_def Let_def split: option.splits)

lemma conf_findLive_eq: "findLive k db = (r, db1) \<Longrightarrow> conf db1 = conf db"
  using conf_findLive [of k db] by simp

lemma conf_loops [simp]:
  "conf (push_loop side k vs db) = conf db"
  "conf (snd (hash_set_loop k fs n db)) = conf db" "conf (snd (hash_delete_loop k ks n db)) = conf db"
  "conf (snd (set_add_loop k ks n db)) = conf db" "conf (snd (set_remove_loop k ks n db)) = conf db"
proof -
  show "conf (push_loop side k vs db) = conf db" by (induction vs arbitrary: db) (simp_all add: Let_def)
  show "conf (snd (hash_set_loop k fs n db)) = conf db"
    by (induction k fs n db rule: hash_set_loop.induct) (auto simp: Let_def split: option.splits)
  show "conf (snd (hash_delete_loop k ks n db)) = conf db"
    by (induction k ks n db rule: hash_delete_loop.induct) (auto simp: Let_def split: option.splits)
  show "conf (snd (set_add_loop k ks n db)) = conf db"
    by (induction k ks n db rule: set_add_loop.induct) (auto simp: Let_def)
  show "conf (snd (set_remove_loop k ks n db)) = conf db"
    by (induction k ks n db rule: set_remove_loop.induct) (auto simp: Let_def)
qed

lemma conf_loop_eqs:
  "hash_set_loop k fs n db = (r, db1) \<Longrightarrow> conf db1 = conf db"
  "hash_delete_loop k ks n db = (r, db1) \<Longrightarrow> conf db1 = conf db"
  "set_add_loop k ks n db = (r, db1) \<Longrightarrow> conf db1 = conf db"
  "set_remove_loop k ks n db = (r, db1) \<Longrightarrow> conf db1 = conf db"
  using conf_loops(2) [of k fs n db] conf_loops(3-5) [of k ks n db] by auto

lemma conf_ops [simp]:
  "conf (snd (db_del k db)) = conf db" "conf (snd (db_exists k db)) = conf db"
  "conf (db_set k v db) = conf db" "conf (snd (db_append k v db)) = conf db"
  "conf (snd (incrementBy k n db)) = conf db" "conf (snd (db_persist k db)) = conf db"
  "conf (snd (expireAtMs_op k d db)) = conf db" "conf (snd (listPop k side db)) = conf db"
  "conf (snd (listPush k vs side db)) = conf db"
  unfolding db_del_def db_exists_def db_set_def db_append_def incrementBy_def db_persist_def
    expireAtMs_op_def listPop_def listPush_def Let_def now_def
  by (auto split: prod.splits option.splits sum.splits dest: conf_findLive_eq)

lemma conf_aggr_ops [simp]:
  "conf (snd (hashSet k fs db)) = conf db" "conf (snd (hashDelete k ks db)) = conf db"
  "conf (snd (setAdd k ks db)) = conf db" "conf (snd (setRemove k ks db)) = conf db"
  unfolding hashSet_def hashDelete_def setAdd_def setRemove_def Let_def
  by (auto split: prod.splits option.splits sum.splits dest!: conf_findLive_eq conf_loop_eqs)

end
