(* ===== verification/FKV_Server.thy ===== *)
theory FKV_Server
  imports FKV_Commands
begin

text \<open>
  The connection handling of \<open>src/src/tcp_server.cpp\<close>: \<open>Client\<close>, \<open>processInput\<close>,
  \<open>readFromClient\<close>, \<open>writeToClient\<close>, \<open>handleClientEvents\<close>, \<open>acceptClients\<close>, the interest set and
  the background work of the event loop, the option parser, and the start-up sequence of \<open>main\<close>
  (replay of the append-only file, then the memory settings), and one iteration of the event loop
  \<open>run\<close>. Socket calls and \<open>poll\<close> return what the environment chooses (a \<open>Round\<close>); the creation of
  the listening socket is not modelled.
\<close>

section \<open>Data\<close>

definition READ_CHUNK_SIZE :: nat where "READ_CHUNK_SIZE = 16 * 1024"

definition MAX_READS_PER_EVENT :: nat where "MAX_READS_PER_EVENT = 16"

definition MAX_QUERY_BUFFER :: nat where "MAX_QUERY_BUFFER = 1024 * 1024 * 1024"

definition OUTPUT_HIGH_WATERMARK :: nat where "OUTPUT_HIGH_WATERMARK = 4 * 1024 * 1024"

record ServerConfig =
  bindAddress :: bytes
  config_port :: int
  appendOnly :: bool
  aofPath :: bytes
  config_maxMemory :: size_t
  config_evictionPolicy :: EvictionPolicy
  hz :: int

definition default_config :: ServerConfig where
  "default_config = \<lparr>bindAddress = ''127.0.0.1'', config_port = 6379, appendOnly = True,
     aofPath = ''flashkv.aof'', config_maxMemory = 0, config_evictionPolicy = NoEviction, hz = 10\<rparr>"

record Client =
  input_buf :: bytes
  output_buf :: bytes
  outputOffset :: nat
  closeAfterWrite :: bool

definition new_client :: Client where
  "new_client = \<lparr>input_buf = [], output_buf = [], outputOffset = 0, closeAfterWrite = False\<rparr>"

definition pendingOutput :: "Client \<Rightarrow> nat" where
  "pendingOutput c = length (output_buf c) - outputOffset c"

text \<open>
  The server. \<open>traffic\<close> is there for the specification and read by no operation: what each turn that sent
  anything has sent, with the contents of the append-only file at that moment.
\<close>

record Server =
  processor :: CommandProcessor
  clients :: "(int \<times> Client) list"
  os :: OS
  traffic :: "(bytes \<times> bytes) list"

text \<open>What \<open>recv\<close> and \<open>send\<close> may return.\<close>

datatype recv_result = Received bytes | RecvInterrupted | RecvWouldBlock | RecvError

datatype send_result = Sent nat | SendInterrupted | SendWouldBlock | SendError

section \<open>Options\<close>

datatype options_result = Parsed ServerConfig | Help | Rejected

definition parse_option :: "bytes \<Rightarrow> bytes \<Rightarrow> ServerConfig \<Rightarrow> ServerConfig option" where
  "parse_option option v config =
     (if option = ''--bind'' then Some (config\<lparr>bindAddress := v\<rparr>)
      else if option = ''--port'' then
        (case stoi v of
           None \<Rightarrow> None
         | Some n \<Rightarrow> if n \<le> 0 \<or> n > 65535 then None else Some (config\<lparr>config_port := n\<rparr>))
      else if option = ''--appendonly'' then
        (if v \<noteq> ''yes'' \<and> v \<noteq> ''no'' then None else Some (config\<lparr>appendOnly := (v = ''yes'')\<rparr>))
      else if option = ''--aof'' then Some (config\<lparr>aofPath := v\<rparr>)
      else if option = ''--maxmemory'' then
        (case parseMemorySize v of None \<Rightarrow> None | Some n \<Rightarrow> Some (config\<lparr>config_maxMemory := n\<rparr>))
      else if option = ''--maxmemory-policy'' then
        (case parseEvictionPolicy v of None \<Rightarrow> None | Some pol \<Rightarrow> Some (config\<lparr>config_evictionPolicy := pol\<rparr>))
      else if option = ''--hz'' then
        (case stoi v of
           None \<Rightarrow> None
         | Some n \<Rightarrow> if n < 1 \<or> n > 500 then None else Some (config\<lparr>hz := n\<rparr>))
      else None)"

text \<open>The arguments after the program name.\<close>

fun parseArguments :: "bytes list \<Rightarrow> ServerConfig \<Rightarrow> options_result" where
  "parseArguments [] config = Parsed config"
| "parseArguments (option # rest) config =
     (if option = ''--help'' \<or> option = ''-h'' then Help
      else
        (case rest of
           [] \<Rightarrow> Rejected
         | v # rest' \<Rightarrow>
             (case parse_option option v config of
                None \<Rightarrow> Rejected
              | Some config1 \<Rightarrow> parseArguments rest' config1)))"

section \<open>Reading commands from a client\<close>

function process_loop :: "bytes \<Rightarrow> nat \<Rightarrow> Client \<Rightarrow> CommandProcessor \<Rightarrow> (exn + nat) \<times> Client \<times> CommandProcessor" where
  "process_loop inp consumed c p =
     (if \<not> closeAfterWrite c \<and> consumed < length inp then
        (let result = parseRespCommand (drop consumed inp) in
         case status result of
           Incomplete \<Rightarrow> (Inr consumed, c, p)
         | Error \<Rightarrow>
             (Inr consumed, c\<lparr>output_buf := output_buf c @ respError (error result), closeAfterWrite := True\<rparr>, p)
         | Complete \<Rightarrow>
             (let consumed' = consumed + consumedBytes result in
              if arguments result = [] then process_loop inp consumed' c p
              else
                (case execute (arguments result) p of
                   (Inl e, p1) \<Rightarrow> (Inl e, c, p1)
                 | (Inr reply, p1) \<Rightarrow>
                     process_loop inp consumed'
                       (c\<lparr>output_buf := output_buf c @ payload reply,
                          closeAfterWrite := closeAfterWrite c \<or> closeConnection reply\<rparr>) p1)))
      else (Inr consumed, c, p))"
  by pat_completeness auto
termination
proof (relation "measure (\<lambda>(inp, consumed, _, _). length inp - consumed)", goal_cases)
  case 1
  then show ?case by simp
next
  case (2 inp consumed c p r n)
  then show ?case using parse_consumed [of "drop consumed inp"] by (simp, linarith)
next
  case (3 inp consumed c p r n)
  then show ?case using parse_consumed [of "drop consumed inp"] by (simp, linarith)
qed

declare process_loop.simps [simp del]

definition processInput :: "Client \<Rightarrow> CommandProcessor \<Rightarrow> (exn + unit) \<times> Client \<times> CommandProcessor" where
  "processInput c p =
     (case process_loop (input_buf c) 0 c p of
        (Inl e, c1, p1) \<Rightarrow> (Inl e, c1, p1)
      | (Inr consumed, c1, p1) \<Rightarrow> (Inr (), c1\<lparr>input_buf := drop consumed (input_buf c1)\<rparr>, p1))"

text \<open>How a round of reads ends: a short or blocked read, the peer's close, or an error.\<close>

datatype read_end = ReadDone | ReadClosed | ReadFailed

fun read_loop :: "nat \<Rightarrow> (nat \<Rightarrow> recv_result) \<Rightarrow> nat \<Rightarrow> Client \<Rightarrow> read_end \<times> Client" where
  "read_loop 0 recvs i c = (ReadDone, c)"
| "read_loop (Suc left) recvs i c =
     (case recvs i of
        Received bs \<Rightarrow>
          (let chunk = take READ_CHUNK_SIZE bs in
           if chunk = [] then (ReadClosed, c)
           else
             (let c1 = c\<lparr>input_buf := input_buf c @ chunk\<rparr>
              in if length chunk < READ_CHUNK_SIZE then (ReadDone, c1) else read_loop left recvs (Suc i) c1))
      | RecvInterrupted \<Rightarrow> read_loop left recvs (Suc i) c
      | RecvWouldBlock \<Rightarrow> (ReadDone, c)
      | RecvError \<Rightarrow> (ReadFailed, c))"

definition readFromClient :: "(nat \<Rightarrow> recv_result) \<Rightarrow> Client \<Rightarrow> CommandProcessor \<Rightarrow> (exn + bool) \<times> Client \<times> CommandProcessor" where
  "readFromClient recvs c p =
     (case read_loop MAX_READS_PER_EVENT recvs 0 c of
        (ReadClosed, c1) \<Rightarrow>
          (case processInput c1 p of
             (Inl e, c2, p1) \<Rightarrow> (Inl e, c2, p1)
           | (Inr _, c2, p1) \<Rightarrow> (Inr True, c2\<lparr>closeAfterWrite := True\<rparr>, p1))
      | (ReadFailed, c1) \<Rightarrow> (Inr False, c1, p)
      | (ReadDone, c1) \<Rightarrow>
          if length (input_buf c1) > MAX_QUERY_BUFFER then (Inr False, c1, p)
          else
            (case processInput c1 p of
               (Inl e, c2, p1) \<Rightarrow> (Inl e, c2, p1)
             | (Inr _, c2, p1) \<Rightarrow> (Inr True, c2, p1)))"

section \<open>Writing replies\<close>

text \<open>
  The send loop: the bytes that went out, and whether it ended without an error. \<open>send\<close> never
  takes more than it is given; interrupted for ever, the loop does not return (\<open>None\<close>).
\<close>

partial_function (option) send_loop :: "(nat \<Rightarrow> send_result) \<Rightarrow> nat \<Rightarrow> bytes \<Rightarrow> Client \<Rightarrow> (bool \<times> bytes \<times> Client) option" where
  "send_loop sends i sent c =
     (if pendingOutput c > 0 then
        (case sends i of
           Sent n \<Rightarrow>
             (let m = min n (pendingOutput c) in
              if m > 0
              then send_loop sends (Suc i) (sent @ take m (drop (outputOffset c) (output_buf c)))
                     (c\<lparr>outputOffset := outputOffset c + m\<rparr>)
              else Some (False, sent, c))
         | SendInterrupted \<Rightarrow> send_loop sends (Suc i) sent c
         | SendWouldBlock \<Rightarrow> Some (True, sent, c)
         | SendError \<Rightarrow> Some (False, sent, c))
      else Some (True, sent, c))"

definition compact_output :: "Client \<Rightarrow> Client" where
  "compact_output c =
     (if outputOffset c = length (output_buf c) then c\<lparr>output_buf := [], outputOffset := 0\<rparr>
      else if outputOffset c > length (output_buf c) div 2
      then c\<lparr>output_buf := drop (outputOffset c) (output_buf c), outputOffset := 0\<rparr>
      else c)"

definition writeToClient :: "(nat \<Rightarrow> send_result) \<Rightarrow> Client \<Rightarrow> (bool \<times> bytes \<times> Client) option" where
  "writeToClient sends c =
     map_option (\<lambda>(ok, sent, c1). (ok, sent, if ok then compact_output c1 else c1)) (send_loop sends 0 [] c)"

section \<open>Events\<close>

definition close_client :: "int \<Rightarrow> Server \<Rightarrow> Server" where
  "close_client sock s =
     (let cs = AList.delete sock (clients s); p = processor s
      in s\<lparr>clients := cs,
           processor := p\<lparr>serverStats := (serverStats p)\<lparr>connectedClients := length cs\<rparr>\<rparr>\<rparr>)"

text \<open>
  The part of \<open>handleClientEvents\<close> that may write: the append-only file is flushed first, its
  result ignored, then the replies go out. The bytes sent are returned for the specification, and
  \<open>record_traffic\<close> notes them with the contents the file has when they leave.
\<close>

definition record_traffic :: "bytes \<Rightarrow> Server \<Rightarrow> Server" where
  "record_traffic sent s = (if sent = [] then s else s\<lparr>traffic := traffic s @ [(sent, disk_bytes (os s))]\<rparr>)"

lemma record_traffic_keeps [simp]:
  "processor (record_traffic sent s) = processor s" "clients (record_traffic sent s) = clients s" "os (record_traffic sent s) = os s"
  by (simp_all add: record_traffic_def)

definition flush_and_write :: "(nat \<Rightarrow> send_result) \<Rightarrow> Client \<Rightarrow> Server \<Rightarrow> (bool \<times> bytes \<times> Client \<times> Server) option" where
  "flush_and_write sends c s =
     (if pendingOutput c > 0 then
        (case (case aof (processor s) of
                 None \<Rightarrow> Some s
               | Some a \<Rightarrow> map_option (\<lambda>(_, a1, os1). s\<lparr>processor := (processor s)\<lparr>aof := Some a1\<rparr>, os := os1\<rparr>)
                              (aof_flush a (os s))) of
           None \<Rightarrow> None
         | Some s1 \<Rightarrow> map_option (\<lambda>(ok, sent, c1). (ok, sent, c1, record_traffic sent s1)) (writeToClient sends c))
      else Some (True, [], c, s))"

text \<open>
  \<open>err\<close> is \<open>events & (POLLERR | POLLNVAL)\<close>, \<open>inp\<close> is \<open>events & (POLLIN | POLLHUP)\<close>. The result is
  the bytes sent and the server after the event, or the exception that ended it.
\<close>

definition handleClientEvents :: "int \<Rightarrow> bool \<Rightarrow> bool \<Rightarrow> (nat \<Rightarrow> recv_result) \<Rightarrow> (nat \<Rightarrow> send_result) \<Rightarrow> Server
    \<Rightarrow> (exn + bytes \<times> Server) option" where
  "handleClientEvents sock err inp recvs sends s =
     (case map_of (clients s) sock of
        None \<Rightarrow> Some (Inr ([], s))
      | Some c \<Rightarrow>
          if err then Some (Inr ([], close_client sock s))
          else
            (case (if inp then readFromClient recvs c (processor s) else (Inr True, c, processor s)) of
               (Inl e, _, _) \<Rightarrow> Some (Inl e)
             | (Inr keep, c1, p1) \<Rightarrow>
                 (let s1 = s\<lparr>processor := p1, clients := AList.update sock c1 (clients s)\<rparr> in
                  if \<not> keep then Some (Inr ([], close_client sock s1))
                  else
                    (case flush_and_write sends c1 s1 of
                       None \<Rightarrow> None
                     | Some (ok, sent, c2, s2) \<Rightarrow>
                         (let s3 = s2\<lparr>clients := AList.update sock c2 (clients s2)\<rparr> in
                          if \<not> ok \<or> closeAfterWrite c2 \<and> pendingOutput c2 = 0
                          then Some (Inr (sent, close_client sock s3))
                          else Some (Inr (sent, s3)))))))"

text \<open>A new connection, after \<open>accept\<close> returned a socket that could be made non-blocking.\<close>

definition accept_client :: "int \<Rightarrow> Server \<Rightarrow> Server" where
  "accept_client sock s =
     (let cs = (if map_of (clients s) sock = None then AList.update sock new_client (clients s) else clients s);
          p = processor s;
          st = serverStats p
      in s\<lparr>clients := cs,
           processor := p\<lparr>serverStats := st\<lparr>totalConnections := totalConnections st + 1,
                                            connectedClients := length cs\<rparr>\<rparr>\<rparr>)"

text \<open>
  What \<open>accept\<close> may return: a socket, with whether it could be made non-blocking, or the reason why
  there is none. The loop takes connections until \<open>accept\<close> fails; while connections keep coming it
  does not return (\<open>None\<close>).
\<close>

datatype accept_result = Accepted int bool | AcceptInterrupted | AcceptWouldBlock | AcceptError

partial_function (option) acceptClients :: "(nat \<Rightarrow> accept_result) \<Rightarrow> nat \<Rightarrow> Server \<Rightarrow> Server option" where
  "acceptClients accepts i s =
     (case accepts i of
        Accepted sock nonBlocking \<Rightarrow>
          if nonBlocking then acceptClients accepts (Suc i) (accept_client sock s)
          else acceptClients accepts (Suc i) s
      | AcceptInterrupted \<Rightarrow> acceptClients accepts (Suc i) s
      | AcceptWouldBlock \<Rightarrow> Some s
      | AcceptError \<Rightarrow> Some s)"

text \<open>The events \<open>poll\<close> is asked for: reading unless the client is closing or too far behind,
  writing when there is something to send.\<close>

definition poll_events :: "Client \<Rightarrow> bool \<times> bool" where
  "poll_events c =
     (pendingOutput c < OUTPUT_HIGH_WATERMARK \<and> \<not> closeAfterWrite c, pendingOutput c > 0)"

text \<open>The background work: the expiration cycle with its default arguments, and \<open>sync\<close>.\<close>

definition server_cron :: "(nat \<Rightarrow> bool) \<Rightarrow> Server \<Rightarrow> (exn + nat) \<times> Server" where
  "server_cron overBudget s =
     (let (r, db) = activeExpireCycle 20 overBudget (database (processor s))
      in (r, s\<lparr>processor := (processor s)\<lparr>database := db\<rparr>\<rparr>))"

definition server_sync :: "bool \<Rightarrow> Server \<Rightarrow> Server" where
  "server_sync ok s =
     (let p = processor s
      in s\<lparr>processor := p\<lparr>aof := map_option (\<lambda>a. snd (aof_sync ok a)) (aof p)\<rparr>\<rparr>)"

section \<open>The event loop\<close>

text \<open>
  What the environment decides in one iteration of \<open>run\<close>: whether a shutdown was requested, what
  \<open>poll\<close> returned, the order in which the hash table lists the sockets, what is ready on each of
  them, what the socket calls return, the reading of the steady clock (in nanoseconds), the
  time budget of the expiration cycle and the result of \<open>fsync\<close>. Errors and hang-ups are always
  reported, readiness for reading only where it was asked for.
\<close>

datatype poll_result = PollReady | PollInterrupted | PollFailed

record Revents =
  pollErr :: bool
  pollIn :: bool
  pollHup :: bool

record Round =
  shutdownRequested :: bool
  poll_outcome :: poll_result
  descriptors :: "int list"
  listenerReady :: bool
  accepts :: "nat \<Rightarrow> accept_result"
  revents :: "int \<Rightarrow> Revents"
  recvs :: "int \<Rightarrow> nat \<Rightarrow> recv_result"
  sends :: "int \<Rightarrow> nat \<Rightarrow> send_result"
  steadyNow :: int
  overBudget :: "nat \<Rightarrow> bool"
  fsyncOk :: bool

record EventLoop =
  server :: Server
  nextCron :: int
  nextSync :: int

text \<open>How an iteration ends: with the bytes sent to each socket and the next state, with the status
  \<open>run\<close> returns, or with an exception that escapes.\<close>

datatype loop_result = Running "(int \<times> bytes) list" EventLoop | Stopped int Server | Thrown exn

text \<open>The sockets \<open>poll\<close> is called with and the events asked for, as the clients are at that time.\<close>

definition watched :: "Round \<Rightarrow> Server \<Rightarrow> (int \<times> bool \<times> bool) list" where
  "watched r s =
     List.map_filter (\<lambda>sock. map_option (\<lambda>c. (sock, poll_events c)) (map_of (clients s) sock)) (descriptors r)"

fun handle_events :: "Round \<Rightarrow> (int \<times> bool \<times> bool) list \<Rightarrow> Server \<Rightarrow> (exn + (int \<times> bytes) list \<times> Server) option" where
  "handle_events r [] s = Some (Inr ([], s))"
| "handle_events r ((sock, rd, wr) # socks) s =
     (case handleClientEvents sock (pollErr (revents r sock)) (rd \<and> pollIn (revents r sock) \<or> pollHup (revents r sock))
             (recvs r sock) (sends r sock) s of
        None \<Rightarrow> None
      | Some (Inl e) \<Rightarrow> Some (Inl e)
      | Some (Inr (sent, s1)) \<Rightarrow>
          map_option (map_sum id (\<lambda>(wire, s2). ((sock, sent) # wire, s2))) (handle_events r socks s1))"

definition cronInterval :: "ServerConfig \<Rightarrow> int" where
  "cronInterval config = (1000 div hz config) * 1000000"

definition SYNC_INTERVAL :: int where "SYNC_INTERVAL = 1000000000"

text \<open>The end of an iteration: the expiration cycle and \<open>sync\<close> when they are due.\<close>

definition background_work :: "ServerConfig \<Rightarrow> Round \<Rightarrow> EventLoop \<Rightarrow> exn + EventLoop" where
  "background_work config r l =
     (let now = steadyNow r;
          cron = (if now \<ge> nextCron l
                  then (case server_cron (overBudget r) (server l) of
                          (Inl e, s) \<Rightarrow> Inl e
                        | (Inr _, s) \<Rightarrow> Inr (l\<lparr>server := s, nextCron := now + cronInterval config\<rparr>))
                  else Inr l)
      in map_sum id (\<lambda>l1.
           if aof (processor (server l1)) \<noteq> None \<and> now \<ge> nextSync l1
           then l1\<lparr>server := server_sync (fsyncOk r) (server l1), nextSync := now + SYNC_INTERVAL\<rparr>
           else l1) cron)"

text \<open>
  How long \<open>poll\<close> may wait, in milliseconds, when the steady clock shows \<open>current\<close>: \<open>duration_cast\<close>
  rounds towards zero, the result is cut to an \<open>int\<close>. Whether \<open>poll\<close> returns earlier is up to the
  \<open>Round\<close>.
\<close>

definition pollTimeout :: "EventLoop \<Rightarrow> int \<Rightarrow> int" where
  "pollTimeout l current =
     (let d = nextCron l - current;
          timeout = sgn d * (\<bar>d\<bar> div 1000000)
      in sint (word_of_int (max timeout 0) :: 32 word))"

definition run_iteration :: "ServerConfig \<Rightarrow> Round \<Rightarrow> EventLoop \<Rightarrow> loop_result option" where
  "run_iteration config r l =
     (if shutdownRequested r then Some (Stopped 0 ((server l)\<lparr>clients := []\<rparr>))
      else
        (case poll_outcome r of
           PollInterrupted \<Rightarrow> Some (Running [] l)
         | PollFailed \<Rightarrow> Some (Stopped 1 (server l))
         | PollReady \<Rightarrow>
             (case (if listenerReady r then acceptClients (accepts r) 0 (server l) else Some (server l)) of
                None \<Rightarrow> None
              | Some s1 \<Rightarrow>
                  (case handle_events r (watched r (server l)) s1 of
                     None \<Rightarrow> None
                   | Some (Inl e) \<Rightarrow> Some (Thrown e)
                   | Some (Inr (wire, s2)) \<Rightarrow>
                       Some (case background_work config r (l\<lparr>server := s2\<rparr>) of
                               Inl e \<Rightarrow> Thrown e
                             | Inr l1 \<Rightarrow> Running wire l1)))))"

text \<open>The state before the first iteration.\<close>

definition start_loop :: "ServerConfig \<Rightarrow> int \<Rightarrow> int \<Rightarrow> Server \<Rightarrow> EventLoop" where
  "start_loop config now1 now2 s =
     \<lparr>server = s, nextCron = now1 + cronInterval config, nextSync = now2 + SYNC_INTERVAL\<rparr>"

section \<open>Start-up\<close>

text \<open>The replay function of \<open>main\<close>: an error reply fails the load. An exception that leaves \<open>execute\<close>
  would leave \<open>main\<close> too; here it is a failed replay, and \<open>execute\<close> is shown to throw none.\<close>

definition replay_command :: "bytes list \<Rightarrow> CommandProcessor \<Rightarrow> (bool \<times> bytes) \<times> CommandProcessor" where
  "replay_command args replayer =
     (case execute args replayer of
        (Inl e, p) \<Rightarrow> ((False, []), p)
      | (Inr reply, p) \<Rightarrow>
          if payload reply \<noteq> [] \<and> hd (payload reply) = CHR ''-''
          then ((False, take (length (payload reply) - 3) (drop 1 (payload reply))), p)
          else ((True, []), p))"

text \<open>The constructor of \<open>Server\<close>.\<close>

definition new_server :: "ServerConfig \<Rightarrow> Database \<Rightarrow> AppendOnlyFile option \<Rightarrow> OS \<Rightarrow> Server" where
  "new_server config db a os1 =
     (let p = new_processor db a
      in \<lparr>processor = p\<lparr>serverStats := (serverStats p)\<lparr>port := config_port config\<rparr>\<rparr>, clients = [], os = os1, traffic = []\<rparr>)"

text \<open>
  \<open>main\<close> up to the event loop. \<open>fd\<close> and \<open>msg\<close> are the outcome of \<open>::open\<close>, \<open>trunc\<close> that of
  \<open>truncate\<close>. The memory settings are applied after the replay.
\<close>

definition server_start :: "ServerConfig \<Rightarrow> bytes option \<Rightarrow> int \<Rightarrow> bytes \<Rightarrow> Database \<Rightarrow> OS \<Rightarrow> bytes + Server" where
  "server_start config trunc fd msg db os0 =
     (let finish = (\<lambda>db1 a os1.
        let db2 = setEvictionPolicy (config_evictionPolicy config) (setMaxMemory (config_maxMemory config) db1)
        in Inr (new_server config db2 a os1))
      in if \<not> appendOnly config then finish db None os0
         else
           (case aof_load replay_command trunc (disk os0) (new_processor db None) of
              (Inl err, _, _) \<Rightarrow> Inl err
            | (Inr _, replayer, contents) \<Rightarrow>
                (case aof_open fd msg (new_aof (aofPath config)) (os0\<lparr>disk := contents\<rparr>) of
                   (Inl err, _, _) \<Rightarrow> Inl err
                 | (Inr _, a, os1) \<Rightarrow> finish (database replayer) (Some a) os1)))"

end
