(* ===== verification/FKV_Replay.thy ===== *)
theory FKV_Replay
  imports FKV_Live FKV_Server
begin

text \<open>
  The append-only log is faithful: at a fixed time, replaying what a command logged, on any
  database with the same live keyspace, succeeds and leads to the live keyspace the command left.
  Evictions are covered (they are logged as \<open>DEL\<close>), and so are the commands that log something
  other than themselves (\<open>SET\<close> with options, the \<open>EXPIRE\<close> family, \<open>FLUSHDB\<close>).
\<close>

section \<open>Databases at a fixed time\<close>

definition frozen :: "int \<Rightarrow> Database \<Rightarrow> astore \<Rightarrow> bool" where
  "frozen t db m \<longleftrightarrow> db_inv db \<and> (\<forall>i. clock db i = t) \<and> live t (abs_db db) = m"

definition store_ok :: "int \<Rightarrow> astore \<Rightarrow> bool" where
  "store_ok t m \<longleftrightarrow> live t m = m \<and>
     (\<forall>k v d. m k = Some (v, d) \<longrightarrow> v \<noteq> AHash Map.empty \<and> v \<noteq> ASet {})"

lemma frozen_store_ok: "frozen t db m \<Longrightarrow> store_ok t m"
proof -
  assume f: "frozen t db m"
  then have m: "m = live t (abs_db db)" by (simp add: frozen_def)
  have "v \<noteq> AHash Map.empty \<and> v \<noteq> ASet {}" if "m k = Some (v, d)" for k v d
  proof -
    from that m obtain e where e: "map_of (data db) k = Some e" "v = aval_of (value e)"
      by (auto simp: live_def abs_db_def abs_entry_def split: option.splits if_splits)
    moreover have "value_nonempty (value e)"
      using f e(1) by (simp add: frozen_def db_inv_def all_values_def)
    ultimately show ?thesis by (cases "value e") auto
  qed
  with m show ?thesis by (simp add: store_ok_def)
qed

lemma store_ok_purge [simp]: "store_ok t m \<Longrightarrow> purge t k m = m"
  by (metis purge_of_live store_ok_def)

text \<open>An operation that implements a function of the live keyspace.\<close>

definition implements :: "int \<Rightarrow> (Database \<Rightarrow> 'r \<times> Database) \<Rightarrow> (astore \<Rightarrow> 'r \<times> astore) \<Rightarrow> bool" where
  "implements t f F \<longleftrightarrow> (\<forall>db m. frozen t db m \<longrightarrow>
     fst (f db) = fst (F m) \<and> frozen t (snd (f db)) (snd (F m)) \<and> conf (snd (f db)) = conf db)"

lemma implementsD:
  assumes "implements t f F" "frozen t db m"
  obtains db1 where "f db = (fst (F m), db1)" "frozen t db1 (snd (F m))" "conf db1 = conf db"
proof -
  have "fst (f db) = fst (F m)" "frozen t (snd (f db)) (snd (F m))" "conf (snd (f db)) = conf db"
    using assms by (simp_all add: implements_def)
  then show thesis by (intro that [of "snd (f db)"]) (simp_all add: prod_eq_iff)
qed

lemma implementsI:
  assumes "\<And>db. db_inv db \<Longrightarrow> (\<forall>i. clock db i = t) \<Longrightarrow> refines (f db) (F (abs_db db))"
    "live_fun t F" "\<And>db. conf (snd (f db)) = conf db"
  shows "implements t f F"
  unfolding implements_def
proof (intro allI impI)
  fix db m assume f: "frozen t db m"
  have r: "refines (f db) (F (abs_db db))" using f assms(1) by (simp add: frozen_def)
  have F: "F m = (fst (F (abs_db db)), live t (snd (F (abs_db db))))"
    using assms(2) f by (auto simp: live_fun_def frozen_def)
  have "clock (snd (f db)) = clock db" using assms(3) [of db] by (simp add: conf_def)
  then show "fst (f db) = fst (F m) \<and> frozen t (snd (f db)) (snd (F m)) \<and> conf (snd (f db)) = conf db"
    using r f assms(3) [of db] unfolding F by (simp add: frozen_def refines_def)
qed

lemmas live_funs = live_read live_upsert live_shrink live_incr live_del live_exists live_persist live_expire_at

lemma implements_refines:
  assumes "\<And>db. db_inv db \<Longrightarrow> refines (f db) (F (time_now db) (abs_db db))"
    "live_fun t (F t)" "\<And>db. conf (snd (f db)) = conf db"
  shows "implements t f (F t)"
  by (rule implementsI [OF _ assms(2,3)]) (metis assms(1))

lemma implements_ops:
  "implements t (db_del k) (spec_del t k)"
  "implements t (db_exists k) (spec_exists t k)"
  "implements t (db_append k v) (spec_append v t k)"
  "implements t (incrementBy k n) (spec_incr n t k)"
  "implements t (db_persist k) (spec_persist t k)"
  "implements t (listPop k side) (spec_pop side t k)"
  "vs \<noteq> [] \<Longrightarrow> implements t (listPush k vs side) (spec_push vs side t k)"
  "fs \<noteq> [] \<Longrightarrow> implements t (hashSet k fs) (spec_hset fs t k)"
  "implements t (hashDelete k ks) (spec_hdel ks t k)"
  "vs \<noteq> [] \<Longrightarrow> implements t (setAdd k vs) (spec_sadd vs t k)"
  "implements t (setRemove k ks) (spec_srem ks t k)"
  subgoal by (rule implements_refines [where F = "\<lambda>t. spec_del t k"], rule db_del_refines) (simp_all add: op_specs live_funs)
  subgoal by (rule implements_refines [where F = "\<lambda>t. spec_exists t k"], rule db_exists_refines) (simp_all add: op_specs live_funs)
  subgoal by (rule implements_refines [where F = "\<lambda>t. spec_append v t k"], rule db_append_refines) (simp_all add: op_specs live_funs)
  subgoal by (rule implements_refines [where F = "\<lambda>t. spec_incr n t k"], rule incrementBy_refines) (simp_all add: op_specs live_funs)
  subgoal by (rule implements_refines [where F = "\<lambda>t. spec_persist t k"], rule db_persist_refines) (simp_all add: op_specs live_funs)
  subgoal by (rule implements_refines [where F = "\<lambda>t. spec_pop side t k"], rule listPop_refines) (simp_all add: op_specs live_funs)
  subgoal by (rule implements_refines [where F = "\<lambda>t. spec_push vs side t k"], rule listPush_refines) (simp_all add: op_specs live_funs)
  subgoal by (rule implements_refines [where F = "\<lambda>t. spec_hset fs t k"], rule hashSet_refines) (simp_all add: op_specs live_funs)
  subgoal by (rule implements_refines [where F = "\<lambda>t. spec_hdel ks t k"], rule hashDelete_refines) (simp_all add: op_specs live_funs)
  subgoal by (rule implements_refines [where F = "\<lambda>t. spec_sadd vs t k"], rule setAdd_refines) (simp_all add: op_specs live_funs)
  subgoal by (rule implements_refines [where F = "\<lambda>t. spec_srem ks t k"], rule setRemove_refines) (simp_all add: op_specs live_funs)
  done

lemma implements_expireAt: "implements t (expireAtMs_op k d) (spec_expire_at d t t k)"
proof (rule implementsI)
  fix db assume a: "db_inv db" "\<forall>i. clock db i = t"
  have "clock (snd (findLive k db)) = clock db" using conf_findLive [of k db] by (simp add: conf_def)
  with a expireAtMs_refines [OF a(1), of k d]
  show "refines (expireAtMs_op k d db) (spec_expire_at d t t k (abs_db db))" by simp
qed (simp_all add: live_funs)

lemma implements_set: "implements t (\<lambda>db. ((), db_set k v db)) (\<lambda>m. ((), spec_set k v m))"
proof (rule implementsI)
  show "live_fun t (\<lambda>m. ((), spec_set k v m))"
    by (intro live_funI) (simp add: spec_set_def live_upd)
qed (simp_all add: refines_def db_set_refines)

lemma implements_clear: "implements t (\<lambda>db. ((), db_clear db)) (\<lambda>m. ((), Map.empty))"
proof (rule implementsI)
  show "live_fun t (\<lambda>m. ((), Map.empty))" by (intro live_funI) (simp add: live_def fun_eq_iff)
qed (simp_all add: refines_def abs_clear db_clear_inv, simp add: conf_def db_clear_def)

section \<open>Outcomes of handlers\<close>

text \<open>
  What a handler did: its result, the live keyspace after it, and the commands it logged.
\<close>

definition outcome :: "int \<Rightarrow> CommandProcessor \<Rightarrow> (exn + 'a) \<times> CommandProcessor \<Rightarrow> exn + 'a \<Rightarrow> astore \<Rightarrow> bytes list list \<Rightarrow> bool" where
  "outcome t p rp r m ls \<longleftrightarrow>
     fst rp = r \<and> frozen t (database (snd rp)) m \<and> conf (database (snd rp)) = conf (database p) \<and>
     aof (snd rp) = map_option (fold aof_append ls) (aof p)"

text \<open>A handler whose outcome is determined by the live keyspace.\<close>

definition determined :: "int \<Rightarrow> handler \<Rightarrow> bytes list \<Rightarrow> astore \<Rightarrow> exn + bytes \<Rightarrow> astore \<Rightarrow> bytes list list \<Rightarrow> bool" where
  "determined t h args m r m' ls \<longleftrightarrow>
     (\<forall>p. frozen t (database p) m \<longrightarrow> outcome t p (h args p) r m' ls)"

lemma aof_propagate [simp]: "aof (propagate args p) = map_option (aof_append args) (aof p)"
  by (simp add: propagate_def split: option.splits)

lemma aof_propagateExpiry [simp]:
  "aof (propagateExpiry k d p) = map_option (aof_append [''PEXPIREAT'', k, to_string d]) (aof p)"
  by (simp add: propagateExpiry_def)

lemma determined_call:
  assumes "implements t f F"
    and h: "\<And>p. h args p = and_then (db_call f p) (\<lambda>x p1. (Inr (reply x), if l x then propagate args p1 else p1))"
  shows "determined t h args m (map_sum id reply (fst (F m))) (snd (F m))
    (case fst (F m) of Inl e \<Rightarrow> [] | Inr x \<Rightarrow> if l x then [args] else [])"
  unfolding determined_def
proof (intro allI impI)
  fix p :: CommandProcessor assume f: "frozen t (database p) m"
  obtain r db1 where c: "f (database p) = (r, db1)" by (cases "f (database p)")
  have "fst (F m) = r" "frozen t db1 (snd (F m))" "conf db1 = conf (database p)"
    using assms(1) f c unfolding implements_def by (metis fst_conv snd_conv)+
  with c show "outcome t p (h args p) (map_sum id reply (fst (F m))) (snd (F m))
      (case fst (F m) of Inl e \<Rightarrow> [] | Inr x \<Rightarrow> if l x then [args] else [])"
    by (cases r) (auto simp: h outcome_def db_call_def and_then_def option.map_id)
qed

section \<open>Replaying\<close>

definition replayer :: "int \<Rightarrow> CommandProcessor \<Rightarrow> astore \<Rightarrow> bool" where
  "replayer t q m \<longleftrightarrow> frozen t (database q) m \<and> aof q = None \<and> memoryLimit (database q) = 0"

definition replays :: "int \<Rightarrow> bytes list list \<Rightarrow> astore \<Rightarrow> astore \<Rightarrow> bool" where
  "replays t ls m m' \<longleftrightarrow>
     (\<forall>q. replayer t q m \<longrightarrow> (\<exists>q'. replay_all replay_command ls q = Some q' \<and> replayer t q' m'))"

lemma replays_Nil [simp]: "replays t [] m m"
  by (simp add: replays_def)

lemma replay_all_append:
  "replay_all f (as @ bs) s = (case replay_all f as s of None \<Rightarrow> None | Some s1 \<Rightarrow> replay_all f bs s1)"
  by (induction as arbitrary: s) (auto split: prod.splits bool.splits)

lemma replays_append: "replays t as m1 m2 \<Longrightarrow> replays t bs m2 m3 \<Longrightarrow> replays t (as @ bs) m1 m3"
  unfolding replays_def by (fastforce simp: replay_all_append)

text \<open>Dispatching a write command in a processor without a file and without a limit.\<close>

lemma execute_replayer:
  assumes "aof q = None" "memoryLimit (database q) = 0" "args \<noteq> []"
    "map_of commandTable (uppercase (args ! 0)) = Some spec" "\<not> arity_error (arity spec) args"
  shows "execute args q = call_handler spec args
    (q\<lparr>serverStats := (serverStats q)\<lparr>totalCommands := totalCommands (serverStats q) + 1\<rparr>\<rparr>)"
proof -
  have "uppercase (args ! 0) \<noteq> ''QUIT''" using assms(4) by (auto simp: commandTable_def)
  then show ?thesis
    using assms by (simp add: execute_def run_write_def evict_and_log_def evictIfNeeded_def and_then_def
        propagate_dels_def Let_def)
qed

definition no_error :: "bytes \<Rightarrow> bool" where
  "no_error s \<longleftrightarrow> \<not> (s \<noteq> [] \<and> hd s = CHR ''-'')"

lemma no_error_replies [simp]:
  "no_error (respInteger n)" "no_error (respSimpleString s)" "no_error (nullableBulk v)" "no_error (respBulkString s)"
  by (simp_all add: no_error_def respInteger_def respSimpleString_def nullableBulk_def respBulkString_def
      respNull_def split: option.splits)

lemma replays_command:
  assumes "args \<noteq> []" "map_of commandTable (uppercase (args ! 0)) = Some spec"
    "\<not> arity_error (arity spec) args"
    "determined t (spec_handler spec) args m (Inr s) m' ls" "no_error s"
  shows "replays t [args] m m'"
  unfolding replays_def
proof (intro allI impI)
  fix q assume q: "replayer t q m"
  let ?q = "q\<lparr>serverStats := (serverStats q)\<lparr>totalCommands := totalCommands (serverStats q) + 1\<rparr>\<rparr>"
  have "frozen t (database ?q) m" using q by (simp add: replayer_def)
  with assms(4) have o: "outcome t ?q (spec_handler spec args ?q) (Inr s) m' ls"
    by (simp add: determined_def)
  obtain q' where h: "spec_handler spec args ?q = (Inr s, q')"
    using o by (cases "spec_handler spec args ?q") (simp add: outcome_def)
  have "replayer t q' m'"
    using o q by (auto simp: h outcome_def replayer_def conf_def)
  moreover have "execute args q = (Inr (reply_of s), q')"
    using execute_replayer [OF _ _ assms(1-3), of q] q h
    by (simp add: replayer_def call_handler_def catch_reply_def)
  ultimately show "\<exists>q'. replay_all replay_command [args] q = Some q' \<and> replayer t q' m'"
    using assms(5) by (auto simp: replay_command_def reply_of_def no_error_def)
qed

text \<open>
  A handler whose log replays to what it did, for every live keyspace.
\<close>

definition faithful :: "int \<Rightarrow> handler \<Rightarrow> bytes list \<Rightarrow> bool" where
  "faithful t h args \<longleftrightarrow> (\<forall>m. store_ok t m \<longrightarrow>
     (\<exists>r m' ls. determined t h args m r m' ls \<and> replays t ls m m'))"

lemma faithful_call:
  assumes "args \<noteq> []" "map_of commandTable (uppercase (args ! 0)) = Some spec"
    "\<not> arity_error (arity spec) args" "implements t f F"
    and h: "\<And>p. spec_handler spec args p =
      and_then (db_call f p) (\<lambda>x p1. (Inr (reply x), if l x then propagate args p1 else p1))"
    and ok: "\<And>x. no_error (reply x)"
    and err: "\<And>m e. store_ok t m \<Longrightarrow> fst (F m) = Inl e \<Longrightarrow> snd (F m) = m"
    and quiet: "\<And>m x. store_ok t m \<Longrightarrow> fst (F m) = Inr x \<Longrightarrow> \<not> l x \<Longrightarrow> snd (F m) = m"
  shows "faithful t (spec_handler spec) args"
  unfolding faithful_def
proof (intro allI impI)
  fix m assume m: "store_ok t m"
  let ?ls = "case fst (F m) of Inl e \<Rightarrow> [] | Inr x \<Rightarrow> if l x then [args] else []"
  have d: "determined t (spec_handler spec) args m (map_sum id reply (fst (F m))) (snd (F m)) ?ls"
    using assms(4) by (rule determined_call) (rule h)
  have "replays t ?ls m (snd (F m))"
  proof (cases "fst (F m)")
    case (Inl e)
    with err [OF m] show ?thesis by simp
  next
    case (Inr x)
    then show ?thesis
      using quiet [OF m Inr] replays_command [OF assms(1-3), of t m "reply x"] d ok [of x] by auto
  qed
  with d show "\<exists>r m' ls. determined t (spec_handler spec) args m r m' ls \<and> replays t ls m m'" by blast
qed

section \<open>The write commands that log themselves\<close>

text \<open>The handler of a command name.\<close>

lemma faithful_named:
  assumes "map_of commandTable name = Some (command_spec h n True d)" "uppercase (args ! 0) = name"
    "\<not> arity_error n args" "args \<noteq> []" "implements t f F"
    and "\<And>p. h args p = and_then (db_call f p) (\<lambda>x p1. (Inr (reply x), if l x then propagate args p1 else p1))"
    and "\<And>x. no_error (reply x)"
    and "\<And>m e. store_ok t m \<Longrightarrow> fst (F m) = Inl e \<Longrightarrow> snd (F m) = m"
    and "\<And>m x. store_ok t m \<Longrightarrow> fst (F m) = Inr x \<Longrightarrow> \<not> l x \<Longrightarrow> snd (F m) = m"
  shows "faithful t h args"
proof -
  have "faithful t (spec_handler (command_spec h n True d)) args"
    by (rule faithful_call [where f = f and F = F and reply = reply and l = l])
      (use assms in \<open>simp_all add: command_spec_def\<close>)
  then show ?thesis by (simp add: command_spec_def)
qed

lemma implements_Inr:
  "implements t f F \<Longrightarrow> implements t (\<lambda>db. apfst Inr (f db)) (\<lambda>m. apfst Inr (F m))"
  by (simp add: implements_def)

lemma upsert_error: "store_ok t m \<Longrightarrow> fst (spec_upsert as v0 f t k m) = Inl e \<Longrightarrow> snd (spec_upsert as v0 f t k m) = m"
  unfolding spec_upsert_def Let_def by (auto split: prod.splits sum.splits)

lemma shrink_error: "store_ok t m \<Longrightarrow> fst (spec_shrink as d f t k m) = Inl e \<Longrightarrow> snd (spec_shrink as d f t k m) = m"
  unfolding spec_shrink_def Let_def by (auto split: option.splits prod.splits sum.splits)

lemma incr_error:
  assumes "store_ok t m" "in_llong n" "fst (spec_incr n t k m) = Inl e"
  shows "snd (spec_incr n t k m) = m"
proof (cases "m k")
  case None
  have "parseStrictInteger ''0'' = Some 0" by code_simp
  with None assms show ?thesis by (simp add: spec_incr_def Let_def)
next
  case (Some x)
  with assms show ?thesis
    by (cases x) (auto simp: spec_incr_def Let_def split: sum.splits option.splits if_splits)
qed

lemma pop_quiet: "store_ok t m \<Longrightarrow> fst (spec_pop side t k m) = Inr None \<Longrightarrow> snd (spec_pop side t k m) = m"
  unfolding spec_pop_def spec_shrink_def Let_def by (auto split: option.splits prod.splits sum.splits)

lemma hdel_quiet:
  assumes "store_ok t m" "fst (spec_hdel ks t k m) = Inr 0"
  shows "snd (spec_hdel ks t k m) = m"
proof (cases "m k")
  case None
  with assms(1) show ?thesis by (simp add: spec_hdel_def spec_shrink_def Let_def)
next
  case (Some x)
  obtain v d where x: "x = (v, d)" by (cases x)
  show ?thesis
  proof (cases v)
    case (AHash h)
    have ne: "h \<noteq> Map.empty" using assms(1) Some x AHash by (auto simp: store_ok_def)
    have "set ks \<inter> dom h = {}"
      using assms Some x AHash by (simp add: spec_hdel_def spec_shrink_def Let_def)
    then have "h |` (- set ks) = h" by (auto simp: restrict_map_def fun_eq_iff disjoint_iff domIff)
    with ne assms(1) Some x AHash show ?thesis
      by (simp add: spec_hdel_def spec_shrink_def Let_def fun_upd_idem)
  qed (use assms Some x in \<open>simp_all add: spec_hdel_def spec_shrink_def Let_def\<close>)
qed

lemma srem_quiet:
  assumes "store_ok t m" "fst (spec_srem ks t k m) = Inr 0"
  shows "snd (spec_srem ks t k m) = m"
proof (cases "m k")
  case None
  with assms(1) show ?thesis by (simp add: spec_srem_def spec_shrink_def Let_def)
next
  case (Some x)
  obtain v d where x: "x = (v, d)" by (cases x)
  show ?thesis
  proof (cases v)
    case (ASet s)
    have ne: "s \<noteq> {}" using assms(1) Some x ASet by (auto simp: store_ok_def)
    have "s \<inter> set ks = {}"
      using assms Some x ASet by (simp add: spec_srem_def spec_shrink_def Let_def)
    then have "s - set ks = s" "\<not> s \<subseteq> set ks" using ne by auto
    with ne assms(1) Some x ASet show ?thesis
      by (simp add: spec_srem_def spec_shrink_def Let_def fun_upd_idem del: Diff_eq_empty_iff)
  qed (use assms Some x in \<open>simp_all add: spec_srem_def spec_shrink_def Let_def\<close>)
qed

lemma sadd_quiet:
  assumes "store_ok t m" "fst (spec_sadd vs t k m) = Inr 0" "vs \<noteq> []"
  shows "snd (spec_sadd vs t k m) = m"
proof (cases "m k")
  case None
  with assms show ?thesis by (simp add: spec_sadd_def spec_upsert_def Let_def)
next
  case (Some x)
  obtain v d where x: "x = (v, d)" by (cases x)
  show ?thesis
  proof (cases v)
    case (ASet s)
    have "set vs - s = {}"
      using assms Some x ASet by (simp add: spec_sadd_def spec_upsert_def Let_def)
    then have "s \<union> set vs = s" by auto
    with assms(1) Some x ASet show ?thesis
      by (simp add: spec_sadd_def spec_upsert_def Let_def fun_upd_idem)
  qed (use assms Some x in \<open>simp_all add: spec_sadd_def spec_upsert_def Let_def\<close>)
qed

lemma persist_quiet:
  "store_ok t m \<Longrightarrow> fst (spec_persist t k m) = False \<Longrightarrow> snd (spec_persist t k m) = m"
  by (simp add: spec_persist_def Let_def split: option.splits prod.splits)

text \<open>\<open>DEL\<close> and \<open>MSET\<close> over several keys.\<close>

fun spec_dels :: "int \<Rightarrow> bytes list \<Rightarrow> nat \<Rightarrow> astore \<Rightarrow> nat \<times> astore" where
  "spec_dels t [] n m = (n, m)"
| "spec_dels t (k # ks) n m =
     (let (gone, m1) = spec_del t k m in spec_dels t ks (if gone then Suc n else n) m1)"

lemma implements_dels: "implements t (del_loop ks n) (spec_dels t ks n)"
proof (induction ks arbitrary: n)
  case Nil
  then show ?case by (simp add: implements_def)
next
  case (Cons k ks)
  show ?case
    unfolding implements_def
  proof (intro allI impI)
    fix db m assume f: "frozen t db m"
    obtain g db1 where d: "db_del k db = (g, db1)" by (cases "db_del k db")
    then have "fst (spec_del t k m) = g" "frozen t db1 (snd (spec_del t k m))" "conf db1 = conf db"
      using implements_ops(1) [of t k] f unfolding implements_def by (metis fst_conv snd_conv)+
    with Cons.IH [of "if g then Suc n else n"] d
    show "fst (del_loop (k # ks) n db) = fst (spec_dels t (k # ks) n m) \<and>
        frozen t (snd (del_loop (k # ks) n db)) (snd (spec_dels t (k # ks) n m)) \<and>
        conf (snd (del_loop (k # ks) n db)) = conf db"
      by (cases "spec_del t k m") (simp add: implements_def)
  qed
qed

lemma spec_dels_quiet:
  assumes "live t m = m"
  shows "n \<le> fst (spec_dels t ks n m) \<and> (fst (spec_dels t ks n m) = n \<longrightarrow> snd (spec_dels t ks n m) = m) \<and>
    snd (spec_dels t ks n m) = m |` (- set ks)"
  using assms
proof (induction ks arbitrary: n m)
  case Nil
  then show ?case by simp
next
  case (Cons k ks)
  have p: "purge t k m = m" using Cons.prems by (metis purge_of_live)
  have l: "live t (m(k := None)) = m(k := None)" using Cons.prems by simp
  have r: "m |` (- set (k # ks)) = m(k := None) |` (- set ks)"
    by (auto simp: restrict_map_def fun_eq_iff)
  let ?n = "if m k \<noteq> None then Suc n else n"
  have step: "spec_dels t (k # ks) n m = spec_dels t ks ?n (m(k := None))"
    using p by (simp add: spec_del_def)
  have ih: "?n \<le> fst (spec_dels t ks ?n (m(k := None)))"
    "fst (spec_dels t ks ?n (m(k := None))) = ?n \<Longrightarrow> snd (spec_dels t ks ?n (m(k := None))) = m(k := None)"
    "snd (spec_dels t ks ?n (m(k := None))) = m(k := None) |` (- set ks)"
    using Cons.IH [OF l, of ?n] by blast+
  have n: "n \<le> ?n" by simp
  have same: "m(k := None) = m" if "?n = n" using that by (cases "m k = None") (simp_all add: fun_upd_idem)
  have "snd (spec_dels t ks ?n (m(k := None))) = m" if "fst (spec_dels t ks ?n (m(k := None))) = n"
  proof -
    have "?n = n" using ih(1) n that by linarith
    then show ?thesis using ih(2) same that by argo
  qed
  then show ?case
    unfolding step r using le_trans [OF n ih(1)] ih(3) by blast
qed

fun spec_mset :: "bytes list \<Rightarrow> astore \<Rightarrow> astore" where
  "spec_mset (k # v # rest) m = spec_mset rest (spec_set k v m)"
| "spec_mset _ m = m"

lemma implements_mset: "implements t (\<lambda>db. (Inr (), mset_loop kvs db)) (\<lambda>m. (Inr (), spec_mset kvs m))"
proof -
  have "frozen t db m \<Longrightarrow> frozen t (mset_loop kvs db) (spec_mset kvs m) \<and> conf (mset_loop kvs db) = conf db" for db m
  proof (induction kvs db arbitrary: m rule: mset_loop.induct)
    case (1 k v rest db)
    then have "frozen t (db_set k v db) (spec_set k v m)"
      using implements_set [of t k v] by (simp add: implements_def)
    with 1 show ?case by fastforce
  qed simp_all
  then show ?thesis by (simp add: implements_def)
qed

lemma op_errors:
  "store_ok t m \<Longrightarrow> fst (spec_append v t k m) = Inl e \<Longrightarrow> snd (spec_append v t k m) = m"
  "store_ok t m \<Longrightarrow> fst (spec_push vs side t k m) = Inl e \<Longrightarrow> snd (spec_push vs side t k m) = m"
  "store_ok t m \<Longrightarrow> fst (spec_hset fs t k m) = Inl e \<Longrightarrow> snd (spec_hset fs t k m) = m"
  "store_ok t m \<Longrightarrow> fst (spec_sadd vs t k m) = Inl e \<Longrightarrow> snd (spec_sadd vs t k m) = m"
  "store_ok t m \<Longrightarrow> fst (spec_pop side t k m) = Inl e \<Longrightarrow> snd (spec_pop side t k m) = m"
  "store_ok t m \<Longrightarrow> fst (spec_hdel vs t k m) = Inl e \<Longrightarrow> snd (spec_hdel vs t k m) = m"
  "store_ok t m \<Longrightarrow> fst (spec_srem vs t k m) = Inl e \<Longrightarrow> snd (spec_srem vs t k m) = m"
  unfolding update_specs by (erule (1) upsert_error shrink_error)+

lemma arity_exact: "0 < n \<Longrightarrow> length args = nat n \<Longrightarrow> \<not> arity_error n args"
  by (simp add: arity_error_def)

lemma arity_at_least: "n < 0 \<Longrightarrow> nat (- n) \<le> length args \<Longrightarrow> \<not> arity_error n args"
  by (auto simp: arity_error_def Let_def)

lemma parse_llong: "cmd_parseInteger s = Some n \<Longrightarrow> in_llong n"
  unfolding cmd_parseInteger_def
  by (auto split: if_splits option.splits list.splits dest: from_chars_ll_range)

text \<open>A handler that answers an error before it touches anything.\<close>

lemma faithful_refuse: "(\<And>p. h args p = (Inr s, p)) \<Longrightarrow> faithful t h args"
  unfolding faithful_def determined_def outcome_def
  by (metis option.map_id fold_Nil fst_conv snd_conv replays_Nil id_apply option.map_ident)

lemma faithful_cong: "(\<And>p. h args p = h' args p) \<Longrightarrow> faithful t h' args \<Longrightarrow> faithful t h args"
  by (simp add: faithful_def determined_def)

lemma table_entries:
  "map_of commandTable ''DEL'' = Some (command_spec cmd_del (-2) True False)"
  "map_of commandTable ''UNLINK'' = Some (command_spec cmd_del (-2) True False)"
  "map_of commandTable ''PERSIST'' = Some (command_spec cmd_persist 2 True False)"
  "map_of commandTable ''MSET'' = Some (command_spec cmd_mset (-3) True True)"
  "map_of commandTable ''INCR'' = Some (command_spec cmd_incr 2 True True)"
  "map_of commandTable ''DECR'' = Some (command_spec cmd_decr 2 True True)"
  "map_of commandTable ''INCRBY'' = Some (command_spec cmd_incrby 3 True True)"
  "map_of commandTable ''DECRBY'' = Some (command_spec cmd_decrby 3 True True)"
  "map_of commandTable ''APPEND'' = Some (command_spec cmd_append 3 True True)"
  "map_of commandTable ''LPUSH'' = Some (command_spec cmd_lpush (-3) True True)"
  "map_of commandTable ''RPUSH'' = Some (command_spec cmd_rpush (-3) True True)"
  "map_of commandTable ''LPOP'' = Some (command_spec cmd_lpop 2 True False)"
  "map_of commandTable ''RPOP'' = Some (command_spec cmd_rpop 2 True False)"
  "map_of commandTable ''HSET'' = Some (command_spec cmd_hset (-4) True True)"
  "map_of commandTable ''HDEL'' = Some (command_spec cmd_hdel (-3) True False)"
  "map_of commandTable ''SADD'' = Some (command_spec cmd_sadd (-3) True True)"
  "map_of commandTable ''SREM'' = Some (command_spec cmd_srem (-3) True False)"
  "map_of commandTable ''SET'' = Some (command_spec cmd_set (-3) True True)"
  "map_of commandTable ''PEXPIREAT'' = Some (command_spec cmd_pexpireat 3 True False)"
  "map_of commandTable ''FLUSHALL'' = Some (command_spec cmd_flushall (-1) True False)"
  by (simp_all add: commandTable_def)

lemma incr_faithful:
  assumes "map_of commandTable name = Some (command_spec h n True d)" "uppercase (args ! 0) = name"
    "\<not> arity_error n args" "args \<noteq> []" "in_llong delta"
    "\<And>p. h args p = and_then (db_call (incrementBy k delta) p) (\<lambda>r p1. (Inr (respInteger r), propagate args p1))"
  shows "faithful t h args"
  by (rule faithful_named [where f = "incrementBy k delta" and F = "spec_incr delta t k" and
        reply = respInteger and l = "\<lambda>_. True", OF assms(1-4) implements_ops(4)])
    (simp_all add: assms(6), erule (1) incr_error [OF _ assms(5)])

lemma string_faithful [faithful_handlers]:
  assumes "args \<noteq> []"
  shows "uppercase (args ! 0) = ''INCR'' \<Longrightarrow> \<not> arity_error 2 args \<Longrightarrow> faithful t cmd_incr args"
    "uppercase (args ! 0) = ''DECR'' \<Longrightarrow> \<not> arity_error 2 args \<Longrightarrow> faithful t cmd_decr args"
    "uppercase (args ! 0) = ''INCRBY'' \<Longrightarrow> \<not> arity_error 3 args \<Longrightarrow> faithful t cmd_incrby args"
    "uppercase (args ! 0) = ''DECRBY'' \<Longrightarrow> \<not> arity_error 3 args \<Longrightarrow> faithful t cmd_decrby args"
    "uppercase (args ! 0) = ''APPEND'' \<Longrightarrow> \<not> arity_error 3 args \<Longrightarrow> faithful t cmd_append args"
    "uppercase (args ! 0) = ''MSET'' \<Longrightarrow> \<not> arity_error (-3) args \<Longrightarrow> faithful t cmd_mset args"
proof -
  show "faithful t cmd_incr args" if "uppercase (args ! 0) = ''INCR''" "\<not> arity_error 2 args"
    using incr_faithful [OF table_entries(5) that assms, of 1 "args ! 1"]
    by (simp add: cmd_incr_def in_llong_def LLONG_MIN_def LLONG_MAX_def)
  show "faithful t cmd_decr args" if "uppercase (args ! 0) = ''DECR''" "\<not> arity_error 2 args"
    using incr_faithful [OF table_entries(6) that assms, of "-1" "args ! 1"]
    by (simp add: cmd_decr_def in_llong_def LLONG_MIN_def LLONG_MAX_def)
  show "faithful t cmd_incrby args" if "uppercase (args ! 0) = ''INCRBY''" "\<not> arity_error 3 args"
  proof (cases "cmd_parseInteger (args ! 2)")
    case None
    then show ?thesis by (intro faithful_refuse) (simp add: cmd_incrby_def)
  next
    case (Some n)
    then show ?thesis
      using incr_faithful [OF table_entries(7) that assms, of n "args ! 1"] parse_llong [OF Some]
      by (simp add: cmd_incrby_def)
  qed
  show "faithful t cmd_decrby args" if "uppercase (args ! 0) = ''DECRBY''" "\<not> arity_error 3 args"
  proof (cases "cmd_parseInteger (args ! 2)")
    case None
    then show ?thesis by (intro faithful_refuse) (simp add: cmd_decrby_def)
  next
    case (Some n)
    show ?thesis
    proof (cases "n = LLONG_MIN")
      case True
      with Some show ?thesis by (intro faithful_refuse) (simp add: cmd_decrby_def)
    next
      case False
      then have "in_llong (- n)"
        using parse_llong [OF Some] by (simp add: in_llong_def LLONG_MIN_def LLONG_MAX_def)
      with False Some show ?thesis
        using incr_faithful [OF table_entries(8) that assms, of "- n" "args ! 1"] by (simp add: cmd_decrby_def)
    qed
  qed
  show "faithful t cmd_append args" if "uppercase (args ! 0) = ''APPEND''" "\<not> arity_error 3 args"
    by (rule faithful_named [where reply = "\<lambda>n. respInteger (int n)" and l = "\<lambda>_. True",
          OF table_entries(9) that assms implements_ops(3)])
      (simp_all add: cmd_append_def, (erule (1) op_errors)+)
  show "faithful t cmd_mset args" if "uppercase (args ! 0) = ''MSET''" "\<not> arity_error (-3) args"
  proof (cases "length args mod 2 = 0")
    case True
    then show ?thesis by (intro faithful_refuse) (simp add: cmd_mset_def)
  next
    case False
    then show ?thesis
      by (intro faithful_named [where reply = "\<lambda>_. respSimpleString ''OK''" and l = "\<lambda>_. True",
            OF table_entries(4) that assms implements_mset [of t "drop 1 args"]])
        (simp_all add: cmd_mset_def db_call_def and_then_def Let_def)
  qed
qed

lemma list_faithful [faithful_handlers]:
  assumes "args \<noteq> []"
  shows "uppercase (args ! 0) = ''LPUSH'' \<Longrightarrow> \<not> arity_error (-3) args \<Longrightarrow> faithful t cmd_lpush args"
    "uppercase (args ! 0) = ''RPUSH'' \<Longrightarrow> \<not> arity_error (-3) args \<Longrightarrow> faithful t cmd_rpush args"
    "uppercase (args ! 0) = ''LPOP'' \<Longrightarrow> \<not> arity_error 2 args \<Longrightarrow> faithful t cmd_lpop args"
    "uppercase (args ! 0) = ''RPOP'' \<Longrightarrow> \<not> arity_error 2 args \<Longrightarrow> faithful t cmd_rpop args"
proof -
  have vs: "drop 2 args \<noteq> []" if "\<not> arity_error (-3) args" using that by (simp add: arity_error_def)
  show "faithful t cmd_lpush args" if "uppercase (args ! 0) = ''LPUSH''" "\<not> arity_error (-3) args"
    by (rule faithful_named [where reply = "\<lambda>n. respInteger (int n)" and l = "\<lambda>_. True",
          OF table_entries(10) that assms implements_ops(7) [OF vs [OF that(2)]]])
      (simp_all add: cmd_lpush_def, (erule (1) op_errors)+)
  show "faithful t cmd_rpush args" if "uppercase (args ! 0) = ''RPUSH''" "\<not> arity_error (-3) args"
    by (rule faithful_named [where reply = "\<lambda>n. respInteger (int n)" and l = "\<lambda>_. True",
          OF table_entries(11) that assms implements_ops(7) [OF vs [OF that(2)]]])
      (simp_all add: cmd_rpush_def, (erule (1) op_errors)+)
  show "faithful t cmd_lpop args" if "uppercase (args ! 0) = ''LPOP''" "\<not> arity_error 2 args"
    by (rule faithful_named [where reply = nullableBulk and l = "\<lambda>v. v \<noteq> None",
          OF table_entries(12) that assms implements_ops(6)])
      (simp_all add: cmd_lpop_def, (erule (1) op_errors pop_quiet)+)
  show "faithful t cmd_rpop args" if "uppercase (args ! 0) = ''RPOP''" "\<not> arity_error 2 args"
    by (rule faithful_named [where reply = nullableBulk and l = "\<lambda>v. v \<noteq> None",
          OF table_entries(13) that assms implements_ops(6)])
      (simp_all add: cmd_rpop_def, (erule (1) op_errors pop_quiet)+)
qed

lemma aggregate_faithful [faithful_handlers]:
  assumes "args \<noteq> []"
  shows "uppercase (args ! 0) = ''HSET'' \<Longrightarrow> \<not> arity_error (-4) args \<Longrightarrow> faithful t cmd_hset args"
    "uppercase (args ! 0) = ''HDEL'' \<Longrightarrow> \<not> arity_error (-3) args \<Longrightarrow> faithful t cmd_hdel args"
    "uppercase (args ! 0) = ''SADD'' \<Longrightarrow> \<not> arity_error (-3) args \<Longrightarrow> faithful t cmd_sadd args"
    "uppercase (args ! 0) = ''SREM'' \<Longrightarrow> \<not> arity_error (-3) args \<Longrightarrow> faithful t cmd_srem args"
proof -
  show "faithful t cmd_hset args" if "uppercase (args ! 0) = ''HSET''" "\<not> arity_error (-4) args"
  proof (cases "length args mod 2 = 0")
    case True
    have fs: "pairs (drop 2 args) \<noteq> []"
      using that(2) by (intro pairs_nonempty) (simp add: arity_error_def Let_def)
    from True show ?thesis
      by (intro faithful_named [where reply = "\<lambda>n. respInteger (int n)" and l = "\<lambda>_. True",
            OF table_entries(14) that assms implements_ops(8) [OF fs]])
        (simp_all add: cmd_hset_def, (erule (1) op_errors)+)
  next
    case False
    then show ?thesis by (intro faithful_refuse) (simp add: cmd_hset_def)
  qed
  show "faithful t cmd_hdel args" if "uppercase (args ! 0) = ''HDEL''" "\<not> arity_error (-3) args"
    by (rule faithful_named [where reply = "\<lambda>n. respInteger (int n)" and l = "\<lambda>n. n > 0",
          OF table_entries(15) that assms implements_ops(9)])
      (simp_all add: cmd_hdel_def, (erule (1) op_errors hdel_quiet)+)
  show "faithful t cmd_sadd args" if "uppercase (args ! 0) = ''SADD''" "\<not> arity_error (-3) args"
  proof -
    have vs: "drop 2 args \<noteq> []" using that by (simp add: arity_error_def)
    show ?thesis
      by (rule faithful_named [where reply = "\<lambda>n. respInteger (int n)" and l = "\<lambda>n. n > 0",
            OF table_entries(16) that assms implements_ops(10) [OF vs]])
        (simp_all add: cmd_sadd_def, (erule (1) op_errors sadd_quiet [OF _ _ vs])+)
  qed
  show "faithful t cmd_srem args" if "uppercase (args ! 0) = ''SREM''" "\<not> arity_error (-3) args"
    by (rule faithful_named [where reply = "\<lambda>n. respInteger (int n)" and l = "\<lambda>n. n > 0",
          OF table_entries(17) that assms implements_ops(11)])
      (simp_all add: cmd_srem_def, (erule (1) op_errors srem_quiet)+)
qed

lemma keyspace_faithful [faithful_handlers]:
  assumes "args \<noteq> []"
  shows "uppercase (args ! 0) = ''DEL'' \<Longrightarrow> \<not> arity_error (-2) args \<Longrightarrow> faithful t cmd_del args"
    "uppercase (args ! 0) = ''UNLINK'' \<Longrightarrow> \<not> arity_error (-2) args \<Longrightarrow> faithful t cmd_del args"
    "uppercase (args ! 0) = ''PERSIST'' \<Longrightarrow> \<not> arity_error 2 args \<Longrightarrow> faithful t cmd_persist args"
proof -
  have quiet: "m' = m" if "spec_dels t ks 0 m = (0, m')" "store_ok t m" for m m' ks
    using that spec_dels_quiet [of t m 0 ks] by (simp add: store_ok_def)
  show "faithful t cmd_del args" if "uppercase (args ! 0) = ''DEL''" "\<not> arity_error (-2) args"
    by (rule faithful_named [where reply = "\<lambda>n. respInteger (int n)" and l = "\<lambda>n. n > 0",
          OF table_entries(1) that assms implements_Inr [OF implements_dels [of t "drop 1 args" 0]]])
      (auto simp: cmd_del_def db_call_def and_then_def Let_def apfst_def map_prod_def split: prod.splits dest: quiet)
  show "faithful t cmd_del args" if "uppercase (args ! 0) = ''UNLINK''" "\<not> arity_error (-2) args"
    by (rule faithful_named [where reply = "\<lambda>n. respInteger (int n)" and l = "\<lambda>n. n > 0",
          OF table_entries(2) that assms implements_Inr [OF implements_dels [of t "drop 1 args" 0]]])
      (auto simp: cmd_del_def db_call_def and_then_def Let_def apfst_def map_prod_def split: prod.splits dest: quiet)
  have keep: "m' = m" if "spec_persist t k m = (False, m')" "store_ok t m" for k m m'
    using persist_quiet [OF that(2), of k] that(1) by simp
  show "faithful t cmd_persist args" if "uppercase (args ! 0) = ''PERSIST''" "\<not> arity_error 2 args"
    by (rule faithful_named [where reply = "\<lambda>b. respInteger (if b then 1 else 0)" and l = "\<lambda>b. b",
          OF table_entries(3) that assms implements_Inr [OF implements_ops(5) [of t "args ! 1"]]])
      (auto simp: cmd_persist_def db_call_def and_then_def Let_def apfst_def map_prod_def split: prod.splits dest: keep)
qed

end
