(* ===== verification/FKV_Replay_Log.thy ===== *)
theory FKV_Replay_Log
  imports FKV_Replay
begin

text \<open>
  The commands that log something other than themselves, the logging of evictions, and the
  faithfulness of \<open>execute\<close> and of whole command sequences.
\<close>

section \<open>Deadlines\<close>

lemma determined_replay:
  assumes "determined t h args m r m' ls" "replays t ls m m'"
  shows "\<exists>r m' ls. determined t h args m r m' ls \<and> replays t ls m m'"
  using assms by blast

text \<open>Replaying an absolute deadline that lies in the future, and a deletion.\<close>

lemma expire_when_absolute [simp]: "in_llong d \<Longrightarrow> expire_when d 1 True p = (Some d, p)"
  by (simp add: expire_when_def mul_overflow_def)

lemma parse_to_string: "in_llong d \<Longrightarrow> cmd_parseInteger (to_string d) = Some d"
  using from_chars_to_string [of d "[]"]
  by (auto simp: cmd_parseInteger_def to_string_def)

text \<open>The database calls of \<open>expireGeneric\<close> once the deadline is known.\<close>

lemma frozen_exists:
  assumes "frozen t db m"
  obtains db1 where "db_exists k db = (m k \<noteq> None, db1)" "frozen t db1 m" "conf db1 = conf db"
proof -
  have "spec_exists t k m = (m k \<noteq> None, m)"
    using frozen_store_ok [OF assms] by (simp add: spec_exists_def Let_def)
  then show thesis
    using implementsD [OF implements_ops(2) [of t k] assms] that by force
qed

lemma frozen_set:
  assumes "frozen t db m"
  shows "frozen t (db_set k v db) (m(k \<mapsto> (AString v, None)))"
  using implements_set [of t k v] assms unfolding implements_def by (simp add: spec_set_def)

lemma spec_expire_at_live:
  assumes "store_ok t m"
  shows "spec_expire_at d t t k m = (case m k of None \<Rightarrow> (False, m)
    | Some (v, _) \<Rightarrow> (True, m(k := (if d \<le> t then None else Some (v, Some d)))))"
  using assms by (simp add: spec_expire_at_def Let_def)

text \<open>The log entry for a key whose deadline was set to \<open>d\<close>.\<close>

definition expire_log :: "int \<Rightarrow> bytes \<Rightarrow> int \<Rightarrow> bytes list" where
  "expire_log t k d = (if d \<le> t then [''DEL'', k] else [''PEXPIREAT'', k, to_string d])"

lemma expireGeneric_outcome:
  assumes f: "frozen t (database p) m" and n: "cmd_parseInteger (args ! 2) = Some n"
    and w: "expire_when n u b p = (Some d, p1)" "frozen t (database p1) m" "aof p1 = aof p"
      "conf (database p1) = conf (database p)"
    and x: "m (args ! 1) = Some (v, e)"
  shows "outcome t p (expireGeneric args u b p) (Inr (respInteger 1))
    (m(args ! 1 := (if d \<le> t then None else Some (v, Some d)))) [expire_log t (args ! 1) d]"
proof -
  let ?k = "args ! 1"
  have s: "spec_expire_at d t t ?k m = (True, m(?k := (if d \<le> t then None else Some (v, Some d))))"
    using spec_expire_at_live [OF frozen_store_ok [OF f], of d ?k] x by simp
  obtain db2 where e: "expireAtMs_op ?k d (database p1) = (True, db2)"
    "frozen t db2 (m(?k := (if d \<le> t then None else Some (v, Some d))))" "conf db2 = conf (database p1)"
    by (rule implementsD [OF implements_expireAt [of t ?k d] w(2)]) (use s in simp)
  obtain db3 where "db_exists ?k db2 = (\<not> d \<le> t, db3)"
    "frozen t db3 (m(?k := (if d \<le> t then None else Some (v, Some d))))" "conf db3 = conf db2"
    by (rule frozen_exists [OF e(2), of ?k]) simp
  with n w e show ?thesis
    by (auto simp: expireGeneric_def outcome_def db_call_def Let_def expire_log_def)
qed

lemma expireGeneric_missing:
  assumes f: "frozen t (database p) m" and n: "cmd_parseInteger (args ! 2) = Some n"
    and w: "expire_when n u b p = (Some d, p1)" "frozen t (database p1) m" "aof p1 = aof p"
      "conf (database p1) = conf (database p)"
    and x: "m (args ! 1) = None"
  shows "outcome t p (expireGeneric args u b p) (Inr (respInteger 0)) m []"
proof -
  have s: "spec_expire_at d t t (args ! 1) m = (False, m)"
    using spec_expire_at_live [OF frozen_store_ok [OF f], of d "args ! 1"] x by simp
  obtain db2 where "expireAtMs_op (args ! 1) d (database p1) = (False, db2)" "frozen t db2 m"
    "conf db2 = conf (database p1)"
    by (rule implementsD [OF implements_expireAt [of t "args ! 1" d] w(2)]) (use s in simp)
  with n w show ?thesis
    by (auto simp: expireGeneric_def outcome_def db_call_def Let_def option.map_id)
qed

lemma replays_del:
  assumes m: "store_ok t m"
  shows "replays t [[''DEL'', k]] m (m(k := None))"
proof -
  let ?F = "\<lambda>m. apfst (Inr :: nat \<Rightarrow> exn + nat) (spec_dels t [k] 0 m)"
  have "determined t cmd_del [''DEL'', k] m (map_sum id (\<lambda>n. respInteger (int n)) (fst (?F m))) (snd (?F m))
      (case fst (?F m) of Inl e \<Rightarrow> [] | Inr n \<Rightarrow> if n > 0 then [[''DEL'', k]] else [])"
    by (rule determined_call [where F = ?F, OF implements_Inr [OF implements_dels [of t "[k]" 0]]])
      (simp add: cmd_del_def db_call_def and_then_def Let_def split: prod.splits)
  moreover have "snd (spec_dels t [k] 0 m) = m(k := None)"
    using spec_dels_quiet [of t m 0 "[k]"] m by (auto simp: store_ok_def restrict_map_def fun_eq_iff)
  ultimately have d: "determined t (spec_handler (command_spec cmd_del (-2) True False)) [''DEL'', k] m
      (Inr (respInteger (int (fst (spec_dels t [k] 0 m))))) (m(k := None))
      (if fst (spec_dels t [k] 0 m) > 0 then [[''DEL'', k]] else [])"
    by (simp add: command_spec_def)
  have "uppercase ''DEL'' = ''DEL''" by code_simp
  then show ?thesis
    by (intro replays_command [OF _ _ _ d]) (simp_all add: table_entries arity_error_def command_spec_def)
qed

lemma replays_pexpireat:
  assumes m: "store_ok t m" "m k = Some (v, e)" and d: "in_llong d"
  shows "replays t [[''PEXPIREAT'', k, to_string d]] m (m(k := (if d \<le> t then None else Some (v, Some d))))"
proof -
  let ?args = "[''PEXPIREAT'', k, to_string d]"
  have "outcome t p (expireGeneric ?args 1 True p) (Inr (respInteger 1))
      (m(k := (if d \<le> t then None else Some (v, Some d)))) [expire_log t k d]" if "frozen t (database p) m" for p
    using expireGeneric_outcome [OF that, of ?args d 1 True d p v e] m d that by (simp add: parse_to_string)
  then have det: "determined t (spec_handler (command_spec cmd_pexpireat 3 True False)) ?args m
      (Inr (respInteger 1)) (m(k := (if d \<le> t then None else Some (v, Some d)))) [expire_log t k d]"
    by (simp add: determined_def command_spec_def cmd_pexpireat_def)
  have "uppercase ''PEXPIREAT'' = ''PEXPIREAT''" by code_simp
  then show ?thesis
    by (intro replays_command [OF _ _ _ det]) (simp_all add: table_entries arity_error_def command_spec_def)
qed

lemma expire_log_replays:
  assumes "store_ok t m" "m k = Some (v, e)" "in_llong d"
  shows "replays t [expire_log t k d] m (m(k := (if d \<le> t then None else Some (v, Some d))))"
  using replays_del [OF assms(1), of k] replays_pexpireat [OF assms] by (simp add: expire_log_def split: if_splits)

text \<open>What \<open>expire_when\<close> returns at a fixed time.\<close>

definition deadline_at :: "int \<Rightarrow> int \<Rightarrow> int \<Rightarrow> bool \<Rightarrow> int option" where
  "deadline_at t n u b =
     (case mul_overflow n u of None \<Rightarrow> None | Some d \<Rightarrow> if b then Some d else add_overflow d t)"

lemma expire_when_frozen:
  assumes "frozen t (database p) m"
  shows "\<exists>p1. expire_when n u b p = (deadline_at t n u b, p1) \<and> frozen t (database p1) m \<and>
    aof p1 = aof p \<and> conf (database p1) = conf (database p)"
proof (cases "mul_overflow n u")
  case None
  with assms show ?thesis by (simp add: expire_when_def deadline_at_def)
next
  case (Some d)
  then have mul: "mul_overflow n u = Some d" .
  show ?thesis
    unfolding expire_when_def deadline_at_def mul option.case
    using assms by (cases b) (simp_all add: db_call_def now_def frozen_def)
qed

lemma expireGeneric_faithful: "faithful t (\<lambda>args. expireGeneric args u b) args"
proof (cases "cmd_parseInteger (args ! 2)")
  case None
  then show ?thesis by (intro faithful_refuse) (simp add: expireGeneric_def)
next
  case (Some n)
  define w where "w = deadline_at t n u b"
  have ew: "\<exists>p1. expire_when n u b p = (w, p1) \<and> frozen t (database p1) m \<and> aof p1 = aof p \<and>
      conf (database p1) = conf (database p)" if "frozen t (database p) m" for p m
    using expire_when_frozen [OF that, of n u b] by (simp add: w_def)
  show ?thesis
    unfolding faithful_def
  proof (intro allI impI)
    fix m assume m: "store_ok t m"
    show "\<exists>r m' ls. determined t (\<lambda>args. expireGeneric args u b) args m r m' ls \<and> replays t ls m m'"
    proof (cases w)
      case None
      have "determined t (\<lambda>args. expireGeneric args u b) args m (Inr (respError (''invalid expire time in '' @ [SQUOTE] @
          lowercase (args ! 0) @ [SQUOTE] @ '' command''))) m []"
        unfolding determined_def
        using ew None Some by (fastforce simp: outcome_def expireGeneric_def option.map_id)
      then show ?thesis by (rule determined_replay) simp
    next
      case d: (Some d)
      then have r: "in_llong d" by (auto simp: w_def deadline_at_def split: option.splits if_splits)
      show ?thesis
      proof (cases "m (args ! 1)")
        case None
        have "determined t (\<lambda>args. expireGeneric args u b) args m (Inr (respInteger 0)) m []"
          unfolding determined_def
          using ew d expireGeneric_missing [where m = m and args = args, OF _ Some _ _ _ _ None] by blast
        then show ?thesis by (rule determined_replay) simp
      next
        case x: (Some x)
        obtain v e where ve: "m (args ! 1) = Some (v, e)" using x by (cases x) simp
        have "determined t (\<lambda>args. expireGeneric args u b) args m (Inr (respInteger 1))
            (m(args ! 1 := (if d \<le> t then None else Some (v, Some d)))) [expire_log t (args ! 1) d]"
          unfolding determined_def
          using ew d expireGeneric_outcome [where m = m and args = args, OF _ Some _ _ _ _ ve] by blast
        then show ?thesis by (rule determined_replay) (rule expire_log_replays [OF m ve r])
      qed
    qed
  qed
qed

section \<open>SET with its options\<close>

text \<open>The options at a fixed time, without the processor.\<close>

fun options_at :: "int \<Rightarrow> bytes list \<Rightarrow> SetOptions \<Rightarrow> bytes + SetOptions" where
  "options_at t [] opts = Inr opts"
| "options_at t (a # rest) opts =
     (let option = uppercase a in
      if option = ''NX'' then options_at t rest (opts\<lparr>onlyIfMissing := True\<rparr>)
      else if option = ''XX'' then options_at t rest (opts\<lparr>onlyIfPresent := True\<rparr>)
      else
        (case rest of
           [] \<Rightarrow> Inl syntaxError
         | v # rest' \<Rightarrow>
             if (option = ''EX'' \<or> option = ''PX'') \<and> deadline opts = None then
               (case cmd_parseInteger v of
                  None \<Rightarrow> Inl notAnInteger
                | Some amount \<Rightarrow>
                    if amount \<le> 0 then Inl (respError ''invalid expire time in 'set' command'')
                    else
                      (case deadline_at t amount (if option = ''EX'' then 1000 else 1) False of
                         None \<Rightarrow> Inl (respError ''invalid expire time in 'set' command'')
                       | Some w \<Rightarrow> options_at t rest' (opts\<lparr>deadline := Some w\<rparr>)))
             else Inl syntaxError))"

definition same_view :: "int \<Rightarrow> astore \<Rightarrow> CommandProcessor \<Rightarrow> CommandProcessor \<Rightarrow> bool" where
  "same_view t m p p1 \<longleftrightarrow> frozen t (database p1) m \<and> aof p1 = aof p \<and> conf (database p1) = conf (database p)"

lemma set_options_at:
  assumes "frozen t (database p) m"
  shows "\<exists>p1. set_options as opts p = (options_at t as opts, p1) \<and> same_view t m p p1"
  using assms
proof (induction as arbitrary: opts p rule: length_induct)
  case (1 as)
  show ?case
  proof (cases as)
    case Nil
    with 1 show ?thesis by (simp add: same_view_def)
  next
    case (Cons a rest)
    have IH: "\<exists>p1. set_options ys o1 q = (options_at t ys o1, p1) \<and> same_view t m q p1"
      if "length ys < length as" "frozen t (database q) m" for ys o1 q
      using 1(1) that by blast
    then have r: "\<exists>p1. set_options rest o1 p = (options_at t rest o1, p1) \<and> same_view t m p p1" for o1
      using 1(2) Cons by simp
    show ?thesis
    proof (cases rest)
      case Nil
      with Cons r 1(2) show ?thesis by (simp add: Let_def same_view_def)
    next
      case r': (Cons v rest')
      have ew: "\<exists>p2. (case expire_when n u False p of (None, p1) \<Rightarrow> (Inl s, p1)
            | (Some w, p1) \<Rightarrow> set_options rest' (opts\<lparr>deadline := Some w\<rparr>) p1) =
          (case deadline_at t n u False of None \<Rightarrow> Inl s
            | Some w \<Rightarrow> options_at t rest' (opts\<lparr>deadline := Some w\<rparr>), p2) \<and> same_view t m p p2" for n u s
      proof -
        obtain p1 where p1: "expire_when n u False p = (deadline_at t n u False, p1)" "same_view t m p p1"
          using expire_when_frozen [OF 1(2), of n u False] by (auto simp: same_view_def)
        show ?thesis
        proof (cases "deadline_at t n u False")
          case None
          with p1 show ?thesis by simp
        next
          case (Some w)
          obtain p2 where "set_options rest' (opts\<lparr>deadline := Some w\<rparr>) p1 =
              (options_at t rest' (opts\<lparr>deadline := Some w\<rparr>), p2)" "same_view t m p1 p2"
            using IH [of rest' p1] p1(2) Cons r' by (auto simp: same_view_def)
          with Some p1 show ?thesis by (simp add: same_view_def)
        qed
      qed
      show ?thesis
        using Cons r r' ew 1(2)
        by (auto simp: Let_def same_view_def [of t m p p] split: option.split)
    qed
  qed
qed

definition deadline_ok :: "SetOptions \<Rightarrow> bool" where
  "deadline_ok opts \<longleftrightarrow> (\<forall>d. deadline opts = Some d \<longrightarrow> in_llong d)"

lemma options_at_deadline:
  assumes "options_at t as opts = Inr opts'" "deadline_ok opts"
  shows "deadline_ok opts'"
  using assms
proof (induction as arbitrary: opts rule: length_induct)
  case (1 as)
  show ?case
  proof (cases as)
    case Nil
    with 1 show ?thesis by simp
  next
    case (Cons a rest)
    have IH: "deadline_ok opts'" if "length ys < length as" "options_at t ys o1 = Inr opts'" "deadline_ok o1" for ys o1
      using 1(1) that by blast
    have w: "in_llong w" if "deadline_at t n u False = Some w" for n u w
      using that by (auto simp: deadline_at_def split: option.splits)
    have ok: "deadline_ok (opts\<lparr>onlyIfMissing := True\<rparr>)" "deadline_ok (opts\<lparr>onlyIfPresent := True\<rparr>)"
      "in_llong w \<Longrightarrow> deadline_ok (opts\<lparr>deadline := Some w\<rparr>)" for w
      using 1(3) by (simp_all add: deadline_ok_def)
    show ?thesis
    proof (cases "uppercase a = ''NX'' \<or> uppercase a = ''XX''")
      case True
      then obtain o1 where "options_at t rest o1 = Inr opts'" "deadline_ok o1"
        using Cons 1(2) ok by (auto simp: Let_def)
      with Cons show ?thesis by (intro IH) simp_all
    next
      case False
      then obtain v rest' n u w1 where "rest = v # rest'" "deadline_at t n u False = Some w1"
        "options_at t rest' (opts\<lparr>deadline := Some w1\<rparr>) = Inr opts'"
        using Cons 1(2) by (auto simp: Let_def split: if_splits list.splits option.splits)
      moreover from this have "deadline_ok (opts\<lparr>deadline := Some w1\<rparr>)" using w ok(3) by blast
      ultimately show ?thesis using Cons by (intro IH [of rest']) simp_all
    qed
  qed
qed

section \<open>Handlers that log something else\<close>

text \<open>The log and the effect of a \<open>SET\<close> that is carried out.\<close>

definition set_log :: "bytes \<Rightarrow> bytes \<Rightarrow> int option \<Rightarrow> bytes list list" where
  "set_log k v d = [''SET'', k, v] # (case d of None \<Rightarrow> [] | Some w \<Rightarrow> [[''PEXPIREAT'', k, to_string w]])"

definition set_effect :: "int \<Rightarrow> bytes \<Rightarrow> bytes \<Rightarrow> int option \<Rightarrow> astore \<Rightarrow> astore" where
  "set_effect t k v d m = m(k := (case d of None \<Rightarrow> Some (AString v, None)
     | Some w \<Rightarrow> if w \<le> t then None else Some (AString v, Some w)))"

definition set_start :: SetOptions where
  "set_start = \<lparr>onlyIfMissing = False, onlyIfPresent = False, deadline = None\<rparr>"

lemma store_ok_set: "store_ok t m \<Longrightarrow> store_ok t (m(k \<mapsto> (AString v, None)))"
  by (auto simp: store_ok_def live_upd)

lemma set_outcome:
  assumes f: "frozen t (database p) m" and o: "options_at t (drop 3 args) set_start = Inr opts"
    and both: "\<not> (onlyIfMissing opts \<and> onlyIfPresent opts)"
    and cond: "\<not> (onlyIfMissing opts \<and> m (args ! 1) \<noteq> None \<or> onlyIfPresent opts \<and> m (args ! 1) = None)"
  shows "outcome t p (cmd_set args p) (Inr (respSimpleString ''OK''))
    (set_effect t (args ! 1) (args ! 2) (deadline opts) m) (set_log (args ! 1) (args ! 2) (deadline opts))"
proof -
  let ?k = "args ! 1" and ?v = "args ! 2"
  obtain p1 where p1: "set_options (drop 3 args) set_start p = (Inr opts, p1)" "same_view t m p p1"
    using set_options_at [OF f, of "drop 3 args" set_start] o by auto
  obtain db2 where x: "db_exists ?k (database p1) = (m ?k \<noteq> None, db2)" "frozen t db2 m" "conf db2 = conf (database p1)"
    using frozen_exists [of t "database p1" m ?k] p1(2) by (auto simp: same_view_def)
  let ?db3 = "db_set ?k ?v db2" and ?m3 = "m(?k \<mapsto> (AString ?v, None))"
  have 3: "frozen t ?db3 ?m3" "conf ?db3 = conf db2" using frozen_set [OF x(2)] by simp_all
  show ?thesis
  proof (cases "deadline opts")
    case None
    with p1 x 3 both cond show ?thesis
      by (auto simp: cmd_set_def set_start_def outcome_def db_call_def Let_def set_log_def set_effect_def
          same_view_def)
  next
    case (Some w)
    have e: "spec_expire_at w t t ?k ?m3 = (True, set_effect t ?k ?v (Some w) m)"
      using spec_expire_at_live [OF frozen_store_ok [OF 3(1)], of w ?k] by (simp add: set_effect_def)
    obtain db4 where "expireAtMs_op ?k w ?db3 = (True, db4)" "frozen t db4 (set_effect t ?k ?v (Some w) m)"
      "conf db4 = conf ?db3"
      by (rule implementsD [OF implements_expireAt [of t ?k w] 3(1)]) (use e in simp)
    with Some p1 x 3 both cond show ?thesis
      by (auto simp: cmd_set_def set_start_def outcome_def db_call_def Let_def set_log_def same_view_def
          option.map_comp o_def)
  qed
qed

lemma replays_set:
  assumes "store_ok t m"
  shows "replays t [[''SET'', k, v]] m (m(k \<mapsto> (AString v, None)))"
proof -
  have "outcome t p (cmd_set [''SET'', k, v] p) (Inr (respSimpleString ''OK'')) (m(k \<mapsto> (AString v, None)))
      [[''SET'', k, v]]" if "frozen t (database p) m" for p
    using set_outcome [OF that, of "[''SET'', k, v]" set_start]
    by (simp add: set_start_def set_log_def set_effect_def)
  then have d: "determined t (spec_handler (command_spec cmd_set (-3) True True)) [''SET'', k, v] m
      (Inr (respSimpleString ''OK'')) (m(k \<mapsto> (AString v, None))) [[''SET'', k, v]]"
    by (simp add: determined_def command_spec_def)
  have "uppercase ''SET'' = ''SET''" by code_simp
  then show ?thesis
    by (intro replays_command [OF _ _ _ d]) (simp_all add: table_entries arity_error_def command_spec_def)
qed

lemma set_log_replays:
  assumes "store_ok t m" "\<And>w. d = Some w \<Longrightarrow> in_llong w"
  shows "replays t (set_log k v d) m (set_effect t k v d m)"
proof (cases d)
  case None
  with replays_set [OF assms(1)] show ?thesis by (simp add: set_log_def set_effect_def)
next
  case (Some w)
  let ?m = "m(k \<mapsto> (AString v, None))"
  have "replays t [[''PEXPIREAT'', k, to_string w]] ?m (?m(k := (if w \<le> t then None else Some (AString v, Some w))))"
    using assms Some by (intro replays_pexpireat store_ok_set) simp_all
  with replays_append [OF replays_set [OF assms(1), of k v] this] Some show ?thesis
    by (simp add: set_log_def set_effect_def)
qed

lemma set_refused:
  assumes f: "frozen t (database p) m"
  shows "options_at t (drop 3 args) set_start = Inl reply \<Longrightarrow> outcome t p (cmd_set args p) (Inr reply) m []"
    "options_at t (drop 3 args) set_start = Inr opts \<Longrightarrow> onlyIfMissing opts \<and> onlyIfPresent opts \<Longrightarrow>
      outcome t p (cmd_set args p) (Inr syntaxError) m []"
    "options_at t (drop 3 args) set_start = Inr opts \<Longrightarrow> \<not> (onlyIfMissing opts \<and> onlyIfPresent opts) \<Longrightarrow>
      onlyIfMissing opts \<and> m (args ! 1) \<noteq> None \<or> onlyIfPresent opts \<and> m (args ! 1) = None \<Longrightarrow>
      outcome t p (cmd_set args p) (Inr respNull) m []"
proof -
  obtain p1 where p1: "set_options (drop 3 args) set_start p = (options_at t (drop 3 args) set_start, p1)"
    "same_view t m p p1"
    using set_options_at [OF f] by blast
  then show "options_at t (drop 3 args) set_start = Inl reply \<Longrightarrow> outcome t p (cmd_set args p) (Inr reply) m []"
    "options_at t (drop 3 args) set_start = Inr opts \<Longrightarrow> onlyIfMissing opts \<and> onlyIfPresent opts \<Longrightarrow>
      outcome t p (cmd_set args p) (Inr syntaxError) m []"
    by (auto simp: cmd_set_def set_start_def outcome_def same_view_def Let_def option.map_id)
  obtain db2 where "db_exists (args ! 1) (database p1) = (m (args ! 1) \<noteq> None, db2)" "frozen t db2 m"
    "conf db2 = conf (database p1)"
    using frozen_exists [of t "database p1" m "args ! 1"] p1(2) by (auto simp: same_view_def)
  with p1 show "options_at t (drop 3 args) set_start = Inr opts \<Longrightarrow> \<not> (onlyIfMissing opts \<and> onlyIfPresent opts) \<Longrightarrow>
      onlyIfMissing opts \<and> m (args ! 1) \<noteq> None \<or> onlyIfPresent opts \<and> m (args ! 1) = None \<Longrightarrow>
      outcome t p (cmd_set args p) (Inr respNull) m []"
    unfolding cmd_set_def set_start_def [symmetric]
    by (auto simp: outcome_def same_view_def Let_def option.map_id db_call_def)
qed

lemma cmd_set_faithful: "faithful t cmd_set args"
  unfolding faithful_def
proof (intro allI impI)
  fix m assume m: "store_ok t m"
  show "\<exists>r m' ls. determined t cmd_set args m r m' ls \<and> replays t ls m m'"
  proof (cases "options_at t (drop 3 args) set_start")
    case (Inl reply)
    then have "determined t cmd_set args m (Inr reply) m []" by (simp add: determined_def set_refused(1))
    then show ?thesis by (rule determined_replay) simp
  next
    case (Inr opts)
    have dl: "deadline_ok opts" using options_at_deadline [OF Inr] by (simp add: deadline_ok_def set_start_def)
    consider "onlyIfMissing opts \<and> onlyIfPresent opts"
      | "\<not> (onlyIfMissing opts \<and> onlyIfPresent opts)"
        "onlyIfMissing opts \<and> m (args ! 1) \<noteq> None \<or> onlyIfPresent opts \<and> m (args ! 1) = None"
      | "\<not> (onlyIfMissing opts \<and> onlyIfPresent opts)"
        "\<not> (onlyIfMissing opts \<and> m (args ! 1) \<noteq> None \<or> onlyIfPresent opts \<and> m (args ! 1) = None)"
      by blast
    then show ?thesis
    proof cases
      case 1
      then have "determined t cmd_set args m (Inr syntaxError) m []"
        unfolding determined_def using set_refused(2) [OF _ Inr] by blast
      then show ?thesis by (rule determined_replay) simp
    next
      case 2
      then have "determined t cmd_set args m (Inr respNull) m []"
        unfolding determined_def using set_refused(3) [OF _ Inr] by blast
      then show ?thesis by (rule determined_replay) simp
    next
      case 3
      then have "determined t cmd_set args m (Inr (respSimpleString ''OK''))
          (set_effect t (args ! 1) (args ! 2) (deadline opts) m) (set_log (args ! 1) (args ! 2) (deadline opts))"
        unfolding determined_def using set_outcome [OF _ Inr] by blast
      then show ?thesis
        by (rule determined_replay) (use dl in \<open>simp add: set_log_replays [OF m] deadline_ok_def\<close>)
    qed
  qed
qed

lemma cmd_flushall_faithful: "faithful t cmd_flushall args"
  unfolding faithful_def
proof (intro allI impI)
  fix m assume m: "store_ok t m"
  have d: "determined t cmd_flushall as m (Inr (respSimpleString ''OK'')) Map.empty [[''FLUSHALL'']]" for as
    unfolding determined_def
  proof (intro allI impI)
    fix p :: CommandProcessor assume "frozen t (database p) m"
    then show "outcome t p (cmd_flushall as p) (Inr (respSimpleString ''OK'')) Map.empty [[''FLUSHALL'']]"
      using implements_clear [of t] by (auto simp: implements_def outcome_def cmd_flushall_def)
  qed
  then have "determined t (spec_handler (command_spec cmd_flushall (-1) True False)) [''FLUSHALL''] m
      (Inr (respSimpleString ''OK'')) Map.empty [[''FLUSHALL'']]"
    by (simp add: command_spec_def)
  moreover have "uppercase ''FLUSHALL'' = ''FLUSHALL''" by code_simp
  ultimately have "replays t [[''FLUSHALL'']] m Map.empty"
    by (intro replays_command [where s = "respSimpleString ''OK''" and spec = "command_spec cmd_flushall (-1) True False"
          and ls = "[[''FLUSHALL'']]"])
      (simp_all add: table_entries arity_error_def command_spec_def)
  with d show "\<exists>r m' ls. determined t cmd_flushall args m r m' ls \<and> replays t ls m m'" by blast
qed

lemma expire_handlers_faithful:
  "faithful t cmd_expire args" "faithful t cmd_pexpire args" "faithful t cmd_expireat args"
  "faithful t cmd_pexpireat args"
  by (rule faithful_cong [OF _ expireGeneric_faithful],
      simp add: cmd_expire_def cmd_pexpire_def cmd_expireat_def cmd_pexpireat_def)+

text \<open>Every write command of the table.\<close>

lemma table_faithful:
  assumes "args \<noteq> []"
  shows "\<forall>(name, spec) \<in> set commandTable. write_cmd spec \<longrightarrow> uppercase (args ! 0) = name \<longrightarrow>
    \<not> arity_error (arity spec) args \<longrightarrow> faithful t (spec_handler spec) args"
  using assms unfolding commandTable_def command_spec_def
  by (simp add: faithful_handlers cmd_set_faithful cmd_flushall_faithful expire_handlers_faithful)

lemma write_command_faithful:
  assumes "map_of commandTable (uppercase (args ! 0)) = Some spec" "write_cmd spec" "args \<noteq> []"
    "\<not> arity_error (arity spec) args"
  shows "faithful t (spec_handler spec) args"
  using table_faithful [OF assms(3), of t] map_of_SomeD [OF assms(1)] assms(2,4) by blast

end
