(* ===== verification/FKV_Replay_Run.thy ===== *)
theory FKV_Replay_Run
  imports FKV_Replay_Log
begin

text \<open>
  Faithfulness of whole runs: evictions are logged as deletions, commands that are not writes
  leave the live keyspace and the log alone, and so the log of any command sequence replays to
  the keyspace the sequence left.
\<close>

section \<open>Evictions\<close>

lemma conf_evict_loop: "conf (snd (snd (evict_loop fuel ev db))) = conf db"
  by (induction fuel arbitrary: ev db) (simp_all add: Let_def)

lemma conf_evictIfNeeded: "evictIfNeeded db = (r, ev, db1) \<Longrightarrow> conf db1 = conf db"
  using conf_evict_loop [of "Suc (length (lru db))" "[]" db] by (auto simp: evictIfNeeded_def split: if_splits)

lemma aof_propagate_dels:
  "aof (propagate_dels ks p) = map_option (fold aof_append (map (\<lambda>k. [''DEL'', k]) ks)) (aof p)"
  unfolding propagate_dels_def
  by (induction ks arbitrary: p) (simp_all add: option.map_id option.map_comp o_def)

lemma store_ok_restrict: "store_ok t m \<Longrightarrow> store_ok t (m |` S)"
  by (auto simp: store_ok_def live_def restrict_map_def fun_eq_iff split: option.splits)

lemma replays_dels: "store_ok t m \<Longrightarrow> replays t (map (\<lambda>k. [''DEL'', k]) ks) m (m |` (- set ks))"
proof (induction ks arbitrary: m)
  case Nil
  then show ?case by simp
next
  case (Cons k ks)
  have eq: "m(k := None) = m |` (- {k})" by (auto simp: restrict_map_def fun_eq_iff)
  then have "store_ok t (m(k := None))" using store_ok_restrict [OF Cons.prems, of "- {k}"] by simp
  then have "replays t (map (\<lambda>k. [''DEL'', k]) ks) (m(k := None)) (m(k := None) |` (- set ks))"
    by (rule Cons.IH)
  moreover have "m(k := None) |` (- set ks) = m |` (- set (k # ks))"
    by (auto simp: restrict_map_def fun_eq_iff)
  ultimately show ?case
    using replays_append [OF replays_del [OF Cons.prems, of k]] by simp
qed

lemma live_restrict: "live t (m |` S) = live t m |` S"
  by (auto simp: live_def restrict_map_def fun_eq_iff)

lemma evictIfNeeded_restrict:
  assumes "db_inv db" "evictIfNeeded db = (r, ev, db1)"
  shows "abs_db db1 = abs_db db |` (- set ev)"
proof (cases "policy db = NoEviction \<or> memoryLimit db = 0")
  case True
  with assms(2) evictIfNeeded_noop [of db] show ?thesis by (auto simp: restrict_map_def)
next
  case False
  then have "policy db = AllKeysLru" "memoryLimit db \<noteq> 0" by (auto intro: EvictionPolicy.exhaust)
  then obtain keep gone where e: "evicts db keep gone db1" "ev = rev gone"
    using evictIfNeeded_spec [OF assms(1)] assms(2) by auto
  note ks = keysByRecency_props [OF db_invD [OF assms(1)]]
  have "abs_db db |` set keep = abs_db db |` (- set gone)"
  proof
    fix k
    have "k \<in> set keep \<longleftrightarrow> k \<notin> set gone" if "map_of (data db) k = Some e'" for e'
      using ks(1) ks(3) [of k] that e(1) by (auto simp: evicts_def)
    then show "(abs_db db |` set keep) k = (abs_db db |` (- set gone)) k"
      by (cases "map_of (data db) k") (auto simp: restrict_map_def abs_db_def)
  qed
  with e show ?thesis by (simp add: evicts_def)
qed

lemma evict_outcome:
  assumes f: "frozen t (database p) m"
  shows "\<exists>ok ks. outcome t p (evict_and_log p) (Inr ok) (m |` (- set ks)) (map (\<lambda>k. [''DEL'', k]) ks) \<and>
    set ks \<subseteq> fst ` set (data (database p))"
proof -
  have inv: "db_inv (database p)" using f by (simp add: frozen_def)
  obtain r ev db1 where e: "evictIfNeeded (database p) = (r, ev, db1)" by (metis prod_cases3)
  obtain ok where r: "r = Inr ok" using evictIfNeeded_inv(3) [OF inv e] by blast
  have "db_inv db1" using evictIfNeeded_inv(1) [OF inv e] .
  moreover have c: "conf db1 = conf (database p)" using e by (rule conf_evictIfNeeded)
  ultimately have "frozen t db1 (m |` (- set ev))"
    using f evictIfNeeded_restrict [OF inv e] by (simp add: frozen_def live_restrict conf_def)
  moreover have "set ev \<subseteq> fst ` set (data (database p))"
  proof (cases "policy (database p) = NoEviction \<or> memoryLimit (database p) = 0")
    case True
    with e evictIfNeeded_noop show ?thesis by auto
  next
    case False
    then have "policy (database p) = AllKeysLru" "memoryLimit (database p) \<noteq> 0"
      by (auto intro: EvictionPolicy.exhaust)
    with evictIfNeeded_spec [OF inv] e keysByRecency_props(2) [OF db_invD [OF inv]] show ?thesis
      by (auto simp: evicts_def)
  qed
  ultimately show ?thesis
    using e r c by (intro exI [of _ ok] exI [of _ ev]) (simp add: evict_and_log_def outcome_def aof_propagate_dels)
qed

section \<open>Commands that are not writes\<close>

text \<open>What they leave alone.\<close>

lemma conf_reads [simp]:
  "conf (snd (db_type k db)) = conf db" "conf (snd (db_keys k db)) = conf db" "conf (snd (db_get k db)) = conf db"
  "conf (snd (stringLength k db)) = conf db" "conf (snd (ttlMs k db)) = conf db" "conf (snd (ttl k db)) = conf db"
  "conf (snd (listRange k a b db)) = conf db" "conf (snd (listIndex k a db)) = conf db"
  "conf (snd (listLength k db)) = conf db" "conf (snd (hashGet k x db)) = conf db"
  "conf (snd (hashGetAll k db)) = conf db" "conf (snd (hashLength k db)) = conf db"
  "conf (snd (hashExists k x db)) = conf db" "conf (snd (setMembers k db)) = conf db"
  "conf (snd (setIsMember k x db)) = conf db" "conf (snd (setCardinality k db)) = conf db"
  "conf (snd (inspect k db)) = conf db"
  unfolding db_type_def db_keys_def db_get_def stringLength_def ttl_def ttlMs_def listRange_def
    listIndex_def listLength_def hashGet_def hashGetAll_def hashLength_def hashExists_def
    setMembers_def setIsMember_def setCardinality_def inspect_def Let_def now_def
  by (auto split: prod.splits option.splits sum.splits if_splits dest: conf_findLive_eq)

text \<open>An operation that only looks.\<close>

definition looks :: "(Database \<Rightarrow> 'r \<times> Database) \<Rightarrow> bool" where
  "looks f \<longleftrightarrow> (\<forall>t db m. frozen t db m \<longrightarrow> frozen t (snd (f db)) m \<and> conf (snd (f db)) = conf db)"

lemma looksI:
  assumes "\<And>db. db_inv db \<Longrightarrow> db_inv (snd (f db)) \<and> (\<exists>k. abs_db (snd (f db)) = purge (time_now db) k (abs_db db))"
    "\<And>db. conf (snd (f db)) = conf db"
  shows "looks f"
  unfolding looks_def
proof (intro allI impI)
  fix t db m assume f: "frozen t db m"
  then obtain k where "db_inv (snd (f db))" "abs_db (snd (f db)) = purge t k (abs_db db)"
    using assms(1) [of db] by (auto simp: frozen_def)
  moreover have "clock (snd (f db)) = clock db" using assms(2) [of db] by (simp add: conf_def)
  ultimately show "frozen t (snd (f db)) m \<and> conf (snd (f db)) = conf db"
    using f assms(2) by (simp add: frozen_def)
qed

lemma looks_refines:
  assumes "\<And>db. db_inv db \<Longrightarrow> refines (f db) (F (time_now db) (abs_db db))"
    "\<And>t m. snd (F t m) = purge t k m" "\<And>db. conf (snd (f db)) = conf db"
  shows "looks f"
  using assms by (intro looksI) (auto simp: refines_def)

lemma spec_read_purge: "snd (spec_read as d f t k m) = purge t k m"
  by (simp add: spec_read_def Let_def split: option.splits prod.splits)

lemma looks_ops:
  "looks (db_exists k)" "looks (db_type k)" "looks (db_get k)" "looks (stringLength k)"
  "looks (listRange k a b)" "looks (listIndex k a)" "looks (listLength k)" "looks (hashGet k x)"
  "looks (hashGetAll k)" "looks (hashLength k)" "looks (hashExists k x)" "looks (setMembers k)"
  "looks (setIsMember k x)" "looks (setCardinality k)"
  subgoal by (rule looks_refines [where F = "\<lambda>t. spec_exists t k", OF db_exists_refines]) (simp_all add: spec_exists_def Let_def)
  subgoal by (rule looks_refines [where F = "\<lambda>t. spec_type t k", OF db_type_refines]) (simp_all add: spec_type_def Let_def)
  subgoal by (rule looks_refines [where F = "\<lambda>t. spec_get t k", OF db_get_refines]) (simp_all add: read_specs spec_read_purge)
  subgoal by (rule looks_refines [where F = "\<lambda>t. spec_strlen t k", OF stringLength_refines]) (simp_all add: read_specs spec_read_purge)
  subgoal by (rule looks_refines [where F = "\<lambda>t. spec_range a b t k", OF listRange_refines]) (simp_all add: read_specs spec_read_purge)
  subgoal by (rule looks_refines [where F = "\<lambda>t. spec_index a t k", OF listIndex_refines]) (simp_all add: read_specs spec_read_purge)
  subgoal by (rule looks_refines [where F = "\<lambda>t. spec_llen t k", OF listLength_refines]) (simp_all add: read_specs spec_read_purge)
  subgoal by (rule looks_refines [where F = "\<lambda>t. spec_hget x t k", OF hashGet_refines]) (simp_all add: read_specs spec_read_purge)
  subgoal by (rule looks_refines [where F = "\<lambda>t. spec_hgetall t k", OF hashGetAll_refines]) (simp_all add: read_specs spec_read_purge)
  subgoal by (rule looks_refines [where F = "\<lambda>t. spec_hlen t k", OF hashLength_refines]) (simp_all add: read_specs spec_read_purge)
  subgoal by (rule looks_refines [where F = "\<lambda>t. spec_hexists x t k", OF hashExists_refines]) (simp_all add: read_specs spec_read_purge)
  subgoal by (rule looks_refines [where F = "\<lambda>t. spec_smembers t k", OF setMembers_refines]) (simp_all add: read_specs spec_read_purge)
  subgoal by (rule looks_refines [where F = "\<lambda>t. spec_sismember x t k", OF setIsMember_refines]) (simp_all add: read_specs spec_read_purge)
  subgoal by (rule looks_refines [where F = "\<lambda>t. spec_scard t k", OF setCardinality_refines]) (simp_all add: read_specs spec_read_purge)
  done

lemma looks_now: "looks now"
  by (simp add: looks_def frozen_def now_def)

lemma looks_keys: "looks (db_keys p)"
  unfolding looks_def
proof (intro allI impI)
  fix t db m assume "frozen t db m"
  then show "frozen t (snd (db_keys p db)) m \<and> conf (snd (db_keys p db)) = conf db"
    by (simp add: db_keys_def now_def frozen_def Let_def)
qed

lemma looks_inspect: "looks (inspect k)"
  unfolding looks_def
proof (intro allI impI)
  fix t db m assume f: "frozen t db m"
  then have "db_inv db" by (simp add: frozen_def)
  from inspect_abs(1,2) [OF this, of k] f conf_reads(17) [of k db]
  show "frozen t (snd (inspect k db)) m \<and> conf (snd (inspect k db)) = conf db"
    by (simp add: frozen_def conf_def)
qed

lemma looks_ttl: "looks (ttlMs k)" "looks (ttl k)"
proof -
  show 1: "looks (ttlMs k)"
  proof (rule looksI)
    fix db assume inv: "db_inv db"
    show "db_inv (snd (ttlMs k db)) \<and> (\<exists>k'. abs_db (snd (ttlMs k db)) = purge (time_now db) k' (abs_db db))"
      using ttlMs_value [OF inv, of k]
      by (auto simp: refines_def)
  qed simp
  then show "looks (ttl k)" by (simp add: looks_def ttl_ttlMs(2))
qed

lemma looks_bind:
  assumes "looks f" "\<And>x. looks (g x)"
  shows "looks (\<lambda>db. case f db of (x, db1) \<Rightarrow> g x db1)"
  unfolding looks_def
proof (intro allI impI)
  fix t db m assume f: "frozen t db m"
  obtain x db1 where x: "f db = (x, db1)" by (cases "f db")
  with assms(1) f have 1: "frozen t db1 m" "conf db1 = conf db" unfolding looks_def by force+
  have "frozen t (snd (g x db1)) m" "conf (snd (g x db1)) = conf db1"
    using assms(2) [of x] 1(1) unfolding looks_def by blast+
  with x 1 show "frozen t (snd (case f db of (x, db1) \<Rightarrow> g x db1)) m \<and>
      conf (snd (case f db of (x, db1) \<Rightarrow> g x db1)) = conf db"
    by simp
qed

lemma looks_return: "looks (Pair x)"
  by (simp add: looks_def)

lemma looks_exists_loop: "looks (exists_loop ks n)"
proof (induction ks arbitrary: n)
  case Nil
  have "exists_loop [] n = Pair n" by (simp add: fun_eq_iff)
  then show ?case by (simp add: looks_return)
next
  case (Cons k ks)
  have "exists_loop (k # ks) n = (\<lambda>db. case db_exists k db of (b, db1) \<Rightarrow> exists_loop ks (if b then Suc n else n) db1)"
    by (simp add: fun_eq_iff)
  with looks_bind [OF looks_ops(1) [of k], of "\<lambda>b. exists_loop ks (if b then Suc n else n)"] Cons
  show ?case by simp
qed

lemma looks_mget_loop: "looks (mget_loop ks vs)"
proof (induction ks arbitrary: vs)
  case Nil
  have "mget_loop [] vs = Pair (Inr vs)" by (simp add: fun_eq_iff)
  then show ?case by (simp add: looks_return)
next
  case (Cons k ks)
  let ?g = "\<lambda>r. case r of Inr v \<Rightarrow> mget_loop ks (vs @ [nullableBulk v])
    | Inl e \<Rightarrow> if e = WrongTypeError then mget_loop ks (vs @ [respNull]) else Pair (Inl e)"
  have "mget_loop (k # ks) vs = (\<lambda>db. case db_get k db of (r, db1) \<Rightarrow> ?g r db1)"
    by (simp add: fun_eq_iff split: prod.split sum.split)
  moreover have "looks (?g r)" for r using Cons by (cases r) (simp_all add: looks_return)
  ultimately show ?case using looks_bind [OF looks_ops(3) [of k], of ?g] by simp
qed

section \<open>Executing a command\<close>

definition quiet :: "int \<Rightarrow> CommandProcessor \<Rightarrow> ('r \<times> CommandProcessor) \<Rightarrow> bool" where
  "quiet t p rp \<longleftrightarrow> (\<forall>m. frozen t (database p) m \<longrightarrow> same_view t m p (snd rp))"

lemma quiet_call: "looks f \<Longrightarrow> quiet t p (db_call f p)"
  by (auto simp: quiet_def looks_def same_view_def db_call_def split: prod.splits) (metis snd_conv)+

lemma quiet_refl [simp]: "quiet t p (r, p)"
  by (simp add: quiet_def same_view_def)

lemma quiet_return: "quiet t p rp \<Longrightarrow> quiet t p (case rp of (r, p1) \<Rightarrow> (g r, p1))"
  by (auto simp: quiet_def split: prod.splits)

lemma quiet_then: "quiet t p rp \<Longrightarrow> quiet t p (and_then rp (\<lambda>x p1. (Inr (g x), p1)))"
  by (auto simp: quiet_def and_then_def split: prod.splits sum.splits)

lemmas looks_all = looks_ops looks_now looks_keys looks_inspect looks_ttl looks_exists_loop looks_mget_loop

lemma server_handlers_quiet [quiet_handlers]:
  "quiet t p (cmd_ping args p)" "quiet t p (cmd_echo args p)" "quiet t p (cmd_select args p)"
  "quiet t p (cmd_commandInfo args p)" "quiet t p (cmd_dbsize args p)"
  by (simp_all add: cmd_ping_def cmd_echo_def cmd_select_def cmd_commandInfo_def cmd_dbsize_def)

lemma cmd_info_quiet [quiet_handlers]: "quiet t p (cmd_info args p)"
  using quiet_call [OF looks_now, of t p] by (auto simp: cmd_info_def quiet_def Let_def split: prod.splits)

lemma cmd_memory_quiet [quiet_handlers]: "quiet t p (cmd_memory args p)"
  using quiet_call [OF looks_inspect, of t p "args ! 2"]
  by (auto simp: cmd_memory_def quiet_def same_view_def [of t _ p p] Let_def split: prod.splits)

lemma lookup_handlers_quiet [quiet_handlers]:
  "quiet t p (cmd_exists args p)" "quiet t p (cmd_type args p)" "quiet t p (cmd_keys args p)"
  "quiet t p (cmd_ttl args p)" "quiet t p (cmd_pttl args p)"
  unfolding cmd_exists_def cmd_type_def cmd_keys_def cmd_ttl_def cmd_pttl_def Let_def
  by (rule quiet_return quiet_call looks_all)+

lemma read_handlers_quiet [quiet_handlers]:
  "quiet t p (cmd_get args p)" "quiet t p (cmd_mget args p)" "quiet t p (cmd_strlen args p)"
  "quiet t p (cmd_llen args p)" "quiet t p (cmd_hget args p)" "quiet t p (cmd_hgetall args p)"
  "quiet t p (cmd_hlen args p)" "quiet t p (cmd_hexists args p)" "quiet t p (cmd_hkeys args p)"
  "quiet t p (cmd_hvals args p)" "quiet t p (cmd_smembers args p)" "quiet t p (cmd_sismember args p)"
  "quiet t p (cmd_scard args p)"
  unfolding cmd_get_def cmd_mget_def cmd_strlen_def cmd_llen_def cmd_hget_def cmd_hgetall_def cmd_hlen_def
    cmd_hexists_def cmd_hkeys_def cmd_hvals_def cmd_smembers_def cmd_sismember_def cmd_scard_def
  by (rule quiet_then quiet_call looks_all)+

lemma range_handlers_quiet [quiet_handlers]: "quiet t p (cmd_lrange args p)" "quiet t p (cmd_lindex args p)"
  unfolding cmd_lrange_def cmd_lindex_def
  by (auto split: option.splits intro!: quiet_then quiet_call looks_all)

text \<open>What a step did to the live keyspace, and that its log replays to it.\<close>

definition logged :: "int \<Rightarrow> astore \<Rightarrow> CommandProcessor \<Rightarrow> CommandProcessor \<Rightarrow> astore \<Rightarrow> bytes list list \<Rightarrow> bool" where
  "logged t m p p' m' ls \<longleftrightarrow>
     frozen t (database p') m' \<and> aof p' = map_option (fold aof_append ls) (aof p) \<and> replays t ls m m'"

lemma logged_same: "same_view t m p p' \<Longrightarrow> logged t m p p' m []"
  by (simp add: logged_def same_view_def option.map_id)

lemma logged_trans:
  assumes "logged t m1 p1 p2 m2 as" "logged t m2 p2 p3 m3 bs"
  shows "logged t m1 p1 p3 m3 (as @ bs)"
  using assms replays_append by (auto simp: logged_def option.map_comp o_def)

lemma logged_stats: "logged t m (p\<lparr>serverStats := s\<rparr>) p' m' ls = logged t m p p' m' ls"
  by (simp add: logged_def)

lemma logged_evict:
  assumes "frozen t (database p) m"
  shows "\<exists>ok p1 m' ks. evict_and_log p = (Inr ok, p1) \<and> logged t m p p1 m' (map (\<lambda>k. [''DEL'', k]) ks) \<and>
    set ks \<subseteq> fst ` set (data (database p)) \<and> store_ok t m'"
proof -
  obtain ok ks where o: "outcome t p (evict_and_log p) (Inr ok) (m |` (- set ks)) (map (\<lambda>k. [''DEL'', k]) ks)"
    "set ks \<subseteq> fst ` set (data (database p))"
    using evict_outcome [OF assms] by blast
  have m: "store_ok t m" using assms by (rule frozen_store_ok)
  have "evict_and_log p = (Inr ok, snd (evict_and_log p))"
    using o(1) by (simp add: outcome_def prod_eq_iff)
  moreover have "logged t m p (snd (evict_and_log p)) (m |` (- set ks)) (map (\<lambda>k. [''DEL'', k]) ks)"
    using o(1) replays_dels [OF m, of ks] by (simp add: outcome_def logged_def)
  ultimately show ?thesis using o(2) store_ok_restrict [OF m] by blast
qed

lemma cmd_config_logged:
  assumes f: "frozen t (database p) m"
  shows "\<exists>m' ks. logged t m p (snd (cmd_config args p)) m' (map (\<lambda>k. [''DEL'', k]) ks) \<and>
    set ks \<subseteq> fst ` set (data (database p))"
proof -
  have cfg: "frozen t (setMaxMemory n (database p)) m" "frozen t (setEvictionPolicy pol (database p)) m" for n pol
    using f by (auto simp: frozen_def setMaxMemory_def setEvictionPolicy_def abs_db_def
        simp del: config_inv dest: config_inv [THEN iffD2])
  have ev: "\<exists>m' ks. logged t m p (snd (and_then (evict_and_log (p\<lparr>database := setMaxMemory n (database p)\<rparr>))
      (\<lambda>_ p1. (Inr (respSimpleString ''OK''), p1)))) m' (map (\<lambda>k. [''DEL'', k]) ks) \<and>
      set ks \<subseteq> fst ` set (data (database p))" for n
  proof -
    let ?p = "p\<lparr>database := setMaxMemory n (database p)\<rparr>"
    obtain ok p1 m' ks where "evict_and_log ?p = (Inr ok, p1)" "logged t m ?p p1 m' (map (\<lambda>k. [''DEL'', k]) ks)"
      "set ks \<subseteq> fst ` set (data (database ?p))"
      using logged_evict [of t ?p m] cfg(1) by auto
    then show ?thesis by (intro exI [of _ m'] exI [of _ ks]) (simp add: and_then_def logged_def setMaxMemory_def)
  qed
  have none: "\<exists>m' ks. logged t m p p1 m' (map (\<lambda>k. [''DEL'', k]) ks) \<and> set ks \<subseteq> fst ` set (data (database p))"
    if "aof p1 = aof p" "frozen t (database p1) m" for p1
  proof (intro exI conjI)
    show "logged t m p p1 m (map (\<lambda>k. [''DEL'', k]) [])" using that by (simp add: logged_def option.map_id)
  qed simp
  show ?thesis
    unfolding cmd_config_def Let_def
    using ev none [of p] none cfg f by (auto split: option.splits)
qed

lemma non_write_logged:
  assumes "map_of commandTable name = Some spec" "\<not> write_cmd spec" "frozen t (database p) m"
  shows "\<exists>m' ks. logged t m p (snd (spec_handler spec args p)) m' (map (\<lambda>k. [''DEL'', k]) ks) \<and>
    set ks \<subseteq> fst ` set (data (database p))"
proof -
  have "\<forall>(name, spec) \<in> set commandTable. \<not> write_cmd spec \<longrightarrow>
      spec_handler spec = cmd_config \<or> quiet t p (spec_handler spec args p)"
    unfolding commandTable_def command_spec_def by (simp add: quiet_handlers)
  then have "spec_handler spec = cmd_config \<or> quiet t p (spec_handler spec args p)"
    using map_of_SomeD [OF assms(1)] assms(2) by blast
  then show ?thesis
  proof
    assume "quiet t p (spec_handler spec args p)"
    then have "logged t m p (snd (spec_handler spec args p)) m []"
      using assms(3) by (intro logged_same) (simp add: quiet_def)
    then show ?thesis by (intro exI [of _ m] exI [of _ "[]"]) simp
  qed (use cmd_config_logged [OF assms(3)] in simp)
qed

text \<open>The commands a step may log.\<close>

lemma snd_call_handler [simp]: "snd (call_handler spec args p) = snd (spec_handler spec args p)"
  by (simp add: call_handler_def split: prod.splits)

lemma run_write_logged:
  assumes "map_of commandTable (uppercase (args ! 0)) = Some spec" "write_cmd spec" "args \<noteq> []"
    "\<not> arity_error (arity spec) args" "frozen t (database p) m"
  shows "\<exists>m' ls. logged t m p (snd (run_write spec args p)) m' ls"
proof (cases "case aof p of None \<Rightarrow> False | Some a \<Rightarrow> \<not> aof_healthy a")
  case True
  then have "snd (run_write spec args p) = p" by (simp add: run_write_def)
  with logged_same [of t m p p] assms(5) show ?thesis by (auto simp: same_view_def)
next
  case False
  obtain ok p1 m1 ks where e: "evict_and_log p = (Inr ok, p1)" "store_ok t m1"
    "logged t m p p1 m1 (map (\<lambda>k. [''DEL'', k]) ks)"
    using logged_evict [OF assms(5)] by blast
  show ?thesis
  proof (cases "\<not> ok \<and> denyOom spec")
    case True
    with False e show ?thesis by (auto simp: run_write_def and_then_def)
  next
    case run: False
    obtain r m2 ls where d: "determined t (spec_handler spec) args m1 r m2 ls" "replays t ls m1 m2"
      using write_command_faithful [OF assms(1-4), of t] e(2) by (auto simp: faithful_def)
    have "frozen t (database p1) m1" using e(3) by (simp add: logged_def)
    with d have "logged t m1 p1 (snd (spec_handler spec args p1)) m2 ls"
      by (auto simp: determined_def outcome_def logged_def)
    with e(3) have "logged t m p (snd (spec_handler spec args p1)) m2 (map (\<lambda>k. [''DEL'', k]) ks @ ls)"
      by (rule logged_trans)
    with False run e(1) show ?thesis by (auto simp: run_write_def and_then_def)
  qed
qed

lemma execute_logged:
  assumes f: "frozen t (database p) m"
  shows "\<exists>m' ls. logged t m p (snd (execute args p)) m' ls"
proof -
  let ?p1 = "p\<lparr>serverStats := (serverStats p)\<lparr>totalCommands := totalCommands (serverStats p) + 1\<rparr>\<rparr>"
  have f1: "frozen t (database ?p1) m" using f by simp
  have same: "\<exists>m' ls. logged t m p p m' ls" "\<exists>m' ls. logged t m p ?p1 m' ls"
    using logged_same [of t m p p] logged_same [of t m p ?p1] f by (auto simp: same_view_def)
  consider "args = [] \<or> uppercase (args ! 0) = ''QUIT'' \<or> map_of commandTable (uppercase (args ! 0)) = None"
    | spec where "args \<noteq> []" "map_of commandTable (uppercase (args ! 0)) = Some spec"
        "uppercase (args ! 0) \<noteq> ''QUIT''"
    by fastforce
  then show ?thesis
  proof cases
    case 1
    then have "snd (execute args p) = p \<or> snd (execute args p) = ?p1"
      by (auto simp: execute_def Let_def)
    with same show ?thesis by metis
  next
    case 2
    have w: "\<exists>m' ls. logged t m p (snd (run_write spec args ?p1)) m' ls"
      if "write_cmd spec" "\<not> arity_error (arity spec) args"
      using run_write_logged [OF 2(2) that(1) 2(1) that(2) f1] by (simp add: logged_stats)
    have r: "\<exists>m' ls. logged t m p (snd (spec_handler spec args ?p1)) m' ls" if "\<not> write_cmd spec"
      using non_write_logged [OF 2(2) that f1, of args] by (auto simp: logged_stats)
    show ?thesis
      using 2 same(2) w r by (auto simp: execute_def Let_def)
  qed
qed

text \<open>A whole run.\<close>

lemma run_logged:
  assumes "frozen t (database p) m"
  shows "\<exists>m' ls. logged t m p (fold (\<lambda>args p. snd (execute args p)) cmds p) m' ls"
  using assms
proof (induction cmds arbitrary: p m)
  case Nil
  then show ?case using logged_same [of t m p p] by (auto simp: same_view_def)
next
  case (Cons c cmds)
  obtain m1 l1 where 1: "logged t m p (snd (execute c p)) m1 l1" using execute_logged [OF Cons.prems] by blast
  then obtain m2 l2 where 2: "logged t m1 (snd (execute c p)) (fold (\<lambda>args p. snd (execute args p)) cmds (snd (execute c p))) m2 l2"
    using Cons.IH [of "snd (execute c p)" m1] by (auto simp: logged_def)
  show ?case using logged_trans [OF 1 2] by auto
qed

end
