(* ===== verification/FKV_Log_Limits.thy ===== *)
theory FKV_Log_Limits
  imports FKV_Live FKV_Database_Evict
begin

text \<open>
  What the server logs, the loader can read back: every entry of the log respects the limits of the
  request parser, provided the commands of the clients do (they came through the parser). Entries
  that are not the client's own command are built from its arguments, from numbers, or from keys of
  the table that eviction removed; so the keys of the table are bounded by the same limit, and every
  operation keeps them so.
\<close>

section \<open>The keys of the table\<close>

definition dkeys :: "Database \<Rightarrow> bytes set" where
  "dkeys db = fst ` set (data db)"

lemma dkeys_fields [simp]:
  "dkeys (db\<lparr>readings := i\<rparr>) = dkeys db" "dkeys (db\<lparr>draws := j\<rparr>) = dkeys db"
  "dkeys (db\<lparr>volatileKeys := v\<rparr>) = dkeys db" "dkeys (db\<lparr>lru := r\<rparr>) = dkeys db"
  "dkeys (db\<lparr>memoryUsed := w\<rparr>) = dkeys db" "dkeys (db\<lparr>memoryLimit := w\<rparr>) = dkeys db"
  "dkeys (db\<lparr>policy := pol\<rparr>) = dkeys db" "dkeys (count_stat u n db) = dkeys db"
  "dkeys (modify_entry k f db) = dkeys db" "dkeys (set_value k x db) = dkeys db"
  "dkeys (addMemory k n db) = dkeys db" "dkeys (removeMemory k n db) = dkeys db" "dkeys (touch k db) = dkeys db"
  by (simp_all add: dkeys_def count_stat_def set_value_def addMemory_def removeMemory_def touch_def Let_def)

lemma dkeys_expiry [simp]: "dkeys (setExpiry k d db) = dkeys db" "dkeys (clearExpiry k db) = dkeys db"
  by (simp_all add: setExpiry_def clearExpiry_def Let_def split: option.split)

lemma dkeys_erase [simp]: "dkeys (erase k db) = dkeys db - {k}"
  using dkeys_expiry(2) [of k db] by (simp add: erase_def Let_def dkeys_def)

lemma dkeys_create [simp]: "dkeys (create k v db) = insert k (dkeys db)"
  by (simp add: create_def dkeys_def Let_def)

lemma dkeys_findLive: "findLive k db = (r, db1) \<Longrightarrow> dkeys db1 \<subseteq> dkeys db"
  by (auto simp: findLive_def now_def Let_def split: option.splits if_splits)

lemma dkeys_loops [simp]:
  "dkeys (push_loop side k vs db) = dkeys db"
  "dkeys (snd (hash_set_loop k fs n db)) = dkeys db" "dkeys (snd (hash_delete_loop k ks n db)) = dkeys db"
  "dkeys (snd (set_add_loop k ks n db)) = dkeys db" "dkeys (snd (set_remove_loop k ks n db)) = dkeys db"
proof -
  show "dkeys (push_loop side k vs db) = dkeys db" by (induction vs arbitrary: db) (simp_all add: Let_def)
  show "dkeys (snd (hash_set_loop k fs n db)) = dkeys db"
    by (induction k fs n db rule: hash_set_loop.induct) (auto simp: Let_def split: option.splits)
  show "dkeys (snd (hash_delete_loop k ks n db)) = dkeys db"
    by (induction k ks n db rule: hash_delete_loop.induct) (auto simp: Let_def split: option.splits)
  show "dkeys (snd (set_add_loop k ks n db)) = dkeys db"
    by (induction k ks n db rule: set_add_loop.induct) (auto simp: Let_def)
  show "dkeys (snd (set_remove_loop k ks n db)) = dkeys db"
    by (induction k ks n db rule: set_remove_loop.induct) (auto simp: Let_def)
qed

lemma dkeys_loop_eqs:
  "hash_set_loop k fs n db = (r, db1) \<Longrightarrow> dkeys db1 = dkeys db"
  "hash_delete_loop k ks n db = (r, db1) \<Longrightarrow> dkeys db1 = dkeys db"
  "set_add_loop k ks n db = (r, db1) \<Longrightarrow> dkeys db1 = dkeys db"
  "set_remove_loop k ks n db = (r, db1) \<Longrightarrow> dkeys db1 = dkeys db"
  using dkeys_loops(2) [of k fs n db] dkeys_loops(3-5) [of k ks n db] by auto

section \<open>Bounded keys\<close>

definition bounded_keys :: "Database \<Rightarrow> bool" where
  "bounded_keys db \<longleftrightarrow> (\<forall>k \<in> dkeys db. length k \<le> MAX_BULK_SIZE)"

definition keeps_keys :: "(Database \<Rightarrow> 'r \<times> Database) \<Rightarrow> bool" where
  "keeps_keys f \<longleftrightarrow> (\<forall>db. bounded_keys db \<longrightarrow> bounded_keys (snd (f db)))"

lemma bounded_subset: "bounded_keys db \<Longrightarrow> dkeys db' \<subseteq> dkeys db \<Longrightarrow> bounded_keys db'"
  by (auto simp: bounded_keys_def)

lemma bounded_insert: "bounded_keys db \<Longrightarrow> dkeys db' \<subseteq> insert k (dkeys db) \<Longrightarrow> length k \<le> MAX_BULK_SIZE \<Longrightarrow> bounded_keys db'"
  by (auto simp: bounded_keys_def)

lemma keeps_keysI: "(\<And>db. dkeys (snd (f db)) \<subseteq> dkeys db) \<Longrightarrow> keeps_keys f"
  using bounded_subset by (auto simp: keeps_keys_def)

lemma keeps_keys_insertI:
  "(\<And>db. dkeys (snd (f db)) \<subseteq> insert k (dkeys db)) \<Longrightarrow> length k \<le> MAX_BULK_SIZE \<Longrightarrow> keeps_keys f"
  unfolding keeps_keys_def by (meson bounded_insert)

lemma keeps_keys_reads:
  "keeps_keys now" "keeps_keys (db_exists k)" "keeps_keys (db_type k)" "keeps_keys (db_keys pat)" "keeps_keys (inspect k)"
  "keeps_keys (db_get k)" "keeps_keys (stringLength k)" "keeps_keys (ttlMs k)" "keeps_keys (ttl k)"
  "keeps_keys (listRange k a b)" "keeps_keys (listIndex k a)" "keeps_keys (listLength k)" "keeps_keys (hashGet k x)"
  "keeps_keys (hashGetAll k)" "keeps_keys (hashLength k)" "keeps_keys (hashExists k x)" "keeps_keys (setMembers k)"
  "keeps_keys (setIsMember k x)" "keeps_keys (setCardinality k)"
  unfolding now_def db_exists_def db_type_def db_keys_def inspect_def db_get_def stringLength_def ttl_def ttlMs_def
    listRange_def listIndex_def listLength_def hashGet_def hashGetAll_def hashLength_def hashExists_def
    setMembers_def setIsMember_def setCardinality_def Let_def
  by (auto intro!: keeps_keysI split: prod.splits option.splits sum.splits if_splits
      dest!: dkeys_findLive dest: subsetD)

lemma keeps_keys_removals:
  "keeps_keys (db_del k)" "keeps_keys (db_persist k)" "keeps_keys (expireAtMs_op k d)" "keeps_keys (listPop k side)"
  "keeps_keys (hashDelete k ks)" "keeps_keys (setRemove k ks)"
  unfolding db_del_def db_persist_def expireAtMs_op_def listPop_def hashDelete_def setRemove_def now_def Let_def
  by (auto intro!: keeps_keysI split: prod.splits option.splits sum.splits if_splits
      dest!: dkeys_findLive dkeys_loop_eqs) blast+

lemma keeps_keys_writes:
  assumes "length k \<le> MAX_BULK_SIZE"
  shows "keeps_keys (db_append k v)" "keeps_keys (incrementBy k n)" "keeps_keys (listPush k vs side)"
    "keeps_keys (hashSet k fs)" "keeps_keys (setAdd k ks)"
  unfolding db_append_def incrementBy_def listPush_def hashSet_def setAdd_def Let_def
  by (auto intro!: keeps_keys_insertI [OF _ assms] split: prod.splits option.splits sum.splits if_splits
      dest!: dkeys_findLive dkeys_loop_eqs) blast+

lemma dkeys_set: "dkeys (db_set k v db) \<subseteq> insert k (dkeys db)"
  unfolding db_set_def Let_def by (auto split: prod.splits option.splits dest!: dkeys_findLive)

lemma bounded_clear: "bounded_keys (db_clear db)"
  by (simp add: bounded_keys_def dkeys_def db_clear_def)

section \<open>Log entries\<close>

text \<open>From \<open>p\<close> to \<open>p'\<close> only entries the loader can read were appended, and the keys stayed bounded.\<close>

definition logs :: "CommandProcessor \<Rightarrow> CommandProcessor \<Rightarrow> bool" where
  "logs p p' \<longleftrightarrow> (bounded_keys (database p) \<longrightarrow> bounded_keys (database p') \<and>
     (\<exists>ls. aof p' = map_option (fold aof_append ls) (aof p) \<and> (\<forall>l \<in> set ls. loggable l)))"

lemma logs_quiet: "(bounded_keys (database p) \<Longrightarrow> bounded_keys (database p')) \<Longrightarrow> aof p' = aof p \<Longrightarrow> logs p p'"
  unfolding logs_def by (auto intro!: exI [of _ "[]"] simp: option.map_id)

lemma logs_refl [simp]: "logs p p"
  by (rule logs_quiet) simp_all

lemma logs_trans:
  assumes "logs p q" "logs q r"
  shows "logs p r"
  unfolding logs_def
proof (intro impI conjI)
  assume b: "bounded_keys (database p)"
  obtain as where as: "aof q = map_option (fold aof_append as) (aof p)" "\<forall>l \<in> set as. loggable l" "bounded_keys (database q)"
    using assms(1) b by (auto simp: logs_def)
  obtain bs where bs: "aof r = map_option (fold aof_append bs) (aof q)" "\<forall>l \<in> set bs. loggable l" "bounded_keys (database r)"
    using assms(2) as(3) by (auto simp: logs_def)
  show "bounded_keys (database r)" by (rule bs)
  show "\<exists>ls. aof r = map_option (fold aof_append ls) (aof p) \<and> (\<forall>l \<in> set ls. loggable l)"
    using as bs by (intro exI [of _ "as @ bs"]) (auto simp: option.map_comp o_def)
qed

lemma logs_propagate: "loggable l \<Longrightarrow> logs p (propagate l p)"
  unfolding logs_def by (auto intro!: exI [of _ "[l]"] simp: propagate_def split: option.split)

lemma logs_stats [simp]: "logs p (q\<lparr>serverStats := s\<rparr>) = logs p q" "logs (p\<lparr>serverStats := s\<rparr>) q = logs p q"
  by (simp_all add: logs_def)

lemma logs_database: "(bounded_keys (database p) \<Longrightarrow> bounded_keys db) \<Longrightarrow> logs p (p\<lparr>database := db\<rparr>)"
  by (rule logs_quiet) simp_all

lemma logs_db_call: "keeps_keys f \<Longrightarrow> logs p (snd (db_call f p))"
  unfolding db_call_def by (auto intro!: logs_database simp: keeps_keys_def split: prod.split)

lemma logs_and_then:
  "logs p (snd rp) \<Longrightarrow> (\<And>x q. logs p q \<Longrightarrow> logs p (snd (f x q))) \<Longrightarrow> logs p (snd (and_then rp f))"
  by (auto simp: and_then_def split: prod.splits sum.splits)

lemma logs_then_propagate: "logs p q \<Longrightarrow> loggable l \<Longrightarrow> logs p (propagate l q)"
  using logs_trans logs_propagate by blast

lemma logs_then_call: "logs p q \<Longrightarrow> keeps_keys f \<Longrightarrow> logs p (snd (db_call f q))"
  using logs_trans logs_db_call by blast

lemma logs_then_call_eq: "db_call f q = (r, q1) \<Longrightarrow> keeps_keys f \<Longrightarrow> logs q q1"
  using logs_db_call [of f q] by simp

lemma loggable_small:
  "length k \<le> MAX_BULK_SIZE \<Longrightarrow> loggable [''DEL'', k]"
  "length k \<le> MAX_BULK_SIZE \<Longrightarrow> length v \<le> MAX_BULK_SIZE \<Longrightarrow> loggable [''SET'', k, v]"
  "loggable [''FLUSHALL'']"
  by (simp_all add: loggable_def MAX_ARGUMENTS_def MAX_BULK_SIZE_def)

lemma length_to_string_nat: "n < 10 ^ k \<Longrightarrow> 0 < k \<Longrightarrow> length (to_string_nat n) \<le> k"
proof (induction n arbitrary: k rule: to_string_nat.induct)
  case (1 n)
  show ?case
  proof (cases "n < 10")
    case True
    with "1.prems" show ?thesis by (subst to_string_nat.simps) simp
  next
    case False
    with "1.prems" have "k \<noteq> 1" by auto
    with "1.prems"(2) obtain j where j: "k = Suc j" "0 < j" by (cases k) auto
    with "1.prems"(1) have "n div 10 < 10 ^ j" by auto
    with "1.IH" [OF False this j(2)] False j show ?thesis by (subst to_string_nat.simps) simp
  qed
qed

lemma length_to_string: "in_llong d \<Longrightarrow> length (to_string d) \<le> 20"
proof -
  assume "in_llong d"
  then have "nat d < 10 ^ 19" "nat (- d) < 10 ^ 19"
    unfolding in_llong_def LLONG_MIN_def LLONG_MAX_def by (simp_all, linarith+)
  then have "length (to_string_nat (nat d)) \<le> 19" "length (to_string_nat (nat (- d))) \<le> 19"
    by (simp_all add: length_to_string_nat)
  then show ?thesis by (simp add: to_string_def)
qed

lemma loggable_expiry: "length k \<le> MAX_BULK_SIZE \<Longrightarrow> in_llong d \<Longrightarrow> loggable [''PEXPIREAT'', k, to_string d]"
  using length_to_string [of d] by (simp add: loggable_def MAX_ARGUMENTS_def MAX_BULK_SIZE_def)

section \<open>The handlers\<close>

text \<open>A handler on arguments the parser accepted, as many as its arity asks for.\<close>

definition logs_ok :: "nat \<Rightarrow> handler \<Rightarrow> bool" where
  "logs_ok n h \<longleftrightarrow> (\<forall>args p. loggable args \<longrightarrow> n \<le> length args \<longrightarrow> db_inv (database p) \<longrightarrow> logs p (snd (h args p)))"

lemma logs_okI:
  "(\<And>args p. loggable args \<Longrightarrow> n \<le> length args \<Longrightarrow> db_inv (database p) \<Longrightarrow> logs p (snd (h args p))) \<Longrightarrow> logs_ok n h"
  by (simp add: logs_ok_def)

lemma loggable_nth: "loggable args \<Longrightarrow> i < length args \<Longrightarrow> length (args ! i) \<le> MAX_BULK_SIZE"
  by (auto simp: loggable_def nth_mem)

lemma logs_evict:
  assumes "db_inv (database p)"
  shows "logs p (snd (evict_and_log p))"
proof -
  obtain r ev db where e: "evictIfNeeded (database p) = (r, ev, db)" by (cases "evictIfNeeded (database p)")
  have sub: "dkeys db \<subseteq> dkeys (database p) \<and> set ev \<subseteq> dkeys (database p)"
  proof (cases "policy (database p) = NoEviction \<or> memoryLimit (database p) = 0")
    case True
    with e evictIfNeeded_noop show ?thesis by auto
  next
    case False
    then have "policy (database p) = AllKeysLru" "memoryLimit (database p) \<noteq> 0" by (auto intro: EvictionPolicy.exhaust)
    then obtain keep gone where ev: "evicts (database p) keep gone db" "ev = rev gone"
      using evictIfNeeded_spec [OF assms] e by auto
    have "dkeys (database p) = set keep \<union> set gone" "dkeys db = set keep"
      using ev(1) keysByRecency_props(2) [OF db_invD [OF assms]] keysByRecency_props(2) [OF db_invD, of db]
      by (auto simp: evicts_def dkeys_def)
    with ev(2) show ?thesis by auto
  qed
  have dels: "logs p (propagate_dels ks q)" if "logs p q" "\<forall>k \<in> set ks. length k \<le> MAX_BULK_SIZE" for ks q
    using that unfolding propagate_dels_def
    by (induction ks arbitrary: q) (simp_all add: logs_then_propagate loggable_small)
  show ?thesis
  proof (cases "bounded_keys (database p)")
    case True
    then have "logs p (p\<lparr>database := db\<rparr>)" using sub bounded_subset by (intro logs_database) blast
    with dels [of "p\<lparr>database := db\<rparr>" ev] sub True show ?thesis by (auto simp: evict_and_log_def e bounded_keys_def)
  qed (simp add: logs_def)
qed

lemma simple_logs:
  "logs_ok 1 cmd_ping" "logs_ok 2 cmd_echo" "logs_ok 2 cmd_select" "logs_ok 1 cmd_commandInfo" "logs_ok 1 cmd_dbsize"
  by (simp_all add: logs_ok_def cmd_ping_def cmd_echo_def cmd_select_def cmd_commandInfo_def cmd_dbsize_def)

lemma flushall_logs: "logs_ok 1 cmd_flushall"
  by (auto simp: cmd_flushall_def intro!: logs_okI logs_then_propagate loggable_small logs_database bounded_clear)

lemma config_logs: "logs_ok 2 cmd_config"
proof (rule logs_okI)
  fix args and p :: CommandProcessor assume "db_inv (database p)"
  moreover have "logs p (snd (evict_and_log (p\<lparr>database := setMaxMemory n (database p)\<rparr>)))" if "db_inv (database p)" for n
  proof (rule logs_trans)
    show "logs p (p\<lparr>database := setMaxMemory n (database p)\<rparr>)"
      by (intro logs_database) (simp add: bounded_keys_def setMaxMemory_def)
    show "logs (p\<lparr>database := setMaxMemory n (database p)\<rparr>) (snd (evict_and_log (p\<lparr>database := setMaxMemory n (database p)\<rparr>)))"
      using that by (intro logs_evict) simp
  qed
  ultimately show "logs p (snd (cmd_config args p))"
    by (auto simp: cmd_config_def Let_def setEvictionPolicy_def bounded_keys_def
        intro!: logs_and_then logs_database split: option.split)
qed

lemma keeps_keysD: "keeps_keys f \<Longrightarrow> f db = (r, db1) \<Longrightarrow> bounded_keys db \<Longrightarrow> bounded_keys db1"
  by (metis keeps_keys_def snd_conv)

lemma keeps_keys_loops: "keeps_keys (exists_loop ks n)" "keeps_keys (del_loop ks n)" "keeps_keys (mget_loop ks vs)"
proof -
  have "bounded_keys db \<Longrightarrow> bounded_keys (snd (exists_loop ks n db))" for db
    by (induction ks arbitrary: n db)
      (auto simp: Let_def dest: keeps_keysD [OF keeps_keys_reads(2)] split: prod.splits)
  then show "keeps_keys (exists_loop ks n)" by (simp add: keeps_keys_def)
  have "bounded_keys db \<Longrightarrow> bounded_keys (snd (del_loop ks n db))" for db
    by (induction ks arbitrary: n db)
      (auto simp: Let_def dest: keeps_keysD [OF keeps_keys_removals(1)] split: prod.splits)
  then show "keeps_keys (del_loop ks n)" by (simp add: keeps_keys_def)
  have "bounded_keys db \<Longrightarrow> bounded_keys (snd (mget_loop ks vs db))" for db
    by (induction ks arbitrary: vs db)
      (auto dest: keeps_keysD [OF keeps_keys_reads(6)] split: prod.splits sum.splits)
  then show "keeps_keys (mget_loop ks vs)" by (simp add: keeps_keys_def)
qed

lemmas keeps_keys_ops = keeps_keys_reads keeps_keys_removals keeps_keys_loops

lemma look_logs:
  "logs_ok 1 cmd_info" "logs_ok 2 cmd_memory" "logs_ok 2 cmd_exists" "logs_ok 2 cmd_type" "logs_ok 2 cmd_keys"
  "logs_ok 2 cmd_ttl" "logs_ok 2 cmd_pttl"
  unfolding cmd_info_def cmd_memory_def cmd_exists_def cmd_type_def cmd_keys_def cmd_ttl_def cmd_pttl_def Let_def
  by (auto intro!: logs_okI split: prod.split) (erule logs_then_call_eq, rule keeps_keys_ops)+

lemma read_logs:
  "logs_ok 2 cmd_get" "logs_ok 2 cmd_mget" "logs_ok 2 cmd_strlen" "logs_ok 4 cmd_lrange" "logs_ok 2 cmd_llen"
  "logs_ok 3 cmd_lindex" "logs_ok 3 cmd_hget" "logs_ok 2 cmd_hgetall" "logs_ok 2 cmd_hlen" "logs_ok 3 cmd_hexists"
  "logs_ok 2 cmd_hkeys" "logs_ok 2 cmd_hvals" "logs_ok 2 cmd_smembers" "logs_ok 3 cmd_sismember" "logs_ok 2 cmd_scard"
  unfolding cmd_get_def cmd_mget_def cmd_strlen_def cmd_lrange_def cmd_llen_def cmd_lindex_def cmd_hget_def
    cmd_hgetall_def cmd_hlen_def cmd_hexists_def cmd_hkeys_def cmd_hvals_def cmd_smembers_def cmd_sismember_def cmd_scard_def
  by (auto intro!: logs_okI logs_and_then logs_db_call keeps_keys_ops split: option.split)

lemma removal_logs:
  "logs_ok 2 cmd_del" "logs_ok 2 cmd_persist" "logs_ok 2 cmd_lpop" "logs_ok 2 cmd_rpop" "logs_ok 3 cmd_hdel" "logs_ok 3 cmd_srem"
  unfolding cmd_del_def cmd_persist_def cmd_lpop_def cmd_rpop_def cmd_hdel_def cmd_srem_def Let_def
  by (auto intro!: logs_okI logs_and_then logs_db_call keeps_keys_ops logs_then_propagate
      intro: logs_then_call_eq split: prod.split)

lemma write_logs:
  "logs_ok 2 cmd_incr" "logs_ok 2 cmd_decr" "logs_ok 3 cmd_incrby" "logs_ok 3 cmd_decrby" "logs_ok 3 cmd_append"
  "logs_ok 3 cmd_lpush" "logs_ok 3 cmd_rpush" "logs_ok 4 cmd_hset" "logs_ok 3 cmd_sadd"
  unfolding cmd_incr_def cmd_decr_def cmd_incrby_def cmd_decrby_def cmd_append_def cmd_lpush_def cmd_rpush_def
    cmd_hset_def cmd_sadd_def
  by (auto intro!: logs_okI logs_and_then logs_db_call keeps_keys_writes logs_then_propagate loggable_nth split: option.split)

lemma bounded_mset: "bounded_keys db \<Longrightarrow> \<forall>k \<in> set kvs. length k \<le> MAX_BULK_SIZE \<Longrightarrow> bounded_keys (mset_loop kvs db)"
  by (induction kvs db rule: mset_loop.induct) (auto dest: bounded_insert [OF _ dkeys_set])

lemma mset_logs: "logs_ok 3 cmd_mset"
proof (rule logs_okI)
  fix args p assume l: "loggable args"
  then have "\<forall>k \<in> set (drop 1 args). length k \<le> MAX_BULK_SIZE" by (auto simp: loggable_def dest: in_set_dropD)
  then have "logs p (p\<lparr>database := mset_loop (drop 1 args) (database p)\<rparr>)"
    by (intro logs_database) (rule bounded_mset)
  with l show "logs p (snd (cmd_mset args p))" by (simp add: cmd_mset_def Let_def logs_then_propagate)
qed

lemma expire_when_deadline:
  "expire_when a u b p = (Some d, q) \<Longrightarrow> in_llong d"
  by (auto simp: expire_when_def Let_def split: option.splits if_splits prod.splits)

lemma expire_when_logs: "expire_when a u b p = (r, q) \<Longrightarrow> logs p q"
  by (auto simp: expire_when_def Let_def intro: logs_then_call_eq keeps_keys_ops split: option.splits if_splits prod.splits)

lemma expireGeneric_logs:
  assumes "loggable args" "3 \<le> length args"
  shows "logs p (snd (expireGeneric args u b p))"
proof -
  have k: "length (args ! 1) \<le> MAX_BULK_SIZE" using assms by (intro loggable_nth) simp_all
  show ?thesis
    using k unfolding expireGeneric_def Let_def propagateExpiry_def
    by (auto split: option.split prod.split
        intro!: logs_then_propagate loggable_small loggable_expiry
        intro: logs_trans expire_when_logs expire_when_deadline logs_then_call_eq keeps_keys_ops)
      (meson logs_trans expire_when_logs logs_then_call_eq keeps_keys_reads(2) keeps_keys_removals(3))+
qed

lemma expire_logs: "logs_ok 3 cmd_expire" "logs_ok 3 cmd_pexpire" "logs_ok 3 cmd_expireat" "logs_ok 3 cmd_pexpireat"
  by (simp_all add: logs_ok_def cmd_expire_def cmd_pexpire_def cmd_expireat_def cmd_pexpireat_def expireGeneric_logs)

lemma set_options_logs:
  "set_options as opts p = (r, q) \<Longrightarrow> logs p q \<and> (\<forall>o1. r = Inr o1 \<longrightarrow> pred_option in_llong (deadline opts) \<longrightarrow> pred_option in_llong (deadline o1))"
proof (induction as arbitrary: opts p rule: length_induct)
  case (1 as)
  then have IH: "set_options ys o1 p1 = (r, q) \<Longrightarrow> length ys < length as \<Longrightarrow>
      logs p1 q \<and> (\<forall>o2. r = Inr o2 \<longrightarrow> pred_option in_llong (deadline o1) \<longrightarrow> pred_option in_llong (deadline o2))" for ys o1 p1
    by blast
  show ?case
  proof (cases as)
    case (Cons a rest)
    from "1.prems" show ?thesis
      unfolding Cons set_options.simps(2) Let_def
      by (simp only: split: if_split_asm list.split_asm option.split_asm prod.split_asm)
        (auto simp del: set_options.simps simp: Cons dest!: IH dest: expire_when_deadline intro: logs_trans expire_when_logs)
  qed (use "1.prems" in auto)
qed

lemma set_logs: "logs_ok 3 cmd_set"
proof (rule logs_okI)
  fix args and p :: CommandProcessor assume l: "loggable args" "3 \<le> length args"
  let ?k = "args ! 1" and ?v = "args ! 2"
  have k: "length ?k \<le> MAX_BULK_SIZE" "length ?v \<le> MAX_BULK_SIZE" using l by (simp_all add: loggable_nth)
  obtain r p1 where o1: "set_options (drop 3 args) \<lparr>onlyIfMissing = False, onlyIfPresent = False, deadline = None\<rparr> p = (r, p1)"
    by (metis surj_pair)
  obtain b p2 where e: "db_call (db_exists ?k) p1 = (b, p2)" by (metis surj_pair)
  have p1: "logs p p1" and d: "\<And>o2. r = Inr o2 \<Longrightarrow> pred_option in_llong (deadline o2)"
    using set_options_logs [OF o1] by auto
  have p2: "logs p p2" using p1 logs_then_call_eq [OF e keeps_keys_reads(2)] logs_trans by blast
  let ?p3 = "p2\<lparr>database := db_set ?k ?v (database p2)\<rparr>"
  have "logs p2 ?p3" using k(1) by (intro logs_database) (rule bounded_insert [OF _ dkeys_set])
  then have p4: "logs p (propagate [''SET'', ?k, ?v] ?p3)"
    using p2 k by (intro logs_then_propagate loggable_small) (auto intro: logs_trans)
  have p6: "logs p (propagateExpiry ?k x (snd (db_call (expireAtMs_op ?k x) (propagate [''SET'', ?k, ?v] ?p3))))" if "in_llong x" for x
    unfolding propagateExpiry_def
    using k that by (intro logs_then_propagate [OF logs_then_call [OF p4]] loggable_expiry keeps_keys_removals)
  show "logs p (snd (cmd_set args p))"
  proof (cases r)
    case (Inl s)
    with o1 p1 show ?thesis by (simp add: cmd_set_def Let_def)
  next
    case (Inr o2)
    with d [OF Inr] o1 e p1 p2 p4 p6 show ?thesis
      by (cases "deadline o2") (auto simp: cmd_set_def Let_def split_def)
  qed
qed

section \<open>The dispatcher\<close>

lemmas handler_logs = simple_logs flushall_logs config_logs look_logs read_logs removal_logs write_logs mset_logs
  expire_logs set_logs

lemma table_logs: "(name, spec) \<in> set commandTable \<Longrightarrow> logs_ok (nat \<bar>arity spec\<bar>) (spec_handler spec)"
  by (auto simp: commandTable_def command_spec_def handler_logs handler_logs [unfolded One_nat_def])

lemma execute_logs:
  assumes "loggable args" "db_inv (database p)"
  shows "logs p (snd (execute args p))"
proof (cases "map_of commandTable (uppercase (args ! 0))")
  case None
  then show ?thesis by (simp add: execute_def Let_def)
next
  case (Some spec)
  have c: "logs q (snd (call_handler spec args q))" if "\<not> arity_error (arity spec) args" "db_inv (database q)" for q
  proof -
    have "nat \<bar>arity spec\<bar> \<le> length args" using that(1) by (auto simp: arity_error_def Let_def)
    with table_logs [OF map_of_SomeD [OF Some]] assms(1) that(2) show ?thesis
      by (simp add: logs_ok_def call_handler_def Let_def split_def)
  qed
  have w: "logs q (snd (run_write spec args q))" if ar: "\<not> arity_error (arity spec) args" and inv: "db_inv (database q)" for q
  proof -
    obtain ok q1 where e: "evict_and_log q = (Inr ok, q1)" using evict_and_log_safe(2) [OF inv] by blast
    then have "logs q q1" "db_inv (database q1)"
      using logs_evict [OF inv] evict_and_log_safe(1) [OF inv] by (simp_all add: safe_def)
    with c [OF ar] e show ?thesis
      by (auto simp: run_write_def and_then_def intro: logs_trans)
  qed
  show ?thesis
    using Some assms(2) c [of "p\<lparr>serverStats := s\<rparr>" for s] w [of "p\<lparr>serverStats := s\<rparr>" for s]
    by (auto simp: execute_def Let_def)
qed

lemma run_logs:
  assumes "\<forall>args \<in> set cmds. loggable args" "db_inv (database p)"
  shows "logs p (fold (\<lambda>args p. snd (execute args p)) cmds p)"
  using assms
proof (induction cmds arbitrary: p)
  case (Cons args cmds)
  have "db_inv (database (snd (execute args p)))" using execute_total [OF Cons.prems(2), of args] by auto
  with Cons.IH [of "snd (execute args p)"] execute_logs [of args p] Cons.prems show ?case
    by (auto intro: logs_trans)
qed simp

end
