(* ===== verification/FKV_Recovery.thy ===== *)
theory FKV_Recovery
  imports FKV_Replay_Run FKV_Log_Limits
begin

text \<open>
  Crash recovery, end to end: a server that starts with an empty log and executes any commands its
  parser accepted leaves a file from which \<open>main\<close> rebuilds the same live keyspace; from a file that
  a crash cut at any byte it rebuilds the keyspace that a prefix of the logged commands produces, cuts
  the rest off, and never refuses to start. The time stands still at \<open>t\<close> in both runs: entries that
  expire between the two are the subject of a finding, not of this theorem.
\<close>

section \<open>The log determines its entries\<close>

lemma digits_line_inject:
  assumes "to_string_nat m @ CRLF @ x = to_string_nat n @ CRLF @ y"
  shows "m = n \<and> x = y"
proof -
  have "takeWhile is_digit (to_string_nat k @ CRLF @ z) = to_string_nat k"
    "dropWhile is_digit (to_string_nat k @ CRLF @ z) = CRLF @ z" for k z
    by (rule takeWhile_digits_append; simp add: CRLF_def)+
  with assms have "to_string_nat m = to_string_nat n" "CRLF @ x = CRLF @ y" by metis+
  then show ?thesis using digits_value_to_string_nat by (metis append_same_eq same_append_eq)
qed

lemma respBulkString_inject:
  assumes "respBulkString a @ x = respBulkString b @ y"
  shows "a = b \<and> x = y"
proof -
  from assms have "to_string_nat (length a) @ CRLF @ (a @ CRLF @ x) = to_string_nat (length b) @ CRLF @ (b @ CRLF @ y)"
    by (simp add: respBulkString_def)
  then have "length a = length b" "a @ CRLF @ x = b @ CRLF @ y" using digits_line_inject by blast+
  then show ?thesis by (simp add: CRLF_def)
qed

lemma bulks_inject:
  "concat (map respBulkString as) @ x = concat (map respBulkString bs) @ y \<Longrightarrow> length as = length bs \<Longrightarrow> as = bs \<and> x = y"
proof (induction as arbitrary: bs)
  case (Cons a as)
  then obtain b bs' where "bs = b # bs'" by (cases bs) auto
  with Cons show ?case using respBulkString_inject [of a "concat (map respBulkString as) @ x" b] by auto
qed simp

lemma respArray_inject:
  assumes "respArray as @ x = respArray bs @ y"
  shows "as = bs \<and> x = y"
proof -
  from assms have "to_string_nat (length as) @ CRLF @ (concat (map respBulkString as) @ x) =
      to_string_nat (length bs) @ CRLF @ (concat (map respBulkString bs) @ y)"
    by (simp add: respArray_def)
  then have "length as = length bs" "concat (map respBulkString as) @ x = concat (map respBulkString bs) @ y"
    using digits_line_inject by blast+
  then show ?thesis using bulks_inject by blast
qed

lemma log_inject: "concat (map respArray as) = concat (map respArray bs) \<Longrightarrow> as = bs"
proof (induction as arbitrary: bs)
  case Nil
  then show ?case by (cases bs) (auto simp: respArray_def)
next
  case (Cons a as)
  then obtain b bs' where "bs = b # bs'" by (cases bs) (auto simp: respArray_def)
  with Cons show ?case using respArray_inject [of a "concat (map respArray as)" b] by auto
qed

lemma fold_append_buffer: "fold aof_append ls a = a\<lparr>buffer := buffer a @ concat (map respArray ls)\<rparr>"
  by (induction ls arbitrary: a) (simp_all add: aof_append_def)

section \<open>The log of a run\<close>

lemma run_log:
  assumes "frozen t (database p) m" "aof p = Some a" "\<forall>args \<in> set cmds. loggable args" "bounded_keys (database p)"
    and p': "p' = fold (\<lambda>args p. snd (execute args p)) cmds p"
  obtains m' ls a' where "frozen t (database p') m'" "aof p' = Some a'" "a' = a\<lparr>buffer := buffer a @ concat (map respArray ls)\<rparr>"
    "replays t ls m m'" "\<forall>l \<in> set ls. loggable l"
proof -
  obtain m' ls where l: "logged t m p p' m' ls" using run_logged [OF assms(1)] p' by blast
  have "db_inv (database p)" using assms(1) by (simp add: frozen_def)
  then obtain ls' where ls': "aof p' = map_option (fold aof_append ls') (aof p)" "\<forall>l \<in> set ls'. loggable l"
    using run_logs [OF assms(3)] assms(4) p' by (auto simp: logs_def)
  have "concat (map respArray ls) = concat (map respArray ls')"
    using l ls'(1) assms(2) by (auto simp: logged_def fold_append_buffer dest: arg_cong [of _ _ buffer])
  then have "ls = ls'" by (rule log_inject)
  with l ls' assms(2) that show thesis by (auto simp: logged_def fold_append_buffer)
qed

section \<open>Starting from a log\<close>

lemma new_replayer:
  assumes "0 \<le> t"
  shows "replayer t (new_processor (new_database (\<lambda>_. t) rnd) None) Map.empty"
proof -
  have "db_inv (new_database (\<lambda>_. t) rnd)" using assms by (intro new_database_inv) simp
  then have "db_inv (database (new_processor (new_database (\<lambda>_. t) rnd) None))"
    by (simp add: new_processor_def now_def)
  then show ?thesis
    by (auto simp: replayer_def frozen_def new_processor_def now_def new_database_def abs_db_def live_def)
qed

lemma replay_all_prefix:
  "replay_all f (as @ bs) s = Some s' \<Longrightarrow> \<exists>s1. replay_all f as s = Some s1"
  by (auto simp: replay_all_append split: option.splits)

lemma abs_settings [simp]:
  "abs_db (setMaxMemory n db) = abs_db db" "abs_db (setEvictionPolicy pol db) = abs_db db"
  by (simp_all add: setMaxMemory_def setEvictionPolicy_def abs_db_def)

lemma abs_new_processor [simp]: "abs_db (database (new_processor db a)) = abs_db db"
  by (simp add: new_processor_def now_def abs_db_def)

lemma server_start_loaded:
  assumes "appendOnly config" "fd \<noteq> -1"
    "aof_load replay_command None (Some contents) (new_processor db None) = (Inr (), q, Some kept)"
  shows "\<exists>s. server_start config None fd msg db (os0\<lparr>disk := Some contents\<rparr>) = Inr s \<and>
    abs_db (database (processor s)) = abs_db (database q) \<and> disk (os s) = Some kept \<and> clients s = [] \<and>
    aof (processor s) = Some ((new_aof (aofPath config))\<lparr>fileDescriptor := fd\<rparr>)"
  using assms by (simp add: server_start_def new_server_def aof_open_def Let_def) (simp add: new_processor_def Let_def split_def)

lemma cut_log_whole:
  assumes "cut_log ls contents whole" "contents = concat (map respArray ls)"
  shows "whole = ls"
proof (rule ccontr)
  assume "whole \<noteq> ls"
  then obtain c cs' r where "ls = whole @ c # cs'" "strict_prefix r (respArray c)" "contents = concat (map respArray whole) @ r"
    using assms(1) by (auto simp: cut_log_def)
  with assms(2) show False by (auto simp: strict_prefix_def dest: prefix_length_le)
qed

lemma recovery:
  assumes "0 \<le> t" "\<forall>l \<in> set ls. loggable l" "replays t ls Map.empty m" "prefix contents (concat (map respArray ls))"
    "appendOnly config" "fd \<noteq> -1"
  obtains s whole where
    "server_start config None fd msg (new_database (\<lambda>_. t) rnd) (os0\<lparr>disk := Some contents\<rparr>) = Inr s"
    "disk (os s) = Some (concat (map respArray whole))" "cut_log ls contents whole"
    "map_option (\<lambda>q. abs_db (database q)) (replay_all replay_command whole (new_processor (new_database (\<lambda>_. t) rnd) None)) =
      Some (abs_db (database (processor s)))"
    "contents = concat (map respArray ls) \<longrightarrow> live t (abs_db (database (processor s))) = m"
proof -
  let ?q = "new_processor (new_database (\<lambda>_. t) rnd) None"
  obtain whole where whole: "cut_log ls contents whole" using cut_log_exists [OF assms(4)] by blast
  then obtain rest where rest: "ls = whole @ rest" by (auto simp: cut_log_def)
  obtain qf where qf: "replay_all replay_command ls ?q = Some qf" "replayer t qf m"
    using assms(3) new_replayer [OF assms(1)] by (auto simp: replays_def)
  obtain q where q: "replay_all replay_command whole ?q = Some q"
    using replay_all_prefix [of replay_command whole rest] qf(1) rest by auto
  have "aof_load replay_command None (Some contents) ?q = (Inr (), q, Some (concat (map respArray whole)))"
    by (rule load_cut_log [OF whole assms(2) q])
  then obtain s where s: "server_start config None fd msg (new_database (\<lambda>_. t) rnd) (os0\<lparr>disk := Some contents\<rparr>) = Inr s"
    "abs_db (database (processor s)) = abs_db (database q)" "disk (os s) = Some (concat (map respArray whole))"
    using server_start_loaded [OF assms(5,6)] by blast
  moreover have "live t (abs_db (database (processor s))) = m" if "contents = concat (map respArray ls)"
  proof -
    have "whole = ls" using cut_log_whole [OF whole] that by simp
    with q qf s(2) show ?thesis by (simp add: replayer_def frozen_def)
  qed
  ultimately show thesis using that whole q by simp
qed

lemma restart:
  assumes "0 \<le> t" "\<forall>args \<in> set cmds. loggable args" "buffer a = []"
    and p': "p' = fold (\<lambda>args p. snd (execute args p)) cmds (new_processor (new_database (\<lambda>_. t) rnd) (Some a))"
    and "aof p' = Some a'" "prefix contents (buffer a')" "appendOnly config" "fd \<noteq> -1"
  shows "\<exists>s ls whole. server_start config None fd msg (new_database (\<lambda>_. t) rnd') (os0\<lparr>disk := Some contents\<rparr>) = Inr s \<and>
    buffer a' = concat (map respArray ls) \<and> cut_log ls contents whole \<and>
    disk (os s) = Some (concat (map respArray whole)) \<and>
    map_option (\<lambda>q. abs_db (database q)) (replay_all replay_command whole (new_processor (new_database (\<lambda>_. t) rnd') None)) =
      Some (abs_db (database (processor s))) \<and>
    (contents = buffer a' \<longrightarrow> live t (abs_db (database (processor s))) = live t (abs_db (database p')))"
proof -
  let ?p = "new_processor (new_database (\<lambda>_. t) rnd) (Some a)"
  have f: "frozen t (database ?p) Map.empty"
    using new_replayer [OF assms(1), of rnd] by (simp add: replayer_def new_processor_def Let_def split_def)
  have b: "bounded_keys (database ?p)"
    by (simp add: bounded_keys_def dkeys_def new_processor_def now_def new_database_def)
  have a: "aof ?p = Some a" by (simp add: new_processor_def Let_def split_def)
  obtain m' ls a1 where r1: "frozen t (database p') m'" "aof p' = Some a1"
    "a1 = a\<lparr>buffer := buffer a @ concat (map respArray ls)\<rparr>" "replays t ls Map.empty m'" "\<forall>l \<in> set ls. loggable l"
    by (rule run_log [OF f a assms(2) b p'])
  with assms(3,5) have r: "frozen t (database p') m'" "buffer a' = concat (map respArray ls)"
    "replays t ls Map.empty m'" "\<forall>l \<in> set ls. loggable l"
    by auto
  have "prefix contents (concat (map respArray ls))" using assms(6) r(2) by simp
  then obtain s whole where
    s: "server_start config None fd msg (new_database (\<lambda>_. t) rnd') (os0\<lparr>disk := Some contents\<rparr>) = Inr s"
      "disk (os s) = Some (concat (map respArray whole))" "cut_log ls contents whole"
      "map_option (\<lambda>q. abs_db (database q)) (replay_all replay_command whole (new_processor (new_database (\<lambda>_. t) rnd') None)) =
        Some (abs_db (database (processor s)))"
      "contents = concat (map respArray ls) \<longrightarrow> live t (abs_db (database (processor s))) = m'"
    by (rule recovery [OF assms(1) r(4) r(3) _ assms(7,8), of contents msg rnd' os0])
  have "live t (abs_db (database p')) = m'" using r(1) by (simp add: frozen_def)
  with s r(2) show ?thesis by (intro exI [of _ s] exI [of _ ls] exI [of _ whole]) simp
qed

end
