(* ===== verification/FKV_Wire.thy ===== *)
theory FKV_Wire
  imports FKV_Server FKV_Commands_Inv
begin

text \<open>
  What a connection guarantees. Reading: the commands of a buffer are executed once each and in
  order, their replies appended in the same order, and it makes no difference how the network cut
  the byte stream into chunks. Writing: the bytes sent and the bytes still pending are together the
  replies that were queued, in order; \<open>writeToClient\<close> returns unless \<open>send\<close> is interrupted for ever.
\<close>

section \<open>Reading commands\<close>

text \<open>One iteration of \<open>processInput\<close>, by what the parser says about the bytes that are left.\<close>

definition add_reply :: "CommandReply \<Rightarrow> Client \<Rightarrow> Client" where
  "add_reply reply c =
     c\<lparr>output_buf := output_buf c @ payload reply, closeAfterWrite := closeAfterWrite c \<or> closeConnection reply\<rparr>"

lemma process_stop: "closeAfterWrite c \<or> length inp \<le> consumed \<Longrightarrow> process_loop inp consumed c p = (Inr consumed, c, p)"
  by (subst process_loop.simps) auto

lemma process_incomplete:
  "parseRespCommand (drop consumed inp) = incompleteResult \<Longrightarrow> process_loop inp consumed c p = (Inr consumed, c, p)"
  by (subst process_loop.simps) (simp add: Let_def)

lemma process_error:
  "\<not> closeAfterWrite c \<Longrightarrow> consumed < length inp \<Longrightarrow> status (parseRespCommand (drop consumed inp)) = Error \<Longrightarrow>
   process_loop inp consumed c p =
     (Inr consumed, c\<lparr>output_buf := output_buf c @ respError (error (parseRespCommand (drop consumed inp))),
        closeAfterWrite := True\<rparr>, p)"
  by (subst process_loop.simps) (simp add: Let_def)

lemma process_blank:
  "\<not> closeAfterWrite c \<Longrightarrow> consumed < length inp \<Longrightarrow> parseRespCommand (drop consumed inp) = completeResult [] n \<Longrightarrow>
   process_loop inp consumed c p = process_loop inp (consumed + n) c p"
  by (subst process_loop.simps) (simp add: Let_def)

lemma process_command:
  "\<not> closeAfterWrite c \<Longrightarrow> consumed < length inp \<Longrightarrow> parseRespCommand (drop consumed inp) = completeResult args n \<Longrightarrow>
   args \<noteq> [] \<Longrightarrow>
   process_loop inp consumed c p =
     (case execute args p of
        (Inl e, p1) \<Rightarrow> (Inl e, c, p1)
      | (Inr reply, p1) \<Rightarrow> process_loop inp (consumed + n) (add_reply reply c) p1)"
  by (subst process_loop.simps) (auto simp: Let_def add_reply_def split: prod.split sum.split)

lemma parse_bulks_complete: "status (parse_bulks n b k as) = Complete \<Longrightarrow> \<exists>bs m. parse_bulks n b k as = completeResult bs m"
proof (induction n arbitrary: k as)
  case (Suc n)
  from Suc.prems obtain le d where "parse_bulks (Suc n) b k as = parse_bulks n b (le + 2 + d + 2) (as @ [take d (drop (le + 2) b)])"
    by (rule parse_bulks_continues)
  with Suc show ?case by simp
qed simp

lemma parse_complete: "status (parseRespCommand b) = Complete \<Longrightarrow>
    parseRespCommand b = completeResult (arguments (parseRespCommand b)) (consumedBytes (parseRespCommand b))"
  using parse_bulks_complete
  by (auto simp: parseRespCommand_def parseInlineCommand_def split: if_splits option.splits)
    (metis result_sels(4,5))

lemma process_cases:
  obtains (stop) "closeAfterWrite c \<or> length inp \<le> consumed"
  | (incomplete) "\<not> closeAfterWrite c" "consumed < length inp" "parseRespCommand (drop consumed inp) = incompleteResult"
  | (error) "\<not> closeAfterWrite c" "consumed < length inp" "status (parseRespCommand (drop consumed inp)) = Error"
  | (blank) n where "\<not> closeAfterWrite c" "consumed < length inp" "0 < n" "consumed + n \<le> length inp"
      "parseRespCommand (drop consumed inp) = completeResult [] n"
  | (command) args n where "\<not> closeAfterWrite c" "consumed < length inp" "0 < n" "consumed + n \<le> length inp"
      "parseRespCommand (drop consumed inp) = completeResult args n" "args \<noteq> []"
proof (cases "closeAfterWrite c \<or> length inp \<le> consumed")
  case False
  then have run: "\<not> closeAfterWrite c" "consumed < length inp" by auto
  show thesis
  proof (cases "status (parseRespCommand (drop consumed inp))")
    case Complete
    with parse_consumed [of "drop consumed inp"] run parse_complete [OF Complete] show thesis
      by (cases "arguments (parseRespCommand (drop consumed inp)) = []") (auto intro: blank command)
  qed (use run incomplete error parse_incomplete in auto)
qed (rule stop)

text \<open>A rule for claims about the loop: the cases that end it, and the two that go on.\<close>

lemma process_induct [case_names stop incomplete error blank command]:
  assumes "\<And>k c p. closeAfterWrite c \<or> length inp \<le> k \<Longrightarrow> P k c p"
    and "\<And>k c p. \<not> closeAfterWrite c \<Longrightarrow> k < length inp \<Longrightarrow> parseRespCommand (drop k inp) = incompleteResult \<Longrightarrow> P k c p"
    and "\<And>k c p. \<not> closeAfterWrite c \<Longrightarrow> k < length inp \<Longrightarrow> status (parseRespCommand (drop k inp)) = Error \<Longrightarrow> P k c p"
    and "\<And>k c p n. \<not> closeAfterWrite c \<Longrightarrow> k < length inp \<Longrightarrow> k + n \<le> length inp \<Longrightarrow>
      parseRespCommand (drop k inp) = completeResult [] n \<Longrightarrow> P (k + n) c p \<Longrightarrow> P k c p"
    and "\<And>k c p args n. \<not> closeAfterWrite c \<Longrightarrow> k < length inp \<Longrightarrow> k + n \<le> length inp \<Longrightarrow>
      parseRespCommand (drop k inp) = completeResult args n \<Longrightarrow> args \<noteq> [] \<Longrightarrow>
      (\<And>reply p1. execute args p = (Inr reply, p1) \<Longrightarrow> P (k + n) (add_reply reply c) p1) \<Longrightarrow> P k c p"
  shows "P k c p"
proof (induction "length inp - k" arbitrary: k c p rule: less_induct)
  case less
  show ?case
  proof (rule process_cases [of c inp k])
    fix n assume *: "\<not> closeAfterWrite c" "k < length inp" "0 < n" "k + n \<le> length inp"
      "parseRespCommand (drop k inp) = completeResult [] n"
    then have "P (k + n) c' p'" for c' p' by (intro less.hyps) linarith
    with assms(4) * show ?thesis by blast
  next
    fix args n assume *: "\<not> closeAfterWrite c" "k < length inp" "0 < n" "k + n \<le> length inp"
      "parseRespCommand (drop k inp) = completeResult args n" "args \<noteq> []"
    then have "P (k + n) c' p'" for c' p' by (intro less.hyps) linarith
    with assms(5) * show ?thesis by blast
  qed (use assms(1-3) in auto)
qed

lemmas process_steps = process_stop process_incomplete process_error process_blank process_command

lemma process_loop_total:
  assumes "db_inv (database p)" "consumed \<le> length inp"
  shows "\<exists>n c' p' replies. process_loop inp consumed c p = (Inr n, c', p') \<and> consumed \<le> n \<and> n \<le> length inp \<and>
    db_inv (database p') \<and> input_buf c' = input_buf c \<and> outputOffset c' = outputOffset c \<and>
    output_buf c' = output_buf c @ replies"
  using assms
proof (induction consumed c p rule: process_induct [where inp = inp])
  case (blank k c p n)
  then show ?case by (auto simp: process_blank intro: order_trans [of k "k + n"])
next
  case (command k c p args n)
  obtain reply p1 where e: "execute args p = (Inr reply, p1)" "db_inv (database p1)"
    using execute_total [OF command.prems(1)] by blast
  with command.IH [OF e(1) e(2)] command show ?case
    by (auto simp: process_command add_reply_def intro: order_trans [of k "k + n"])
qed (auto simp: process_steps)

text \<open>The loop does not look at the buffer field of the client, only at the bytes it is given.\<close>

lemma process_loop_frame:
  "process_loop inp consumed (c\<lparr>input_buf := b\<rparr>) p =
     (case process_loop inp consumed c p of (r, c', p') \<Rightarrow> (r, c'\<lparr>input_buf := b\<rparr>, p'))"
proof (induction consumed c p rule: process_induct [where inp = inp])
  case (command k c p args n)
  have "add_reply reply (c\<lparr>input_buf := b\<rparr>) = (add_reply reply c)\<lparr>input_buf := b\<rparr>" for reply
    by (simp add: add_reply_def)
  with command show ?case by (auto simp: process_command split: prod.split sum.split)
qed (simp_all add: process_steps)

lemma process_loop_shift:
  "process_loop (drop k inp) m c p =
     (case process_loop inp (k + m) c p of (r, c', p') \<Rightarrow> (map_sum id (\<lambda>n. n - k) r, c', p'))"
proof (induction m c p rule: process_induct [where inp = "drop k inp"])
  case (command m c p args n)
  then show ?case
    by (auto simp: process_command [of _ _ _ args n] add.commute add.left_commute split: prod.split sum.split)
next
  case (blank m c p n)
  then show ?case by (auto simp: process_blank [of _ _ _ n] add.commute add.left_commute)
next
  case (stop m c p)
  then have "closeAfterWrite c \<or> length inp \<le> k + m" by auto
  with stop show ?case by (simp add: process_stop)
qed (auto simp: process_steps add.commute)

section \<open>Chunks\<close>

text \<open>Bytes that come later only add to what the loop does.\<close>

lemma process_loop_append:
  assumes "process_loop inp k c p = (Inr n, c', p')" "\<not> closeAfterWrite c'"
  shows "process_loop (inp @ ext) k c p = process_loop (inp @ ext) n c' p'"
  using assms
proof (induction k c p rule: process_induct [where inp = inp])
  case (blank k c p m)
  then have "parseRespCommand (drop k (inp @ ext)) = completeResult [] m"
    using parse_complete_append [of "drop k inp" ext] by simp
  with blank show ?case by (simp add: process_blank)
next
  case (command k c p args m)
  then have "parseRespCommand (drop k (inp @ ext)) = completeResult args m"
    using parse_complete_append [of "drop k inp" ext] by simp
  with command show ?case by (auto simp: process_command split: prod.splits sum.splits)
qed (auto simp: process_steps)

lemma processInput_total:
  assumes "db_inv (database p)"
  shows "\<exists>c' p' n replies. processInput c p = (Inr (), c', p') \<and> db_inv (database p') \<and>
    input_buf c' = drop n (input_buf c) \<and> outputOffset c' = outputOffset c \<and>
    output_buf c' = output_buf c @ replies"
  using process_loop_total [OF assms, of 0 "input_buf c" c] by (auto simp: processInput_def)

lemma processInput_chunks:
  assumes "db_inv (database p)" "processInput (c\<lparr>input_buf := first\<rparr>) p = (r, c1, p1)" "\<not> closeAfterWrite c1"
  shows "processInput (c1\<lparr>input_buf := input_buf c1 @ more_bytes\<rparr>) p1 = processInput (c\<lparr>input_buf := first @ more_bytes\<rparr>) p"
proof -
  obtain n d q where l: "process_loop first 0 c p = (Inr n, d, q)" "n \<le> length first"
    using process_loop_total [OF assms(1), of 0 first c] by auto
  then have c1: "c1 = d\<lparr>input_buf := drop n first\<rparr>" and p1: "p1 = q"
    using assms(2) by (auto simp: processInput_def process_loop_frame)
  have alive: "\<not> closeAfterWrite d" using assms(3) c1 by simp
  have "process_loop (drop n (first @ more_bytes)) 0 d q =
      (case process_loop (first @ more_bytes) n d q of (r, c', p') \<Rightarrow> (map_sum id (\<lambda>m. m - n) r, c', p'))"
    by (simp only: process_loop_shift add_0_right)
  moreover have "process_loop (first @ more_bytes) n d q = process_loop (first @ more_bytes) 0 c p"
    using process_loop_append [OF l(1) alive] by simp
  moreover obtain m d' q' where "process_loop (first @ more_bytes) 0 c p = (Inr m, d', q')" "n \<le> m"
  proof -
    have "db_inv (database q)" using process_loop_total [OF assms(1), of 0 first c] l(1) by auto
    then show thesis
      using that process_loop_total [of q n "first @ more_bytes" d] l(2) calculation(2) by auto
  qed
  ultimately show ?thesis
    using l(2) by (simp add: processInput_def process_loop_frame c1 p1)
qed

section \<open>A pipeline of commands\<close>

text \<open>The replies to a sequence of commands, executed one after the other.\<close>

fun serve :: "bytes list list \<Rightarrow> CommandProcessor \<Rightarrow> bytes \<times> CommandProcessor" where
  "serve [] p = ([], p)"
| "serve (args # cmds) p =
     (case execute args p of
        (Inl e, p1) \<Rightarrow> ([], p1)
      | (Inr reply, p1) \<Rightarrow> (let (out, p2) = serve cmds p1 in (payload reply @ out, p2)))"

definition quits :: "bytes list \<Rightarrow> bool" where
  "quits args \<longleftrightarrow> args \<noteq> [] \<and> uppercase (args ! 0) = ''QUIT''"

lemma reply_of_open [simp]: "closeConnection (reply_of s) = False" "payload (reply_of s) = s"
  by (simp_all add: reply_of_def)

lemma catch_reply_open: "catch_reply r = Inr reply \<Longrightarrow> closeConnection reply = False"
  by (auto simp: catch_reply_def split: sum.splits exn.splits)

lemma execute_open:
  assumes "execute args p = (Inr reply, p')" "\<not> quits args"
  shows "\<not> closeConnection reply"
proof -
  have c: "closeConnection reply = False" if "call_handler spec args q = (Inr reply, p')" for spec q
    using that by (auto simp: call_handler_def Let_def dest: catch_reply_open split: prod.splits)
  have w: "closeConnection reply = False" if "run_write spec args q = (Inr reply, p')" for spec q
    using that by (auto simp: run_write_def and_then_def dest: c split: if_splits prod.splits sum.splits)
  show ?thesis
    using assms by (auto simp: execute_def quits_def Let_def dest: c w split: if_splits option.splits)
qed

lemma process_pipeline:
  assumes "\<forall>args \<in> set cmds. loggable args \<and> \<not> quits args"
    and "parseRespCommand tail = incompleteResult" "\<not> closeAfterWrite c" "db_inv (database p)"
    and "drop k inp = concat (map respArray cmds) @ tail" "k \<le> length inp"
  shows "process_loop inp k c p =
    (Inr (length inp - length tail), c\<lparr>output_buf := output_buf c @ fst (serve cmds p)\<rparr>, snd (serve cmds p))"
  using assms
proof (induction cmds arbitrary: k c p)
  case Nil
  then have "k = length inp - length tail" using arg_cong [OF Nil.prems(5), of length] by auto
  with Nil show ?case by (simp add: process_incomplete)
next
  case (Cons args cmds)
  let ?n = "length (respArray args)"
  let ?rest = "concat (map respArray cmds) @ tail"
  have d: "drop k inp = respArray args @ ?rest" using Cons.prems(5) by simp
  have ok: "loggable args" "\<not> quits args" using Cons.prems(1) by simp_all
  have len: "length inp - k = ?n + length ?rest" using arg_cong [OF d, of length] by simp
  have "?n > 0" by (simp add: respArray_def)
  with len have k: "k < length inp" "k + ?n \<le> length inp" by linarith+
  have parse: "parseRespCommand (drop k inp) = completeResult args ?n"
    using ok(1) parse_encoded_command [of args ?rest] d by (simp add: loggable_def)
  obtain reply p1 where e: "execute args p = (Inr reply, p1)" "db_inv (database p1)"
    using execute_total [OF Cons.prems(4)] by blast
  have "add_reply reply c = c\<lparr>output_buf := output_buf c @ payload reply\<rparr>"
    using execute_open [OF e(1) ok(2)] Cons.prems(3) by (cases c) (simp add: add_reply_def)
  moreover have "drop (k + ?n) inp = ?rest"
    using d by (metis add.commute append_eq_conv_conj drop_drop)
  ultimately show ?case
    using Cons.IH [of "c\<lparr>output_buf := output_buf c @ payload reply\<rparr>" p1 "k + ?n"] Cons.prems(1-3) k e
      process_command [OF Cons.prems(3) k(1) parse, of p] ok(1)
    by (simp add: loggable_def split: prod.split)
qed

lemma processInput_pipeline:
  assumes "\<forall>args \<in> set cmds. loggable args \<and> \<not> quits args"
    and "parseRespCommand tail = incompleteResult" "\<not> closeAfterWrite c" "db_inv (database p)"
    and "input_buf c = concat (map respArray cmds) @ tail"
  shows "processInput c p =
    (Inr (), c\<lparr>input_buf := tail, output_buf := output_buf c @ fst (serve cmds p)\<rparr>, snd (serve cmds p))"
  using process_pipeline [OF assms(1-4), of 0 "input_buf c"] assms(5) by (simp add: processInput_def)

section \<open>Writing replies\<close>

definition pending :: "Client \<Rightarrow> bytes" where
  "pending c = drop (outputOffset c) (output_buf c)"

definition client_ok :: "Client \<Rightarrow> bool" where
  "client_ok c \<longleftrightarrow> outputOffset c \<le> length (output_buf c)"

lemma length_pending: "length (pending c) = pendingOutput c"
  by (simp add: pending_def pendingOutput_def)

lemma client_ok_new [simp]: "client_ok new_client"
  by (simp add: client_ok_def new_client_def)

lemma compact_pending [simp]: "pending (compact_output c) = pending c"
  by (simp add: compact_output_def pending_def)

lemma compact_ok [simp]: "client_ok c \<Longrightarrow> client_ok (compact_output c)"
  by (simp add: compact_output_def client_ok_def)

lemma compact_frame [simp]:
  "closeAfterWrite (compact_output c) = closeAfterWrite c" "input_buf (compact_output c) = input_buf c"
  by (simp_all add: compact_output_def)

text \<open>What a round of \<open>send\<close> leaves: nothing is lost, doubled or reordered.\<close>

definition conserves :: "bytes \<Rightarrow> Client \<Rightarrow> bool \<times> bytes \<times> Client \<Rightarrow> bool" where
  "conserves sent c r \<longleftrightarrow>
     (case r of (ok, sent', c') \<Rightarrow>
        sent' @ pending c' = sent @ pending c \<and> (client_ok c \<longrightarrow> client_ok c') \<and>
        closeAfterWrite c' = closeAfterWrite c \<and> input_buf c' = input_buf c)"

lemma send_loop_conserves:
  assumes "send_loop sd i sent c = Some r"
  shows "conserves sent c r"
proof (rule send_loop.raw_induct [OF _ assms], goal_cases)
  case (1 rec sd i sent c r)
  show ?case
  proof (cases "pendingOutput c > 0")
    case False
    with 1(2) show ?thesis by (auto simp: conserves_def)
  next
    case True
    show ?thesis
    proof (cases "sd i")
      case (Sent n)
      let ?m = "min n (pendingOutput c)"
      let ?c = "c\<lparr>outputOffset := outputOffset c + ?m\<rparr>"
      show ?thesis
      proof (cases "?m > 0")
        case False
        with 1(2) True Sent show ?thesis by (auto simp: conserves_def)
      next
        case m: True
        then have "conserves (sent @ take ?m (drop (outputOffset c) (output_buf c))) ?c r"
          using 1 True Sent by (auto simp: Let_def)
        moreover have "take ?m (drop (outputOffset c) (output_buf c)) @ pending ?c = pending c"
          by (simp add: pending_def) (metis append_take_drop_id drop_drop add.commute)
        moreover have "client_ok c \<Longrightarrow> client_ok ?c"
          by (auto simp: client_ok_def pendingOutput_def)
        ultimately show ?thesis by (auto simp: conserves_def)
      qed
    qed (use 1 True in \<open>auto simp: conserves_def\<close>)
  qed
qed

lemma writeToClient_conserves:
  assumes "writeToClient sd c = Some (ok, sent, c')"
  shows "conserves [] c (ok, sent, c')"
proof -
  obtain c0 where l: "send_loop sd 0 [] c = Some (ok, sent, c0)" "c' = (if ok then compact_output c0 else c0)"
    using assms by (auto simp: writeToClient_def)
  from send_loop_conserves [OF l(1)] show ?thesis by (auto simp: l(2) conserves_def)
qed

text \<open>\<open>writeToClient\<close> returns when \<open>send\<close> is not interrupted for ever.\<close>

lemma send_loop_skip:
  assumes "pendingOutput c > 0" "\<And>j. j < n \<Longrightarrow> sd (i + j) = SendInterrupted"
  shows "send_loop sd i sent c = send_loop sd (i + n) sent c"
  using assms(2)
proof (induction n arbitrary: i)
  case (Suc n)
  have "send_loop sd i sent c = send_loop sd (Suc i) sent c"
    using assms(1) Suc.prems [of 0] by (subst send_loop.simps) simp
  also have "\<dots> = send_loop sd (Suc i + n) sent c"
    by (rule Suc.IH) (use Suc.prems [of "Suc j" for j] in simp)
  finally show ?case by simp
qed simp

lemma send_loop_returns:
  assumes "\<And>n. \<exists>m \<ge> n. sd m \<noteq> SendInterrupted"
  shows "\<exists>r. send_loop sd i sent c = Some r"
proof (induction "pendingOutput c" arbitrary: i sent c rule: less_induct)
  case less
  show ?case
  proof (cases "pendingOutput c > 0")
    case False
    then show ?thesis by (subst send_loop.simps) (simp del: split_paired_Ex)
  next
    case True
    define m where "m = (LEAST m. m \<ge> i \<and> sd m \<noteq> SendInterrupted)"
    have m: "m \<ge> i" "sd m \<noteq> SendInterrupted"
      using LeastI_ex [of "\<lambda>m. m \<ge> i \<and> sd m \<noteq> SendInterrupted"] assms by (auto simp: m_def)
    have "send_loop sd i sent c = send_loop sd (i + (m - i)) sent c"
    proof (rule send_loop_skip [OF True])
      fix j assume "j < m - i"
      then show "sd (i + j) = SendInterrupted"
        using not_less_Least [of "i + j" "\<lambda>m. m \<ge> i \<and> sd m \<noteq> SendInterrupted"] by (auto simp: m_def)
    qed
    then have eq: "send_loop sd i sent c = send_loop sd m sent c" using m(1) by simp
    have rec: "\<exists>r. send_loop sd (Suc m) sent' (c\<lparr>outputOffset := outputOffset c + k\<rparr>) = Some r"
      if "0 < k" "k \<le> pendingOutput c" for k sent'
      using that by (intro less.hyps) (simp add: pendingOutput_def)
    show ?thesis
    proof (cases "sd m")
      case (Sent n)
      with True rec [of "min n (pendingOutput c)"] show ?thesis
        unfolding eq by (subst send_loop.simps) (simp add: Let_def del: split_paired_Ex)
    qed (use True m(2) in \<open>simp_all add: eq send_loop.simps [of sd m] del: split_paired_Ex\<close>)
  qed
qed

lemma writeToClient_returns:
  assumes "\<And>n. \<exists>m \<ge> n. sd m \<noteq> SendInterrupted"
  shows "\<exists>r. writeToClient sd c = Some r"
  using send_loop_returns [OF assms, of 0 "[]" c] by (auto simp: writeToClient_def)

end
