(* ===== verification/FKV_Loop.thy ===== *)
theory FKV_Loop
  imports FKV_Wire FKV_Database_Expiry
begin

text \<open>
  The event loop as a whole: an invariant over the database, every connection and the connection
  counter holds in each reachable state, no iteration ends in an exception, and the log is handed to
  the operating system before any reply leaves.
\<close>

section \<open>The connection counters\<close>

text \<open>No handler touches the counters of the server; \<open>execute\<close> only counts the command.\<close>

definition keeps_stats :: "handler \<Rightarrow> bool" where
  "keeps_stats h \<longleftrightarrow> (\<forall>args p. serverStats (snd (h args p)) = serverStats p)"

lemma db_call_stats: "db_call f p = (r, q) \<Longrightarrow> serverStats q = serverStats p"
  by (auto simp: db_call_def split: prod.splits)

lemma and_then_stats:
  "serverStats (snd rp) = st \<Longrightarrow> (\<And>x q. serverStats q = st \<Longrightarrow> serverStats (snd (f x q)) = st) \<Longrightarrow>
   serverStats (snd (and_then rp f)) = st"
  by (auto simp: and_then_def split: prod.splits sum.splits)

lemma db_call_stats_snd [simp]: "serverStats (snd (db_call f p)) = serverStats p"
  by (simp add: db_call_def split: prod.split)

lemma evict_and_log_stats [simp]: "serverStats (snd (evict_and_log p)) = serverStats p"
proof -
  have "serverStats (propagate_dels ks q) = serverStats q" for ks q
    unfolding propagate_dels_def by (induction ks arbitrary: q) simp_all
  then show ?thesis by (simp add: evict_and_log_def split: prod.split)
qed

lemma expire_when_stats: "expire_when a u b p = (r, q) \<Longrightarrow> serverStats q = serverStats p"
  by (auto simp: expire_when_def Let_def dest: db_call_stats split: option.splits if_splits prod.splits)

lemma expireGeneric_stats: "serverStats (snd (expireGeneric args u b p)) = serverStats p"
  by (auto simp: expireGeneric_def Let_def propagateExpiry_def dest!: db_call_stats expire_when_stats
      split: option.split prod.split)

lemma set_options_stats: "set_options as opts p = (r, q) \<Longrightarrow> serverStats q = serverStats p"
proof (induction as arbitrary: opts p rule: length_induct)
  case (1 as)
  then have IH: "set_options ys o1 p1 = (r, q) \<Longrightarrow> length ys < length as \<Longrightarrow> serverStats q = serverStats p1" for ys o1 p1
    by blast
  show ?case
  proof (cases as)
    case (Cons a rest)
    from "1.prems" show ?thesis
      unfolding Cons set_options.simps(2) Let_def
      by (simp only: split: if_split_asm list.split_asm option.split_asm prod.split_asm)
        (auto simp del: set_options.simps simp: Cons dest!: IH expire_when_stats)
  qed (use "1.prems" in simp)
qed

lemma cmd_set_stats: "serverStats (snd (cmd_set args p)) = serverStats p"
  by (auto simp: cmd_set_def Let_def propagateExpiry_def dest!: set_options_stats db_call_stats
      split: sum.split prod.split option.split)

lemma handlers_keep_stats:
  "keeps_stats cmd_ping" "keeps_stats cmd_echo" "keeps_stats cmd_select" "keeps_stats cmd_commandInfo"
  "keeps_stats cmd_dbsize" "keeps_stats cmd_flushall" "keeps_stats cmd_info" "keeps_stats cmd_memory"
  "keeps_stats cmd_del" "keeps_stats cmd_exists" "keeps_stats cmd_type" "keeps_stats cmd_keys"
  "keeps_stats cmd_ttl" "keeps_stats cmd_pttl" "keeps_stats cmd_persist" "keeps_stats cmd_mset"
  unfolding keeps_stats_def cmd_ping_def cmd_echo_def cmd_select_def cmd_commandInfo_def cmd_dbsize_def
    cmd_flushall_def cmd_info_def cmd_memory_def cmd_del_def cmd_exists_def cmd_type_def cmd_keys_def
    cmd_ttl_def cmd_pttl_def cmd_persist_def cmd_mset_def Let_def
  by (auto dest!: db_call_stats split: prod.split)

lemma config_keeps_stats: "keeps_stats cmd_config"
  unfolding keeps_stats_def cmd_config_def Let_def
  by (auto intro!: and_then_stats split: option.split)

lemma expire_keeps_stats:
  "keeps_stats cmd_expire" "keeps_stats cmd_pexpire" "keeps_stats cmd_expireat" "keeps_stats cmd_pexpireat"
  "keeps_stats cmd_set"
  by (simp_all add: keeps_stats_def cmd_expire_def cmd_pexpire_def cmd_expireat_def cmd_pexpireat_def
      expireGeneric_stats cmd_set_stats)

lemma string_keeps_stats:
  "keeps_stats cmd_get" "keeps_stats cmd_mget" "keeps_stats cmd_incr" "keeps_stats cmd_decr"
  "keeps_stats cmd_incrby" "keeps_stats cmd_decrby" "keeps_stats cmd_append" "keeps_stats cmd_strlen"
  unfolding keeps_stats_def cmd_get_def cmd_mget_def cmd_incr_def cmd_decr_def cmd_incrby_def
    cmd_decrby_def cmd_append_def cmd_strlen_def
  by (auto intro!: and_then_stats split: option.split)

lemma list_keeps_stats:
  "keeps_stats cmd_lpush" "keeps_stats cmd_rpush" "keeps_stats cmd_lpop" "keeps_stats cmd_rpop"
  "keeps_stats cmd_lrange" "keeps_stats cmd_llen" "keeps_stats cmd_lindex"
  unfolding keeps_stats_def cmd_lpush_def cmd_rpush_def cmd_lpop_def cmd_rpop_def cmd_lrange_def
    cmd_llen_def cmd_lindex_def
  by (auto intro!: and_then_stats split: option.split)

lemma hash_keeps_stats:
  "keeps_stats cmd_hset" "keeps_stats cmd_hget" "keeps_stats cmd_hdel" "keeps_stats cmd_hgetall"
  "keeps_stats cmd_hlen" "keeps_stats cmd_hexists" "keeps_stats cmd_hkeys" "keeps_stats cmd_hvals"
  unfolding keeps_stats_def cmd_hset_def cmd_hget_def cmd_hdel_def cmd_hgetall_def cmd_hlen_def
    cmd_hexists_def cmd_hkeys_def cmd_hvals_def
  by (auto intro!: and_then_stats)

lemma set_keeps_stats:
  "keeps_stats cmd_sadd" "keeps_stats cmd_srem" "keeps_stats cmd_smembers" "keeps_stats cmd_sismember"
  "keeps_stats cmd_scard"
  unfolding keeps_stats_def cmd_sadd_def cmd_srem_def cmd_smembers_def cmd_sismember_def cmd_scard_def
  by (auto intro!: and_then_stats)

lemma table_keeps_stats: "(name, spec) \<in> set commandTable \<Longrightarrow> keeps_stats (spec_handler spec)"
  by (auto simp: commandTable_def command_spec_def handlers_keep_stats config_keeps_stats expire_keeps_stats
      string_keeps_stats list_keeps_stats hash_keeps_stats set_keeps_stats)

lemma execute_stats: "\<exists>n. serverStats (snd (execute args p)) = (serverStats p)\<lparr>totalCommands := n\<rparr>"
proof -
  let ?p1 = "p\<lparr>serverStats := (serverStats p)\<lparr>totalCommands := totalCommands (serverStats p) + 1\<rparr>\<rparr>"
  have c: "serverStats (snd (call_handler spec args q)) = serverStats q"
    if "map_of commandTable name = Some spec" for name spec q
    using table_keeps_stats [OF map_of_SomeD [OF that]]
    by (auto simp: call_handler_def keeps_stats_def split: prod.split) (metis snd_conv)
  have w: "serverStats (snd (run_write spec args q)) = serverStats q"
    if "map_of commandTable name = Some spec" for name spec q
    using c [OF that] by (auto simp: run_write_def intro!: and_then_stats)
  have "serverStats (snd (execute args p)) = serverStats (if args = [] then p else ?p1)"
    by (auto simp: execute_def Let_def c w split: option.split)
  then show ?thesis by (cases "args = []") (auto intro: exI [of _ "totalCommands (serverStats p)"])
qed

lemma execute_clients:
  "execute args p = (r, p') \<Longrightarrow> connectedClients (serverStats p') = connectedClients (serverStats p)"
  using execute_stats [of args p] by auto

lemma process_loop_clients:
  "connectedClients (serverStats (snd (snd (process_loop inp k c p)))) = connectedClients (serverStats p)"
proof (induction k c p rule: process_induct [where inp = inp])
  case (command k c p args n)
  then show ?case
    by (auto simp: process_command dest: execute_clients split: prod.splits sum.splits)
qed (simp_all add: process_steps)

lemma processInput_clients:
  "connectedClients (serverStats (snd (snd (processInput c p)))) = connectedClients (serverStats p)"
  using process_loop_clients [of "input_buf c" 0 c p] by (auto simp: processInput_def split: prod.splits sum.splits)

section \<open>The invariant of the event loop\<close>

definition server_inv :: "Server \<Rightarrow> bool" where
  "server_inv s \<longleftrightarrow>
     db_inv (database (processor s)) \<and> distinct (map fst (clients s)) \<and>
     (\<forall>sock. pred_option client_ok (map_of (clients s) sock)) \<and>
     connectedClients (serverStats (processor s)) = length (clients s)"

lemma read_loop_frame:
  "read_loop n rv i c = (e, c') \<Longrightarrow>
     outputOffset c' = outputOffset c \<and> output_buf c' = output_buf c \<and> closeAfterWrite c' = closeAfterWrite c \<and>
     (\<exists>chunk. input_buf c' = input_buf c @ chunk \<and> length chunk \<le> n * READ_CHUNK_SIZE)"
proof (induction n rv i c rule: read_loop.induct)
  case (2 left rv i c)
  then show ?case
    by (fastforce simp: Let_def split: recv_result.splits if_splits)
qed auto

lemma processInput_ok:
  assumes "db_inv (database p)" "client_ok c"
  obtains c' p' where "processInput c p = (Inr (), c', p')" "db_inv (database p')" "client_ok c'"
    "connectedClients (serverStats p') = connectedClients (serverStats p)"
proof -
  obtain c' p' n out where "processInput c p = (Inr (), c', p')" "db_inv (database p')"
    "outputOffset c' = outputOffset c" "output_buf c' = output_buf c @ out"
    using processInput_total [OF assms(1), of c] by blast
  then show thesis using that assms(2) processInput_clients [of c p] by (simp add: client_ok_def)
qed

lemma readFromClient_ok:
  assumes "db_inv (database p)" "client_ok c"
  obtains keep c' p' where "readFromClient rv c p = (Inr keep, c', p')" "db_inv (database p')" "client_ok c'"
    "connectedClients (serverStats p') = connectedClients (serverStats p)"
proof -
  obtain e c1 where r: "read_loop MAX_READS_PER_EVENT rv 0 c = (e, c1)" by (cases "read_loop MAX_READS_PER_EVENT rv 0 c")
  have c1: "client_ok c1" using read_loop_frame [OF r] assms(2) by (simp add: client_ok_def)
  obtain c' p' where i: "processInput c1 p = (Inr (), c', p')" "db_inv (database p')" "client_ok c'"
    "connectedClients (serverStats p') = connectedClients (serverStats p)"
    using processInput_ok [OF assms(1) c1] by blast
  have "client_ok (c'\<lparr>closeAfterWrite := True\<rparr>)" using i(3) by (simp add: client_ok_def)
  then show thesis
    using that r c1 i assms(1)
    by (cases e; cases "length (input_buf c1) > MAX_QUERY_BUFFER") (auto simp: readFromClient_def)
qed

text \<open>The steps of the loop.\<close>

lemma server_inv_update:
  assumes "server_inv s" "map_of (clients s) sock = Some c" "client_ok c'" "db_inv (database p)"
    "connectedClients (serverStats p) = connectedClients (serverStats (processor s))"
  shows "server_inv (s\<lparr>processor := p, clients := AList.update sock c' (clients s)\<rparr>)"
  using assms length_update_present [OF assms(2)] by (simp add: server_inv_def)

lemma close_client_inv [wire_inv]: "server_inv s \<Longrightarrow> server_inv (close_client sock s)"
  by (simp add: server_inv_def close_client_def Let_def)

lemma accept_client_inv [wire_inv]: "server_inv s \<Longrightarrow> server_inv (accept_client sock s)"
  by (simp add: server_inv_def accept_client_def Let_def)

lemma server_sync_inv [wire_inv]: "server_inv s \<Longrightarrow> server_inv (server_sync ok s)"
  by (simp add: server_inv_def server_sync_def Let_def)

lemma server_cron_inv:
  assumes "server_inv s"
  obtains n s' where "server_cron b s = (Inr n, s')" "server_inv s'" "clients s' = clients s"
    "aof (processor s') = aof (processor s)"
    "reaps (time_now (database (processor s))) n (database (processor s)) (database (processor s'))"
proof -
  obtain m db' where "activeExpireCycle 20 b (database (processor s)) = (Inr m, db')"
    "reaps (time_now (database (processor s))) m (database (processor s)) db'"
    using activeExpireCycle_reaps [of "database (processor s)" 20 b] assms unfolding server_inv_def by blast
  then show thesis using that assms by (simp add: server_cron_def server_inv_def reaps_def)
qed

lemma flush_and_write_inv:
  assumes "server_inv s" "client_ok c" "flush_and_write sd c s = Some (ok, sent, c', s')"
  shows "server_inv s'" "client_ok c'" "clients s' = clients s"
proof -
  have s': "server_inv s' \<and> clients s' = clients s"
    using assms(1,3) by (auto simp: flush_and_write_def server_inv_def split: if_splits option.splits)
  have "client_ok c'"
    using assms(2,3) by (auto simp: flush_and_write_def conserves_def dest!: writeToClient_conserves
        split: if_splits option.splits)
  with s' show "server_inv s'" "client_ok c'" "clients s' = clients s" by auto
qed

lemma handleClientEvents_inv:
  assumes "server_inv s" "handleClientEvents sock err inp rv sd s = Some r"
  obtains sent s' where "r = Inr (sent, s')" "server_inv s'"
proof (cases "map_of (clients s) sock")
  case None
  with assms that show thesis by (auto simp: handleClientEvents_def)
next
  case (Some c)
  show thesis
  proof (cases err)
    case True
    with Some assms that show thesis by (auto simp: handleClientEvents_def wire_inv)
  next
    case False
    have ok: "client_ok c" "db_inv (database (processor s))"
      using assms(1) Some unfolding server_inv_def by (metis option.pred_inject(2))+
    obtain keep c1 p1 where r: "(if inp then readFromClient rv c (processor s) else (Inr True, c, processor s)) = (Inr keep, c1, p1)"
      "db_inv (database p1)" "client_ok c1" "connectedClients (serverStats p1) = connectedClients (serverStats (processor s))"
      using readFromClient_ok [OF ok(2,1), of rv] ok by (metis (full_types))
    let ?s1 = "s\<lparr>processor := p1, clients := AList.update sock c1 (clients s)\<rparr>"
    have s1: "server_inv ?s1" by (rule server_inv_update [OF assms(1) Some r(3,2,4)])
    have step: "Some r =
       (if \<not> keep then Some (Inr ([], close_client sock ?s1))
        else
          (case flush_and_write sd c1 ?s1 of
             None \<Rightarrow> None
           | Some (ok, sent, c2, s2) \<Rightarrow>
               (let s3 = s2\<lparr>clients := AList.update sock c2 (clients s2)\<rparr> in
                if \<not> ok \<or> closeAfterWrite c2 \<and> pendingOutput c2 = 0
                then Some (Inr (sent, close_client sock s3))
                else Some (Inr (sent, s3)))))"
      using r(1) Some \<open>\<not> err\<close> assms(2) by (simp add: handleClientEvents_def Let_def)
    show thesis
    proof (cases "keep \<and> flush_and_write sd c1 ?s1 \<noteq> None")
      case False
      with step s1 that show thesis by (auto simp: wire_inv split: if_splits option.splits)
    next
      case True
      then obtain ok' sent c2 s2 where w: "flush_and_write sd c1 ?s1 = Some (ok', sent, c2, s2)" by auto
      note fw = flush_and_write_inv [OF s1 r(3) w]
      have "server_inv (s2\<lparr>clients := AList.update sock c2 (clients s2)\<rparr>)"
        using server_inv_update [OF fw(1), of sock c1 c2 "processor s2"] fw by (simp add: server_inv_def)
      with True step w that show thesis by (auto simp: Let_def wire_inv split: if_splits)
    qed
  qed
qed

lemma acceptClients_inv:
  assumes "acceptClients ac i s = Some s'"
  shows "server_inv s \<longrightarrow> server_inv s'"
proof (rule acceptClients.raw_induct [OF _ assms], goal_cases)
  case (1 rec ac i s s')
  then show ?case by (auto simp: wire_inv split: accept_result.splits if_splits)
qed

lemma handle_events_inv:
  assumes "server_inv s" "handle_events r socks s = Some x"
  obtains wire s' where "x = Inr (wire, s')" "server_inv s'" "map fst wire = map fst socks"
  using assms
proof (induction socks arbitrary: s x thesis)
  case Nil
  then show ?case by auto
next
  case (Cons w socks)
  obtain sock rd wr where w: "w = (sock, rd, wr)" by (metis surj_pair)
  let ?h = "handleClientEvents sock (pollErr (revents r sock)) (rd \<and> pollIn (revents r sock) \<or> pollHup (revents r sock))
    (recvs r sock) (sends r sock) s"
  obtain y where y: "?h = Some y" using Cons.prems(3) w by (cases ?h) simp_all
  obtain sent s1 where h: "y = Inr (sent, s1)" "server_inv s1"
    using handleClientEvents_inv [OF Cons.prems(2) y] by blast
  obtain z where z: "handle_events r socks s1 = Some z"
    using Cons.prems(3) w y h(1) by (cases "handle_events r socks s1") simp_all
  obtain wire s2 where "z = Inr (wire, s2)" "server_inv s2" "map fst wire = map fst socks"
    using Cons.IH [OF _ h(2) z] by blast
  with Cons.prems(1,3) w y h(1) z show ?case by auto
qed

lemma background_inv:
  assumes "server_inv (server l)"
  obtains l' where "background_work config r l = Inr l'" "server_inv (server l')"
proof -
  obtain n s where c: "server_cron (overBudget r) (server l) = (Inr n, s)" "server_inv s"
    using server_cron_inv [OF assms] by metis
  let ?l = "if steadyNow r \<ge> nextCron l then l\<lparr>server := s, nextCron := steadyNow r + cronInterval config\<rparr> else l"
  let ?l' = "if aof (processor (server ?l)) \<noteq> None \<and> steadyNow r \<ge> nextSync ?l
    then ?l\<lparr>server := server_sync (fsyncOk r) (server ?l), nextSync := steadyNow r + SYNC_INTERVAL\<rparr> else ?l"
  have "server_inv (server ?l)" using assms c(2) by simp
  then have "server_inv (server ?l')" by (simp add: wire_inv)
  moreover have "background_work config r l = Inr ?l'" using c(1) by (simp add: background_work_def Let_def)
  ultimately show thesis using that by blast
qed

text \<open>
  The states of the loop: \<open>poll\<close> is asked about every connected socket, in the order the hash table
  lists them.
\<close>

inductive loop_step :: "ServerConfig \<Rightarrow> EventLoop \<Rightarrow> EventLoop \<Rightarrow> bool" for config where
  iteration: "run_iteration config r l = Some (Running wire l') \<Longrightarrow>
    set (descriptors r) = fst ` set (clients (server l)) \<Longrightarrow> distinct (descriptors r) \<Longrightarrow> loop_step config l l'"

inductive_cases loop_stepE: "loop_step config l l'"

lemma run_iteration_inv:
  assumes "server_inv (server l)" "run_iteration config r l = Some x"
  shows "(\<exists>wire l'. x = Running wire l' \<and> server_inv (server l')) \<or> (\<exists>status s. x = Stopped status s)"
proof (cases "shutdownRequested r \<or> poll_outcome r \<noteq> PollReady")
  case True
  with assms show ?thesis by (cases "poll_outcome r") (auto simp: run_iteration_def split: if_splits)
next
  case False
  let ?a = "if listenerReady r then acceptClients (accepts r) 0 (server l) else Some (server l)"
  obtain s1 where s1: "?a = Some s1" using assms(2) False by (cases ?a) (simp_all add: run_iteration_def)
  then have i1: "server_inv s1" using assms(1) acceptClients_inv by (auto split: if_splits)
  obtain y where y: "handle_events r (watched r (server l)) s1 = Some y"
    using assms(2) False s1 by (cases "handle_events r (watched r (server l)) s1") (simp_all add: run_iteration_def)
  obtain wire s2 where h: "y = Inr (wire, s2)" "server_inv s2"
    using handle_events_inv [OF i1 y] by blast
  obtain l' where "background_work config r (l\<lparr>server := s2\<rparr>) = Inr l'" "server_inv (server l')"
    using background_inv [of "l\<lparr>server := s2\<rparr>"] h(2) by auto
  with assms(2) False s1 y h show ?thesis by (auto simp: run_iteration_def)
qed

interpretation event_loop: step_system "loop_step config" "\<lambda>l. server_inv (server l)" for config
  by unfold_locales (use run_iteration_inv in \<open>fastforce elim!: loop_stepE\<close>)

end
