(* ===== verification/FKV_Format.thy ===== *)
theory FKV_Format
  imports FKV_Resp
begin

text \<open>
  The reply formatter, \<open>src/src/reply_format.cpp\<close>: \<open>quote\<close>, the recursive reader \<open>ReplyReader\<close> and
  \<open>formatReply\<close>. Its contract is stated over the values a reply can hold (\<open>Reply\<close>): formatting what
  the encoders of \<open>resp.cpp\<close> print for a value is the rendering of that value, whatever follows it
  in the buffer, for every nesting of arrays. A quoted string is read back by the command-line
  tokenizer as the string itself.

  The reader recurses once per value and loops once per array element; both are bounded here by a
  step counter, and \<open>format_fuel\<close> steps are shown to be enough for every input.
\<close>

section \<open>Quoting\<close>

definition hex_digit :: "nat \<Rightarrow> char" where
  "hex_digit d = (if d < 10 then char_of (48 + d) else char_of (87 + d))"

definition quote_char :: "char \<Rightarrow> bytes" where
  "quote_char character =
     (if character = BACKSLASH then [BACKSLASH, BACKSLASH]
      else if character = DQUOTE then [BACKSLASH, DQUOTE]
      else if character = LF then [BACKSLASH, CHR ''n'']
      else if character = CR then [BACKSLASH, CHR ''r'']
      else if character = TAB then [BACKSLASH, CHR ''t'']
      else if byte character < 0x20 \<or> byte character \<ge> 0x7f
      then [BACKSLASH, CHR ''x'', hex_digit (byte character div 16), hex_digit (byte character mod 16)]
      else [character])"

definition quote :: "bytes \<Rightarrow> bytes" where
  "quote v = [DQUOTE] @ concat (map quote_char v) @ [DQUOTE]"

section \<open>The reader\<close>

text \<open>
  What a call of \<open>format\<close> leaves: whether it succeeded, the text so far and the position; or the
  exception of \<open>std::stoll\<close>; or no result because the step counter ran out.
\<close>

datatype format_result = Formatted bool bytes nat | FormatThrows | OutOfSteps

definition readLine :: "bytes \<Rightarrow> nat \<Rightarrow> (bytes \<times> nat) option" where
  "readLine reply position =
     (case find_crlf_from reply position of
        None \<Rightarrow> None
      | Some e \<Rightarrow> Some (take (e - position) (drop position reply), e + 2))"

fun format_value :: "nat \<Rightarrow> bool \<Rightarrow> bytes \<Rightarrow> bytes \<Rightarrow> nat \<Rightarrow> nat \<Rightarrow> format_result"
  and format_items :: "nat \<Rightarrow> bool \<Rightarrow> bytes \<Rightarrow> int \<Rightarrow> int \<Rightarrow> nat \<Rightarrow> bytes \<Rightarrow> nat \<Rightarrow> nat \<Rightarrow> format_result" where
  "format_value 0 raw reply out position indent = OutOfSteps"
| "format_value (Suc fuel) raw reply out position indent =
     (if position \<ge> length reply then Formatted False out position
      else
        (let prefix = reply ! position in
         case readLine reply (position + 1) of
           None \<Rightarrow> Formatted False out (position + 1)
         | Some (line, position1) \<Rightarrow>
             if prefix = CHR ''+'' then Formatted True (out @ line) position1
             else if prefix = CHR ''-'' then Formatted True (out @ ''(error) '' @ line) position1
             else if prefix = CHR '':'' then Formatted True (out @ ''(integer) '' @ line) position1
             else if prefix = CHR ''$'' then
               (case stoll line of
                  None \<Rightarrow> FormatThrows
                | Some len \<Rightarrow>
                    if len < 0 then Formatted True (out @ ''(nil)'') position1
                    else if position1 + nat len + 2 > length reply then Formatted False out position1
                    else
                      (let v = take (nat len) (drop position1 reply)
                       in Formatted True (out @ (if raw then v else quote v)) (position1 + nat len + 2)))
             else if prefix = CHR ''*'' then
               (case stoll line of
                  None \<Rightarrow> FormatThrows
                | Some count \<Rightarrow>
                    if count < 0 then Formatted True (out @ ''(nil)'') position1
                    else if count = 0 then Formatted True (out @ ''(empty array)'') position1
                    else format_items fuel raw reply 1 count (length (to_string count)) out position1 indent)
             else Formatted False out position1))"
| "format_items 0 raw reply i count width out position indent = OutOfSteps"
| "format_items (Suc fuel) raw reply i count width out position indent =
     (if i > count then Formatted True out position
      else
        (let label = to_string i;
             out1 = (if i > 1 then out @ [LF] @ replicate indent (CHR '' '') else out);
             out2 = out1 @ replicate (width - length label) (CHR '' '') @ label @ '') ''
         in case format_value fuel raw reply out2 position (indent + width + 2) of
              Formatted True out3 position1 \<Rightarrow>
                format_items fuel raw reply (i + 1) count width out3 position1 indent
            | other \<Rightarrow> other))"

definition format_fuel :: "bytes \<Rightarrow> nat" where
  "format_fuel reply = 2 * length reply + 2"

definition formatReply :: "bytes \<Rightarrow> bool \<Rightarrow> bytes" where
  "formatReply reply raw =
     (case format_value (format_fuel reply) raw reply [] 0 0 of
        Formatted True out _ \<Rightarrow> out
      | _ \<Rightarrow> ''(protocol error)'')"

section \<open>The reader always finishes\<close>

declare format_value.simps(2) [simp del] format_items.simps(2) [simp del]

lemma readLine_progress: "readLine reply p = Some (line, p1) \<Longrightarrow> p + 2 \<le> p1 \<and> p1 \<le> length reply"
  using find_crlf_from_bound by (auto simp: readLine_def split: option.splits)

lemma format_progress:
  "(format_value fuel raw reply out p n = Formatted True o1 p1 \<longrightarrow> p < p1 \<and> p1 \<le> length reply) \<and>
   (format_items fuel raw reply i count w out p n = Formatted True o1 p1 \<longrightarrow> p \<le> length reply \<longrightarrow>
      p \<le> p1 \<and> p1 \<le> length reply)"
proof (induction fuel arbitrary: out p n o1 p1 i count w)
  case 0
  then show ?case by simp
next
  case (Suc fuel)
  have v: "format_value fuel raw reply out p n = Formatted True o1 p1 \<Longrightarrow> p < p1 \<and> p1 \<le> length reply"
    and t: "format_items fuel raw reply i count w out p n = Formatted True o1 p1 \<Longrightarrow> p \<le> length reply \<Longrightarrow>
      p \<le> p1 \<and> p1 \<le> length reply" for out p n o1 p1 i count w
    using Suc.IH by blast+
  have "p < p1 \<and> p1 \<le> length reply"
    if "format_value (Suc fuel) raw reply out p n = Formatted True o1 p1"
    using that
    by (auto simp: format_value.simps(2) Let_def split: option.splits if_splits prod.splits
        dest!: readLine_progress t)
  moreover have "p \<le> p1 \<and> p1 \<le> length reply"
    if "format_items (Suc fuel) raw reply i count w out p n = Formatted True o1 p1" "p \<le> length reply"
    using that
    by (auto simp: format_items.simps(2) Let_def split: if_splits format_result.splits bool.splits
        dest!: v t)
  ultimately show ?case by blast
qed

lemma format_enough:
  "(2 * (length reply - p) + 1 \<le> fuel \<longrightarrow> format_value fuel raw reply out p n \<noteq> OutOfSteps) \<and>
   (2 * (length reply - p) + 2 \<le> fuel \<longrightarrow> p \<le> length reply \<longrightarrow>
      format_items fuel raw reply i count w out p n \<noteq> OutOfSteps)"
proof (induction fuel arbitrary: out p n i count w)
  case 0
  then show ?case by simp
next
  case (Suc fuel)
  have v: "2 * (length reply - p) + 1 \<le> fuel \<Longrightarrow> format_value fuel raw reply out p n = OutOfSteps \<Longrightarrow> False"
    and t: "format_items fuel raw reply i count w out p n = OutOfSteps \<Longrightarrow> p \<le> length reply \<Longrightarrow>
      fuel < 2 * (length reply - p) + 2" for out p n i count w
    using Suc.IH by (meson not_le)+
  have "format_value (Suc fuel) raw reply out p n \<noteq> OutOfSteps" if "2 * (length reply - p) + 1 \<le> Suc fuel"
    using that
    by (auto simp: format_value.simps(2) Let_def split: option.splits if_splits prod.splits
        dest!: readLine_progress t)
  moreover have "format_items (Suc fuel) raw reply i count w out p n \<noteq> OutOfSteps"
    if "2 * (length reply - p) + 2 \<le> Suc fuel" "p \<le> length reply"
    using that v [of p]
    by (auto simp: format_items.simps(2) Let_def split: if_splits format_result.splits bool.splits
        dest!: format_progress [THEN conjunct1, rule_format] t)
  ultimately show ?case by blast
qed

section \<open>Reply values\<close>

datatype Reply = Simple bytes | Failure bytes | Integer int | Bulk bytes | Null | Array "Reply list"

fun encode :: "Reply \<Rightarrow> bytes" where
  "encode (Simple s) = respSimpleString s"
| "encode (Failure s) = ''-'' @ s @ CRLF"
| "encode (Integer n) = respInteger n"
| "encode (Bulk s) = respBulkString s"
| "encode Null = respNull"
| "encode (Array rs) = respEncodedArray (map encode rs)"

text \<open>Status and error lines must not hold a carriage return.\<close>

fun well_formed :: "Reply \<Rightarrow> bool" where
  "well_formed (Simple s) \<longleftrightarrow> CR \<notin> set s"
| "well_formed (Failure s) \<longleftrightarrow> CR \<notin> set s"
| "well_formed (Integer n) \<longleftrightarrow> True"
| "well_formed (Bulk s) \<longleftrightarrow> True"
| "well_formed Null \<longleftrightarrow> True"
| "well_formed (Array rs) \<longleftrightarrow> (\<forall>r \<in> set rs. well_formed r)"

lemma encode_nonempty: "0 < length (encode r)"
  by (cases r) (simp_all add: respSimpleString_def respInteger_def respBulkString_def respNull_def
      respEncodedArray_def)

text \<open>Lengths and counts in an encoding are bounded by the length of the encoding.\<close>

lemma in_llong_mono: "in_llong (int m) \<Longrightarrow> n \<le> m \<Longrightarrow> in_llong (int n)"
  by (simp add: in_llong_def LLONG_MIN_def)

lemma length_encode_Bulk: "length s \<le> length (encode (Bulk s))"
  by (simp add: respBulkString_def)

lemma length_encode_Array: "length rs \<le> length (encode (Array rs))"
proof -
  have "length rs \<le> length (concat (map encode rs))"
  proof (induction rs)
    case (Cons r rs)
    then show ?case using encode_nonempty [of r] by (simp, linarith)
  qed simp
  then show ?thesis by (simp add: respEncodedArray_def)
qed

lemma length_encode_member: "r \<in> set rs \<Longrightarrow> length (encode r) \<le> length (encode (Array rs))"
  by (auto simp: respEncodedArray_def in_set_conv_decomp)

text \<open>The layout of a terminal: one line per element, numbered, aligned, nested arrays indented.\<close>

definition row_label :: "nat \<Rightarrow> nat \<Rightarrow> nat \<Rightarrow> bytes" where
  "row_label indent width i =
     (if i > 1 then [LF] @ replicate indent (CHR '' '') else []) @
     replicate (width - length (to_string_nat i)) (CHR '' '') @ to_string_nat i @ '') ''"

fun render :: "bool \<Rightarrow> nat \<Rightarrow> Reply \<Rightarrow> bytes"
  and render_rows :: "bool \<Rightarrow> nat \<Rightarrow> nat \<Rightarrow> nat \<Rightarrow> Reply list \<Rightarrow> bytes" where
  "render raw indent (Simple s) = s"
| "render raw indent (Failure s) = ''(error) '' @ s"
| "render raw indent (Integer n) = ''(integer) '' @ to_string n"
| "render raw indent (Bulk s) = (if raw then s else quote s)"
| "render raw indent Null = ''(nil)''"
| "render raw indent (Array rs) =
     (if rs = [] then ''(empty array)''
      else render_rows raw indent (length (to_string_nat (length rs))) 1 rs)"
| "render_rows raw indent width i [] = []"
| "render_rows raw indent width i (r # rs) =
     row_label indent width i @ render raw (indent + width + 2) r @ render_rows raw indent width (Suc i) rs"

section \<open>Formatting is rendering\<close>

lemma to_string_int [simp]: "to_string (int n) = to_string_nat n"
  by (simp add: to_string_def)

lemma CR_notin_to_string [simp]: "CR \<notin> set (to_string n)"
  by (simp add: to_string_def)

lemma readLine_hit:
  assumes "CR \<notin> set line" "p = length pre"
  shows "readLine (pre @ line @ CRLF @ post) p = Some (line, p + length line + 2)"
proof -
  have "drop p (pre @ line @ CRLF @ post) = line @ CR # LF # post"
    using assms by (simp add: CRLF_def)
  with find_crlf_hit [OF assms(1), of post] show ?thesis
    by (simp add: readLine_def find_crlf_from_def)
qed

lemma readLine_value:
  assumes "CR \<notin> set line"
  shows "readLine (pre @ [c] @ line @ CRLF @ post) (length pre + 1) = Some (line, length pre + length line + 3)"
  using readLine_hit [OF assms, of "length pre + 1" "pre @ [c]" post] by simp

lemma format_line:
  assumes "CR \<notin> set line"
  shows "format_value (Suc fuel) raw (pre @ [c] @ line @ CRLF @ post) out (length pre) n =
     (let p1 = length pre + length line + 3 in
      if c = CHR ''+'' then Formatted True (out @ line) p1
      else if c = CHR ''-'' then Formatted True (out @ ''(error) '' @ line) p1
      else if c = CHR '':'' then Formatted True (out @ ''(integer) '' @ line) p1
      else if c = CHR ''$'' then
        (case stoll line of
           None \<Rightarrow> FormatThrows
         | Some len \<Rightarrow>
             if len < 0 then Formatted True (out @ ''(nil)'') p1
             else if nat len > length post - 2 \<or> length post < 2 then Formatted False out p1
             else Formatted True (out @ (if raw then take (nat len) post else quote (take (nat len) post)))
                    (p1 + nat len + 2))
      else if c = CHR ''*'' then
        (case stoll line of
           None \<Rightarrow> FormatThrows
         | Some count \<Rightarrow>
             if count < 0 then Formatted True (out @ ''(nil)'') p1
             else if count = 0 then Formatted True (out @ ''(empty array)'') p1
             else format_items fuel raw (pre @ [c] @ line @ CRLF @ post) 1 count (length (to_string count)) out p1 n)
      else Formatted False out p1)"
proof -
  let ?reply = "pre @ [c] @ line @ CRLF @ post"
  have "length pre < length ?reply" "?reply ! length pre = c" by simp_all
  then show ?thesis
    using readLine_value [OF assms, of pre c post]
    unfolding format_value.simps(2) Let_def
    by (auto simp: CRLF_def numeral_3_eq_3 split: option.split)
qed

text \<open>One row of an array, when the element itself is formatted as specified.\<close>

lemma format_items_done: "i > count \<Longrightarrow> format_items (Suc fuel) raw reply i count w out p n = Formatted True out p"
  by (simp add: format_items.simps(2))

lemma format_items_row:
  assumes "i \<le> k" "0 < i"
    and "format_value fuel raw reply (out @ row_label n w i) p (n + w + 2) = Formatted True o1 p1"
  shows "format_items (Suc fuel) raw reply (int i) (int k) w out p n =
    format_items fuel raw reply (int (Suc i)) (int k) w o1 p1 n"
proof -
  have "(if int i > 1 then out @ [LF] @ replicate n (CHR '' '') else out) @
      replicate (w - length (to_string (int i))) (CHR '' '') @ to_string (int i) @ '') '' = out @ row_label n w i"
    by (simp add: row_label_def)
  with assms show ?thesis
    unfolding format_items.simps(2) Let_def by (simp add: add.commute)
qed

lemma format_rows:
  assumes "\<And>r pre post out n fuel. r \<in> set rs \<Longrightarrow>
      format_value fuel raw (pre @ encode r @ post) out (length pre) n \<noteq> OutOfSteps \<Longrightarrow>
      format_value fuel raw (pre @ encode r @ post) out (length pre) n =
        Formatted True (out @ render raw n r) (length pre + length (encode r))"
    and "0 < i" "i + length rs = Suc k"
    and "format_items fuel raw (pre @ concat (map encode rs) @ post) (int i) (int k) w out (length pre) n \<noteq> OutOfSteps"
  shows "format_items fuel raw (pre @ concat (map encode rs) @ post) (int i) (int k) w out (length pre) n =
    Formatted True (out @ render_rows raw n w i rs) (length pre + length (concat (map encode rs)))"
  using assms
proof (induction rs arbitrary: i pre out fuel)
  case Nil
  then show ?case by (cases fuel) (simp_all add: format_items_done)
next
  case (Cons r rs)
  from Cons.prems(4) obtain m where fuel: "fuel = Suc m" by (cases fuel) auto
  let ?reply = "pre @ encode r @ concat (map encode rs) @ post"
  let ?row = "format_value m raw ?reply (out @ row_label n w i) (length pre) (n + w + 2)"
  have i: "i \<le> k" "0 < i" using Cons.prems(2,3) by simp_all
  have "?row \<noteq> OutOfSteps"
    using Cons.prems(4) i unfolding fuel format_items.simps(2) Let_def
    by (auto simp: row_label_def)
  then have "?row = Formatted True ((out @ row_label n w i) @ render raw (n + w + 2) r) (length pre + length (encode r))"
    by (intro Cons.prems(1)) simp
  note row = format_items_row [OF i this]
  show ?case
    using Cons.IH [where i = "Suc i" and pre = "pre @ encode r" and fuel = m
        and out = "(out @ row_label n w i) @ render raw (n + w + 2) r"]
      Cons.prems(1,3,4) row
    by (simp add: fuel)
qed

lemma format_value_render:
  assumes "well_formed r" "in_llong (int (length (encode r)))"
    "format_value fuel raw (pre @ encode r @ post) out (length pre) n \<noteq> OutOfSteps"
  shows "format_value fuel raw (pre @ encode r @ post) out (length pre) n =
    Formatted True (out @ render raw n r) (length pre + length (encode r))"
  using assms
proof (induction r arbitrary: fuel pre post out n)
  case (Simple s)
  then show ?case
    using format_line [of s _ raw pre "CHR ''+''" post out n] by (cases fuel) (auto simp: respSimpleString_def Let_def CRLF_def)
next
  case (Failure s)
  then show ?case
    using format_line [of s _ raw pre "CHR ''-''" post out n] by (cases fuel) (auto simp: Let_def CRLF_def)
next
  case (Integer i)
  then show ?case
    using format_line [of "to_string i" _ raw pre "CHR '':''" post out n]
    by (cases fuel) (auto simp: respInteger_def Let_def CRLF_def)
next
  case (Bulk s)
  then have "in_llong (int (length s))" using in_llong_mono length_encode_Bulk by blast
  with Bulk show ?case
    using format_line [of "to_string_nat (length s)" _ raw pre "CHR ''$''" "s @ CRLF @ post" out n]
      stoll_to_string [of "int (length s)"]
    by (cases fuel) (auto simp: respBulkString_def Let_def CRLF_def)
next
  case Null
  have "stoll ''-1'' = Some (-1)" by code_simp
  then show ?case
    using Null format_line [of "''-1''" _ raw pre "CHR ''$''" post out n]
    by (cases fuel) (auto simp: respNull_def Let_def CRLF_def)
next
  case (Array rs)
  let ?head = "pre @ [CHR ''*''] @ to_string_nat (length rs) @ CRLF"
  from Array.prems(3) obtain m where fuel: "fuel = Suc m" by (cases fuel) auto
  have reply: "pre @ encode (Array rs) @ post = ?head @ concat (map encode rs) @ post"
    and head: "length ?head = length pre + length (to_string_nat (length rs)) + 3"
    by (simp_all add: respEncodedArray_def CRLF_def)
  have first: "format_value fuel raw (pre @ encode (Array rs) @ post) out (length pre) n =
     (if rs = [] then Formatted True (out @ ''(empty array)'') (length ?head)
      else format_items m raw (?head @ concat (map encode rs) @ post) 1 (int (length rs))
             (length (to_string_nat (length rs))) out (length ?head) n)"
    using format_line [of "to_string_nat (length rs)" m raw pre "CHR ''*''" "concat (map encode rs) @ post" out n]
      stoll_to_string [of "int (length rs)"] in_llong_mono [OF Array.prems(2) length_encode_Array]
    unfolding reply fuel head by (simp add: Let_def)
  show ?case
  proof (cases "rs = []")
    case True
    then show ?thesis unfolding first by (simp add: respEncodedArray_def CRLF_def)
  next
    case False
    have IH: "format_value fu raw (pr @ encode r @ po) ou (length pr) n' =
        Formatted True (ou @ render raw n' r) (length pr + length (encode r))"
      if "r \<in> set rs" "format_value fu raw (pr @ encode r @ po) ou (length pr) n' \<noteq> OutOfSteps" for r pr po ou n' fu
      using Array.IH [OF that(1) _ _ that(2)] Array.prems(1) that(1)
        in_llong_mono [OF Array.prems(2) length_encode_member [OF that(1)]] by simp
    have "format_items m raw (?head @ concat (map encode rs) @ post) (int 1) (int (length rs))
        (length (to_string_nat (length rs))) out (length ?head) n =
      Formatted True (out @ render_rows raw n (length (to_string_nat (length rs))) 1 rs)
        (length ?head + length (concat (map encode rs)))"
    proof (rule format_rows)
      show "format_items m raw (?head @ concat (map encode rs) @ post) (int 1) (int (length rs))
          (length (to_string_nat (length rs))) out (length ?head) n \<noteq> OutOfSteps"
        using Array.prems(3) False unfolding first by simp
    qed (use IH in auto)
    with False show ?thesis unfolding first by (simp add: respEncodedArray_def CRLF_def)
  qed
qed

lemma formatReply_render:
  assumes "well_formed r" "in_llong (int (length (encode r)))"
  shows "formatReply (encode r @ rest) raw = render raw 0 r"
proof -
  have "format_value (format_fuel (encode r @ rest)) raw (encode r @ rest) [] 0 0 \<noteq> OutOfSteps"
    using format_enough [of "encode r @ rest" 0] by (simp add: format_fuel_def)
  with format_value_render [OF assms, of "format_fuel (encode r @ rest)" raw "[]" rest "[]" 0] show ?thesis
    by (simp add: formatReply_def)
qed

section \<open>Quoting and the tokenizer\<close>

lemma hexValue_hex_digit: "d < 16 \<Longrightarrow> hexValue (hex_digit d) = int d"
  by (auto simp: hexValue_def hex_digit_def)

lemma hex_digits:
  "hexValue (hex_digit (byte c div 16)) = int (byte c div 16)"
  "hexValue (hex_digit (byte c mod 16)) = int (byte c mod 16)"
  "char_of (nat (int (byte c div 16) * 16 + int (byte c mod 16))) = c"
proof -
  have "byte c div 16 < 16" using byte_less [of c] by linarith
  then show "hexValue (hex_digit (byte c div 16)) = int (byte c div 16)"
    "hexValue (hex_digit (byte c mod 16)) = int (byte c mod 16)"
    by (simp_all add: hexValue_hex_digit)
  have "int (byte c div 16) * 16 + int (byte c mod 16) = int (byte c)" by presburger
  then show "char_of (nat (int (byte c div 16) * 16 + int (byte c mod 16))) = c"
    by (simp only: nat_int) (simp add: byte_def)
qed

lemma read_quoted_char:
  assumes "rest \<noteq> []"
  shows "read_argument True False cur (quote_char c @ rest) = read_argument True False (cur @ [c]) rest"
proof -
  have "read_escape (CHR ''x'' # hex_digit (byte c div 16) # hex_digit (byte c mod 16) # rest) = (c, rest)"
    by (simp add: hex_digits)
  moreover have "read_escape (e # rest) = (escape_char e, rest)" if "e \<noteq> CHR ''x''" for e
    using that by (auto split: list.split)
  ultimately show ?thesis
    using assms by (auto simp: quote_char_def escape_char_def byte_def)
qed

lemma read_quoted:
  assumes "rest = [] \<or> isSpace (hd rest)"
  shows "read_argument True False cur (concat (map quote_char v) @ DQUOTE # rest) = Some (cur @ v, rest)"
  using assms by (induction v arbitrary: cur) (auto simp: read_quoted_char)

lemma tokenize_quote:
  assumes "rest = [] \<or> isSpace (hd rest)"
  shows "tokenize_loop args (quote v @ rest) = tokenize_loop (args @ [v]) rest"
  using read_quoted [OF assms, of "[]" v]
  by (subst tokenize_loop.simps) (simp add: quote_def isSpace_def)

lemma tokenize_quoted_line:
  "tokenize_loop args (concat (map (\<lambda>v. '' '' @ quote v) vs)) = Some (args @ vs)"
proof (induction vs arbitrary: args)
  case Nil
  then show ?case by (subst tokenize_loop.simps) simp
next
  case (Cons v vs)
  let ?rest = "concat (map (\<lambda>v. '' '' @ quote v) vs)"
  have "?rest = [] \<or> isSpace (hd ?rest)" by (cases vs) (simp_all add: isSpace_def)
  moreover have "tokenize_loop args ('' '' @ s) = tokenize_loop args s" for s
    by (subst (1 2) tokenize_loop.simps) (simp add: isSpace_def)
  ultimately show ?case using Cons.IH by (simp add: tokenize_quote)
qed

end
