(* ===== verification/FKV_Replies.thy ===== *)
theory FKV_Replies
  imports FKV_Format FKV_Commands_Inv
begin

text \<open>
  Every reply of the command layer is a value of the protocol: the payload that \<open>execute\<close> returns is
  the encoding of one \<open>Reply\<close>, for every command of the table and on every path, provided no argument
  holds a carriage return (two error messages quote an argument as it came). So a client that reads
  one value per command stays in step, and the formatter never meets a protocol error.
\<close>

section \<open>Replies\<close>

definition is_reply :: "bytes \<Rightarrow> bool" where
  "is_reply s \<longleftrightarrow> (\<exists>r. well_formed r \<and> s = encode r)"

lemma is_replyI: "well_formed r \<Longrightarrow> encode r = s \<Longrightarrow> is_reply s"
  by (auto simp: is_reply_def)

lemma reply_simple [well_formed_replies]: "CR \<notin> set s \<Longrightarrow> is_reply (respSimpleString s)"
  by (rule is_replyI [of "Simple s"]) simp_all

lemma reply_error [well_formed_replies]: "CR \<notin> set s \<Longrightarrow> is_reply (respError s)"
  by (rule is_replyI [of "Failure (''ERR '' @ s)"]) (simp_all add: respError_def)

lemma reply_error_code [well_formed_replies]:
  "CR \<notin> set c \<Longrightarrow> CR \<notin> set s \<Longrightarrow> is_reply (respErrorWithCode c s)"
  by (rule is_replyI [of "Failure (c @ '' '' @ s)"]) (simp_all add: respErrorWithCode_def)

lemma reply_integer [well_formed_replies]: "is_reply (respInteger n)"
  by (rule is_replyI [of "Integer n"]) simp_all

lemma reply_bulk [well_formed_replies]: "is_reply (respBulkString s)"
  by (rule is_replyI [of "Bulk s"]) simp_all

lemma reply_null [well_formed_replies]: "is_reply respNull"
  by (rule is_replyI [of Null]) simp_all

lemma reply_encoded_array [well_formed_replies]:
  assumes "\<forall>s \<in> set ss. is_reply s"
  shows "is_reply (respEncodedArray ss)"
proof -
  from assms obtain f where f: "\<forall>s \<in> set ss. well_formed (f s) \<and> s = encode (f s)"
    unfolding is_reply_def by metis
  then have "map encode (map f ss) = ss" by (simp add: map_idI)
  with f show ?thesis by (intro is_replyI [of "Array (map f ss)"]) (simp_all del: map_map)
qed

lemma reply_array [well_formed_replies]: "is_reply (respArray ss)"
proof -
  have "respArray ss = respEncodedArray (map respBulkString ss)"
    by (simp add: respArray_def respEncodedArray_def)
  then show ?thesis using reply_encoded_array [of "map respBulkString ss"] reply_bulk by auto
qed

lemma reply_nullable [well_formed_replies]: "is_reply (nullableBulk v)"
  by (simp add: nullableBulk_def reply_bulk reply_null split: option.split)

lemma reply_not_integer [well_formed_replies]: "is_reply notAnInteger"
  by (simp add: notAnInteger_def reply_error)

lemma reply_syntax_error [well_formed_replies]: "is_reply syntaxError"
  by (simp add: syntaxError_def reply_error)

section \<open>Handlers\<close>

abbreviation clean :: "bytes list \<Rightarrow> bool" where
  "clean args \<equiv> \<forall>a \<in> set args. CR \<notin> set a"

definition replies :: "handler \<Rightarrow> bool" where
  "replies h \<longleftrightarrow> (\<forall>args p s p'. args \<noteq> [] \<longrightarrow> clean args \<longrightarrow> h args p = (Inr s, p') \<longrightarrow> is_reply s)"

lemma repliesI:
  "(\<And>args p s p'. args \<noteq> [] \<Longrightarrow> clean args \<Longrightarrow> h args p = (Inr s, p') \<Longrightarrow> is_reply s) \<Longrightarrow> replies h"
  by (auto simp: replies_def)

lemma and_then_Inr:
  "and_then rp f = (Inr s, p') \<longleftrightarrow> (\<exists>x p1. rp = (Inr x, p1) \<and> f x p1 = (Inr s, p'))"
  by (auto simp: and_then_def split: prod.splits sum.splits)

lemma CR_lowercase [simp]: "CR \<in> set (lowercase s) \<longleftrightarrow> CR \<in> set s"
proof -
  have "to_lower c = CR \<longleftrightarrow> c = CR" for c
  proof -
    have "byte (to_lower c) = (if 65 \<le> byte c \<and> byte c \<le> 90 then byte c + 32 else byte c)"
      by (simp add: to_lower_def)
    moreover have "byte CR = 13" by (simp add: byte_def)
    ultimately show ?thesis unfolding byte_inject [symmetric] by auto
  qed
  then show ?thesis unfolding lowercase_def set_map by (metis imageE imageI)
qed

lemmas connection_defs = cmd_ping_def cmd_echo_def cmd_select_def cmd_commandInfo_def cmd_dbsize_def
  cmd_flushall_def cmd_info_def cmd_memory_def

lemma connection_replies:
  "replies cmd_ping" "replies cmd_echo" "replies cmd_select" "replies cmd_commandInfo" "replies cmd_dbsize"
  "replies cmd_flushall" "replies cmd_info" "replies cmd_memory"
  by (auto simp: connection_defs Let_def intro!: repliesI well_formed_replies
      split: if_splits prod.splits option.splits)

lemma config_replies: "replies cmd_config"
proof (rule repliesI)
  fix args p s p'
  assume "clean args" and s: "cmd_config args p = (Inr s, p')"
  then have "CR \<notin> set (args ! 2)" if "length args = 4"
    using that by (simp add: nth_mem)
  then have bad: "is_reply (respError (''Unsupported CONFIG parameter: '' @ args ! 2))" if "length args = 4"
    using that by (intro reply_error) simp
  from s bad show "is_reply s"
    by (simp only: cmd_config_def Let_def and_then_Inr split: if_split_asm option.split_asm)
      (auto simp: well_formed_replies)
qed

lemma expireGeneric_reply:
  assumes "args \<noteq> []" "clean args" "expireGeneric args u a p = (Inr s, p')"
  shows "is_reply s"
proof -
  have "CR \<notin> set (args ! 0)" using assms(1,2) by (simp add: nth_mem)
  then show ?thesis
    using assms(3)
    by (auto simp: expireGeneric_def Let_def intro!: well_formed_replies
        split: if_splits option.splits prod.splits)
qed

lemma CR_valueTypeName: "CR \<notin> set (valueTypeName t)"
  by (cases t) (simp_all add: valueTypeName_def)

lemmas keyspace_defs = cmd_del_def cmd_exists_def cmd_type_def cmd_keys_def cmd_ttl_def cmd_pttl_def cmd_persist_def

lemma keyspace_replies:
  "replies cmd_del" "replies cmd_exists" "replies cmd_type" "replies cmd_keys" "replies cmd_ttl"
  "replies cmd_pttl" "replies cmd_persist"
  by (auto simp: keyspace_defs Let_def CR_valueTypeName intro!: repliesI well_formed_replies
      split: if_splits prod.splits option.splits)

lemma expire_replies:
  "replies cmd_expire" "replies cmd_pexpire" "replies cmd_expireat" "replies cmd_pexpireat"
  by (auto simp: cmd_expire_def cmd_pexpire_def cmd_expireat_def cmd_pexpireat_def
      intro!: repliesI expireGeneric_reply)

lemma set_options_reply: "set_options as opts p = (Inl s, p') \<Longrightarrow> is_reply s"
proof (induction as arbitrary: opts p rule: length_induct)
  case (1 as)
  then have IH: "set_options ys o1 q = (Inl s, p') \<Longrightarrow> length ys < length as \<Longrightarrow> is_reply s" for ys o1 q
    by blast
  show ?case
  proof (cases as)
    case (Cons a rest)
    from "1.prems" show ?thesis
      unfolding Cons set_options.simps(2) Let_def
      by (simp only: split: if_split_asm list.split_asm option.split_asm prod.split_asm)
        (auto simp del: set_options.simps simp: well_formed_replies Cons dest!: IH)
  qed (use "1.prems" in simp)
qed

lemma mget_loop_replies:
  "mget_loop ks vs db = (Inr ss, db') \<Longrightarrow> \<forall>s \<in> set vs. is_reply s \<Longrightarrow> s \<in> set ss \<Longrightarrow> is_reply s"
  by (induction ks vs db rule: mget_loop.induct)
    (auto simp: reply_null reply_nullable split: prod.splits sum.splits if_splits)

lemma mget_reply: "mget_loop ks [] db = (Inr ss, db') \<Longrightarrow> s \<in> set ss \<Longrightarrow> is_reply s"
  using mget_loop_replies [of ks "[]" db ss db' s] by simp

lemma set_mget_replies: "replies cmd_set" "replies cmd_mget"
  by (auto simp: cmd_set_def cmd_mget_def Let_def and_then_Inr db_call_def
      intro!: repliesI well_formed_replies
      dest: set_options_reply elim: mget_reply split: if_splits prod.splits sum.splits)

lemmas string_defs = cmd_get_def cmd_mset_def cmd_incr_def cmd_decr_def cmd_incrby_def cmd_decrby_def
  cmd_append_def cmd_strlen_def

lemma string_replies:
  "replies cmd_get" "replies cmd_mset" "replies cmd_incr" "replies cmd_decr" "replies cmd_incrby"
  "replies cmd_decrby" "replies cmd_append" "replies cmd_strlen"
  by (auto simp: string_defs Let_def and_then_Inr intro!: repliesI well_formed_replies
      split: if_splits option.splits)

lemmas collection_defs = cmd_lpush_def cmd_rpush_def cmd_lpop_def cmd_rpop_def cmd_lrange_def cmd_llen_def
  cmd_lindex_def cmd_hset_def cmd_hget_def cmd_hdel_def cmd_hgetall_def cmd_hlen_def cmd_hexists_def
  cmd_hkeys_def cmd_hvals_def cmd_sadd_def cmd_srem_def cmd_smembers_def cmd_sismember_def cmd_scard_def

lemma list_replies:
  "replies cmd_lpush" "replies cmd_rpush" "replies cmd_lpop" "replies cmd_rpop" "replies cmd_lrange"
  "replies cmd_llen" "replies cmd_lindex"
  by (auto simp: collection_defs and_then_Inr intro!: repliesI well_formed_replies split: option.splits)

lemma hash_replies:
  "replies cmd_hset" "replies cmd_hget" "replies cmd_hdel" "replies cmd_hgetall" "replies cmd_hlen"
  "replies cmd_hexists" "replies cmd_hkeys" "replies cmd_hvals"
  by (auto simp: collection_defs and_then_Inr intro!: repliesI well_formed_replies split: if_splits)

lemma set_replies:
  "replies cmd_sadd" "replies cmd_srem" "replies cmd_smembers" "replies cmd_sismember" "replies cmd_scard"
  by (auto simp: collection_defs and_then_Inr intro!: repliesI well_formed_replies)

lemmas handler_replies = connection_replies config_replies keyspace_replies expire_replies set_mget_replies
  string_replies list_replies hash_replies set_replies

section \<open>The dispatcher\<close>

lemma table_replies: "(name, spec) \<in> set commandTable \<Longrightarrow> replies (spec_handler spec)"
  by (auto simp: commandTable_def command_spec_def handler_replies)

lemma table_names_clean: "(name, spec) \<in> set commandTable \<Longrightarrow> CR \<notin> set name"
  by (auto simp: commandTable_def)

lemma catch_is_reply:
  "catch_reply r = Inr reply \<Longrightarrow> (\<And>s. r = Inr s \<Longrightarrow> is_reply s) \<Longrightarrow> is_reply (payload reply)"
  by (auto simp: catch_reply_def reply_of_def reply_error reply_error_code split: sum.splits exn.splits)

lemma call_handler_reply:
  assumes "replies (spec_handler spec)" "args \<noteq> []" "clean args" "call_handler spec args p = (Inr reply, p')"
  shows "is_reply (payload reply)"
  using assms by (auto simp: call_handler_def replies_def Let_def split: prod.splits elim!: catch_is_reply)

lemma execute_is_reply:
  assumes "clean args" "execute args p = (Inr reply, p')"
  shows "is_reply (payload reply)"
proof (cases "map_of commandTable (uppercase (args ! 0))")
  case None
  have "args \<noteq> [] \<Longrightarrow> CR \<notin> set (args ! 0)" using assms(1) by (simp add: nth_mem)
  with None assms(2) show ?thesis
    by (auto simp: execute_def Let_def reply_of_def intro!: well_formed_replies split: if_splits)
next
  case (Some spec)
  then have mem: "(uppercase (args ! 0), spec) \<in> set commandTable" by (rule map_of_SomeD)
  note r = table_replies [OF mem] and c = table_names_clean [OF mem]
  have w: "is_reply (payload reply)" if "args \<noteq> []" "run_write spec args q = (Inr reply, p')" for q
    using that call_handler_reply [OF r that(1) assms(1)]
    by (auto simp: run_write_def and_then_Inr reply_of_def intro!: well_formed_replies split: if_splits)
  show ?thesis
    using assms(2) Some w c call_handler_reply [OF r _ assms(1)]
    by (auto simp: execute_def Let_def reply_of_def intro!: well_formed_replies split: if_splits)
qed

end
