(* ===== verification/FKV_Benchmark.thy ===== *)
theory FKV_Benchmark
  imports FKV_Replies FKV_Log_Limits
begin

text \<open>
  The load generator, \<open>src/benchmarks/benchmark.cpp\<close>: its options, the commands it sends, how it finds
  the ends of replies in what it received, and one batch of a connection. Sending and receiving
  return what the environment chooses.

  The lemmas say that accepted options are in range, that every command it builds is one request of
  the protocol, that a reply is found exactly when it has arrived completely, and that a batch reads
  exactly its replies however they are cut into chunks. The reader is an instance of the locale
  \<open>framing\<close>, as the parser of the log is.
\<close>

section \<open>Options\<close>

record Options =
  host :: bytes
  bench_port :: int
  bench_clients :: int
  requests :: int
  pipeline :: int
  dataSize :: nat
  keyspace :: int
  tests :: "bytes list"
  csv :: bool

definition default_options :: Options where
  "default_options = \<lparr>host = ''127.0.0.1'', bench_port = 6379, bench_clients = 50, requests = 100000,
     pipeline = 1, dataSize = 16, keyspace = 100000,
     tests = [''PING'', ''SET'', ''GET'', ''INCR'', ''LPUSH'', ''HSET''], csv = False\<rparr>"

text \<open>\<open>std::stoul\<close>: the value must fit 64 bits before a minus sign negates it modulo \<open>2\<^sup>6\<^sup>4\<close>.\<close>

definition stoul :: "bytes \<Rightarrow> nat option" where
  "stoul s =
     (case strtol s of
        None \<Rightarrow> None
      | Some n \<Rightarrow> if \<bar>n\<bar> < 2 ^ 64 then Some (nat (n mod 2 ^ 64)) else None)"

text \<open>\<open>getline\<close> with a comma: a trailing comma does not start another item.\<close>

fun split_commas :: "bytes \<Rightarrow> bytes \<Rightarrow> bytes list" where
  "split_commas [] item = (if item = [] then [] else [item])"
| "split_commas (c # s) item = (if c = CHR '','' then item # split_commas s [] else split_commas s (item @ [c]))"

text \<open>The options, the help exit, a rejected option, or an exception that ends the program.\<close>

datatype bench_args = BenchOptions Options | BenchHelp | BenchRejected | BenchThrows

definition bench_option :: "bytes \<Rightarrow> bytes \<Rightarrow> Options \<Rightarrow> bench_args" where
  "bench_option flag v opts =
     (let number = (\<lambda>r f. case r of None \<Rightarrow> BenchThrows | Some n \<Rightarrow> BenchOptions (f n)) in
      if flag = ''-h'' then BenchOptions (opts\<lparr>host := v\<rparr>)
      else if flag = ''-p'' then number (stoi v) (\<lambda>n. opts\<lparr>bench_port := n\<rparr>)
      else if flag = ''-c'' then number (stoi v) (\<lambda>n. opts\<lparr>bench_clients := max 1 n\<rparr>)
      else if flag = ''-n'' then number (stoll v) (\<lambda>n. opts\<lparr>requests := max 1 n\<rparr>)
      else if flag = ''-P'' then number (stoi v) (\<lambda>n. opts\<lparr>pipeline := max 1 n\<rparr>)
      else if flag = ''-d'' then
        (case stoul v of None \<Rightarrow> BenchThrows | Some n \<Rightarrow> BenchOptions (opts\<lparr>dataSize := n\<rparr>))
      else if flag = ''-r'' then number (stoll v) (\<lambda>n. opts\<lparr>keyspace := max 1 n\<rparr>)
      else if flag = ''-t'' then BenchOptions (opts\<lparr>tests := map uppercase (split_commas v [])\<rparr>)
      else BenchRejected)"

fun parseOptions :: "bytes list \<Rightarrow> Options \<Rightarrow> bench_args" where
  "parseOptions [] opts = BenchOptions opts"
| "parseOptions (flag # rest) opts =
     (if flag = ''--help'' then BenchHelp
      else if flag = ''--csv'' then parseOptions rest (opts\<lparr>csv := True\<rparr>)
      else
        (case rest of
           [] \<Rightarrow> BenchRejected
         | v # rest' \<Rightarrow>
             (case bench_option flag v opts of
                BenchOptions opts1 \<Rightarrow> parseOptions rest' opts1
              | other \<Rightarrow> other)))"

section \<open>Commands\<close>

text \<open>The argument vector of a test, or \<open>None\<close> for a test that does not exist.\<close>

definition bench_arguments :: "bytes \<Rightarrow> int \<Rightarrow> bytes \<Rightarrow> bytes list option" where
  "bench_arguments test key v =
     (let name = ''key:'' @ to_string key in
      if test = ''PING'' then Some [''PING'']
      else if test = ''SET'' then Some [''SET'', name, v]
      else if test = ''GET'' then Some [''GET'', name]
      else if test = ''INCR'' then Some [''INCR'', ''counter:'' @ to_string key]
      else if test = ''LPUSH'' then Some [''LPUSH'', ''list:'' @ to_string (key mod 100), v]
      else if test = ''HSET''
      then Some [''HSET'', ''hash:'' @ to_string (key mod 100), ''field:'' @ to_string key, v]
      else None)"

definition buildCommand :: "bytes \<Rightarrow> int \<Rightarrow> bytes \<Rightarrow> bytes" where
  "buildCommand test key v = (case bench_arguments test key v of None \<Rightarrow> [] | Some args \<Rightarrow> respArray args)"

section \<open>Finding replies\<close>

text \<open>
  The length of a complete reply, 0 when there is none yet; the exception of \<open>std::stoll\<close> or of an
  unexpected type; or no result because the step counter ran out.
\<close>

datatype length_result = ReplyLength nat | LengthThrows | LengthSteps

fun reply_length :: "nat \<Rightarrow> bytes \<Rightarrow> nat \<Rightarrow> length_result"
  and element_lengths :: "nat \<Rightarrow> bytes \<Rightarrow> nat \<Rightarrow> nat \<Rightarrow> int \<Rightarrow> length_result" where
  "reply_length 0 buf position = LengthSteps"
| "reply_length (Suc fuel) buf position =
     (if position \<ge> length buf then ReplyLength 0
      else
        (case find_crlf_from buf position of
           None \<Rightarrow> ReplyLength 0
         | Some lineEnd \<Rightarrow>
             (let ty = buf ! position; headerLength = lineEnd + 2 - position in
              if ty = CHR ''+'' \<or> ty = CHR ''-'' \<or> ty = CHR '':'' then ReplyLength headerLength
              else
                (case stoll (take (lineEnd - position - 1) (drop (position + 1) buf)) of
                   None \<Rightarrow> LengthThrows
                 | Some num \<Rightarrow>
                     if ty = CHR ''$'' then
                       (if num < 0 then ReplyLength headerLength
                        else
                          (let size1 = headerLength + nat num + 2
                           in ReplyLength (if position + size1 \<le> length buf then size1 else 0)))
                     else if ty = CHR ''*'' then element_lengths fuel buf position headerLength num
                     else LengthThrows))))"
| "element_lengths 0 buf position size1 left = LengthSteps"
| "element_lengths (Suc fuel) buf position size1 left =
     (if left \<le> 0 then ReplyLength size1
      else
        (case reply_length fuel buf (position + size1) of
           ReplyLength element \<Rightarrow>
             if element = 0 then ReplyLength 0
             else element_lengths fuel buf position (size1 + element) (left - 1)
         | other \<Rightarrow> other))"

declare reply_length.simps(2) [simp del] element_lengths.simps(2) [simp del]

definition completeReplyLength :: "bytes \<Rightarrow> nat \<Rightarrow> length_result" where
  "completeReplyLength buf position = reply_length (2 * length buf + 2) buf position"

section \<open>A connection\<close>

definition CHUNK_SIZE :: nat where "CHUNK_SIZE = 64 * 1024"

text \<open>
  The loop that sends a request: \<open>results i\<close> is what the \<open>i\<close>-th call of \<open>send\<close> returns; it never takes more than
  it is given. The result is whether all was sent, and \<open>wire\<close>, the bytes that left.
\<close>

function send_request :: "(nat \<Rightarrow> int) \<Rightarrow> nat \<Rightarrow> nat \<Rightarrow> bytes \<Rightarrow> bytes \<Rightarrow> bool \<times> bytes" where
  "send_request results i sent wire request =
     (if sent < length request then
        (if results i \<le> 0 then (False, wire)
         else
           (let written = min (nat (results i)) (length request - sent)
            in send_request results (Suc i) (sent + written) (wire @ take written (drop sent request)) request))
      else (True, wire))"
  by pat_completeness auto
termination by (relation "measure (\<lambda>(_, _, sent, _, request). length request - sent)") auto

declare send_request.simps [simp del]

text \<open>
  The loop that reads the replies of a batch: \<open>chunks\<close> are the results of \<open>recv\<close>, an empty chunk or
  the end of the list a closed or failed connection. At the end, what is left of the input and of
  the chunks.
\<close>

datatype batch_result = BatchDone bytes "bytes list" | BatchFailed | BatchThrows

function read_replies :: "nat \<Rightarrow> bytes \<Rightarrow> nat \<Rightarrow> bytes list \<Rightarrow> batch_result" where
  "read_replies left inp position chunks =
     (if left = 0 then BatchDone (drop position inp) chunks
      else
        (case completeReplyLength inp position of
           ReplyLength n \<Rightarrow>
             if n > 0 then read_replies (left - 1) inp (position + n) chunks
             else
               (case chunks of
                  [] \<Rightarrow> BatchFailed
                | c # cs \<Rightarrow>
                    if c = [] then BatchFailed else read_replies left (inp @ take CHUNK_SIZE c) position cs)
         | _ \<Rightarrow> BatchThrows))"
  by pat_completeness auto
termination by (relation "measure (\<lambda>(left, _, _, chunks). left + length chunks)") auto

declare read_replies.simps [simp del]

text \<open>One iteration of \<open>runClient\<close> after the claim: \<open>batch\<close> commands with the drawn keys are sent, and
  their replies read. The result is what was put on the wire and how the batch ended.\<close>

definition run_batch :: "Options \<Rightarrow> bytes \<Rightarrow> int list \<Rightarrow> (nat \<Rightarrow> int) \<Rightarrow> bytes \<Rightarrow> bytes list \<Rightarrow> bytes \<times> batch_result" where
  "run_batch opts test drawn results inp chunks =
     (let request = concat (map (\<lambda>key. buildCommand test key (replicate (dataSize opts) (CHR ''x''))) drawn)
      in case send_request results 0 0 [] request of
           (ok, wire) \<Rightarrow> (wire, if ok then read_replies (length drawn) inp 0 chunks else BatchFailed))"

section \<open>Options and commands\<close>

definition options_ok :: "Options \<Rightarrow> bool" where
  "options_ok opts \<longleftrightarrow> 1 \<le> bench_clients opts \<and> bench_clients opts < 2 ^ 31 \<and> 1 \<le> requests opts \<and> in_llong (requests opts) \<and>
     1 \<le> pipeline opts \<and> pipeline opts < 2 ^ 31 \<and> 1 \<le> keyspace opts"

lemma default_options_ok: "options_ok default_options"
  by (simp add: options_ok_def default_options_def in_llong_def LLONG_MIN_def LLONG_MAX_def)

lemma stoi_range: "stoi s = Some n \<Longrightarrow> n < 2 ^ 31"
  by (auto simp: stoi_def split: option.splits if_splits)

lemma stoll_range: "stoll s = Some n \<Longrightarrow> in_llong (max 1 n)"
  by (auto simp: stoll_def in_llong_def LLONG_MIN_def LLONG_MAX_def max_def split: option.splits if_splits)

lemma bench_option_ok: "bench_option flag v opts = BenchOptions opts' \<Longrightarrow> options_ok opts \<Longrightarrow> options_ok opts'"
  by (auto simp: bench_option_def options_ok_def Let_def dest: stoi_range stoll_range split: if_splits option.splits)

lemma parseOptions_ok: "parseOptions argv opts = BenchOptions opts' \<Longrightarrow> options_ok opts \<Longrightarrow> options_ok opts'"
proof (induction argv opts rule: parseOptions.induct)
  case (2 flag rest opts)
  show ?case
  proof (cases "flag = ''--help'' \<or> flag = ''--csv'' \<or> rest = []")
    case True
    with 2 show ?thesis by (auto simp: options_ok_def split: if_splits)
  next
    case False
    then obtain v rest' where r: "rest = v # rest'" by (cases rest) auto
    with False 2 show ?thesis using bench_option_ok [of flag v opts] by (cases "bench_option flag v opts") auto
  qed
qed simp

section \<open>A reply is found when it is there\<close>

text \<open>Only the bytes from the position on matter.\<close>

lemma find_crlf_from_shift: "k \<le> length buf \<Longrightarrow> find_crlf_from buf (k + p) = map_option ((+) k) (find_crlf_from (drop k buf) p)"
  by (cases "find_crlf (drop (k + p) buf)") (simp_all add: find_crlf_from_def add.commute [of p k])

lemma reply_length_shift:
  assumes "k \<le> length buf"
  shows "reply_length fuel buf (k + p) = reply_length fuel (drop k buf) p \<and>
    element_lengths fuel buf (k + p) n left = element_lengths fuel (drop k buf) p n left"
proof (induction fuel arbitrary: p n left)
  case (Suc fuel)
  have r: "reply_length fuel buf (k + p) = reply_length fuel (drop k buf) p"
    "element_lengths fuel buf (k + p) n left = element_lengths fuel (drop k buf) p n left" for p n left
    using Suc.IH by blast+
  have "reply_length (Suc fuel) buf (k + p) = reply_length (Suc fuel) (drop k buf) p"
  proof (cases "find_crlf_from (drop k buf) p")
    case None
    with assms show ?thesis by (auto simp: reply_length.simps(2) find_crlf_from_shift)
  next
    case (Some e)
    have "k + e + 2 - (k + p) = e + 2 - p" "k + e - (k + p) - 1 = e - p - 1" "k + p + 1 = p + 1 + k"
      "k + p + n \<le> length buf \<longleftrightarrow> p + n \<le> length (drop k buf)" "length buf \<le> k + p \<longleftrightarrow> length (drop k buf) \<le> p" for n
      using assms by auto
    with Some assms show ?thesis
      by (simp only: reply_length.simps(2) find_crlf_from_shift r option.map option.case Let_def nth_drop drop_drop)
  qed
  moreover have "element_lengths (Suc fuel) buf (k + p) n left = element_lengths (Suc fuel) (drop k buf) p n left"
    using r(1) [of "p + n"] by (simp add: element_lengths.simps(2) add.assoc r(2) split: length_result.split)
  ultimately show ?case by blast
qed simp

text \<open>Enough steps.\<close>

lemma reply_length_bound:
  "(reply_length fuel buf p = ReplyLength n \<longrightarrow> n \<noteq> 0 \<longrightarrow> 2 \<le> n \<and> p + n \<le> length buf) \<and>
   (element_lengths fuel buf p m left = ReplyLength n \<longrightarrow> n \<noteq> 0 \<longrightarrow> p + m \<le> length buf \<longrightarrow> m \<le> n \<and> p + n \<le> length buf)"
proof (induction fuel arbitrary: p m n left)
  case (Suc fuel)
  have v: "reply_length fuel buf p = ReplyLength n \<Longrightarrow> n \<noteq> 0 \<Longrightarrow> 2 \<le> n \<and> p + n \<le> length buf"
    and t: "element_lengths fuel buf p m left = ReplyLength n \<Longrightarrow> n \<noteq> 0 \<Longrightarrow> p + m \<le> length buf \<Longrightarrow> m \<le> n \<and> p + n \<le> length buf"
    for p n m left using Suc.IH by blast+
  have "2 \<le> n \<and> p + n \<le> length buf" if "reply_length (Suc fuel) buf p = ReplyLength n" "n \<noteq> 0"
  proof (cases "find_crlf_from buf p")
    case None
    with that show ?thesis by (simp add: reply_length.simps(2) split: if_splits)
  next
    case (Some e)
    then have e: "p \<le> e" "e + 2 \<le> length buf" using find_crlf_from_bound by blast+
    have "2 \<le> n \<and> p + n \<le> length buf" if "element_lengths fuel buf p (e + 2 - p) c = ReplyLength n" for c
      using t [OF that \<open>n \<noteq> 0\<close>] e by auto
    with that Some e show ?thesis
      by (auto simp: reply_length.simps(2) Let_def split: if_splits option.splits)
  qed
  moreover have "m \<le> n \<and> p + n \<le> length buf"
    if el: "element_lengths (Suc fuel) buf p m left = ReplyLength n" "n \<noteq> 0" "p + m \<le> length buf"
  proof (cases "left \<le> 0")
    case True
    with el show ?thesis by (simp add: element_lengths.simps(2))
  next
    case False
    then obtain k where k: "reply_length fuel buf (p + m) = ReplyLength k" "k \<noteq> 0"
      "element_lengths fuel buf p (m + k) (left - 1) = ReplyLength n"
      using el by (auto simp: element_lengths.simps(2) split: length_result.splits if_splits)
    with v [OF k(1,2)] t [OF k(3) el(2)] show ?thesis by simp
  qed
  ultimately show ?case by blast
qed simp

lemma reply_length_enough:
  "(2 * (length buf - p) + 1 \<le> fuel \<longrightarrow> reply_length fuel buf p \<noteq> LengthSteps) \<and>
   (2 * (length buf - (p + m)) + 2 \<le> fuel \<longrightarrow> 0 < m \<longrightarrow> p + m \<le> length buf \<longrightarrow> element_lengths fuel buf p m left \<noteq> LengthSteps)"
proof (induction fuel arbitrary: p m left)
  case (Suc fuel)
  have v: "2 * (length buf - p) + 1 \<le> fuel \<Longrightarrow> reply_length fuel buf p \<noteq> LengthSteps"
    and t: "2 * (length buf - (p + m)) + 2 \<le> fuel \<Longrightarrow> 0 < m \<Longrightarrow> p + m \<le> length buf \<Longrightarrow> element_lengths fuel buf p m left \<noteq> LengthSteps"
    for p m left using Suc.IH by blast+
  have "reply_length (Suc fuel) buf p \<noteq> LengthSteps" if "2 * (length buf - p) + 1 \<le> Suc fuel"
  proof (cases "find_crlf_from buf p")
    case None
    then show ?thesis by (simp add: reply_length.simps(2))
  next
    case (Some e)
    then have e: "p \<le> e" "e + 2 \<le> length buf" using find_crlf_from_bound by blast+
    then have "element_lengths fuel buf p (e + 2 - p) c \<noteq> LengthSteps" for c
      using that by (intro t) auto
    with Some show ?thesis by (auto simp: reply_length.simps(2) Let_def split: option.split)
  qed
  moreover have "element_lengths (Suc fuel) buf p m left \<noteq> LengthSteps"
    if "2 * (length buf - (p + m)) + 2 \<le> Suc fuel" "0 < m" "p + m \<le> length buf"
  proof -
    have "reply_length fuel buf (p + m) \<noteq> LengthSteps" using that by (intro v) simp
    moreover have "element_lengths fuel buf p (m + k) (left - 1) \<noteq> LengthSteps"
      if "reply_length fuel buf (p + m) = ReplyLength k" "k \<noteq> 0" for k
      using reply_length_bound [THEN conjunct1, rule_format, OF that] \<open>2 * _ + 2 \<le> Suc fuel\<close> \<open>0 < m\<close>
      by (intro t) auto
    ultimately show ?thesis by (auto simp: element_lengths.simps(2) split: length_result.split)
  qed
  ultimately show ?case by blast
qed simp

lemma strict_prefix_append_cases:
  assumes "strict_prefix s (a @ b)"
  shows "strict_prefix s a \<or> (\<exists>t. s = a @ t \<and> strict_prefix t b)"
proof (cases "prefix a s")
  case True
  with assms show ?thesis by (auto simp: strict_prefix_def prefix_def)
next
  case False
  with assms show ?thesis by (metis prefix_order.less_le prefix_order.order_refl prefix_prefix prefix_same_cases prefixI)
qed

lemma no_early_crlf:
  assumes "CR \<notin> set w" "strict_prefix s (w @ CRLF)"
  shows "find_crlf s = None"
proof (rule ccontr)
  assume "find_crlf s \<noteq> None"
  then obtain i where i: "find_crlf s = Some i" by blast
  obtain t where t: "w @ CRLF = s @ t" "t \<noteq> []" using assms(2) by (auto simp: strict_prefix_def prefix_def)
  have "find_crlf (w @ CRLF) = Some (length w)" using find_crlf_hit [OF assms(1), of "[]"] by (simp add: CRLF_def)
  moreover have "find_crlf (w @ CRLF) = Some i" using find_crlf_append [OF i, of t] t(1) by simp
  ultimately have "length w + 2 \<le> length s" using find_crlf_bound [OF i] by simp
  moreover have "length w + 2 = length s + length t" using arg_cong [OF t(1), of length] by (simp add: CRLF_def)
  ultimately show False using t(2) by simp
qed

text \<open>The first line of a reply decides; \<open>rest\<close> is what follows it.\<close>

lemma reply_length_line:
  assumes "CR \<notin> set line" "c \<noteq> CR"
  shows "reply_length (Suc fuel) ([c] @ line @ CRLF @ rest) 0 =
    (let header = length line + 3 in
     if c = CHR ''+'' \<or> c = CHR ''-'' \<or> c = CHR '':'' then ReplyLength header
     else
       (case stoll line of
          None \<Rightarrow> LengthThrows
        | Some num \<Rightarrow>
            if c = CHR ''$'' then
              (if num < 0 then ReplyLength header
               else ReplyLength (if nat num + 2 \<le> length rest then header + nat num + 2 else 0))
            else if c = CHR ''*'' then element_lengths fuel ([c] @ line @ CRLF @ rest) 0 header num
            else LengthThrows))"
proof -
  have "find_crlf_from ([c] @ line @ CRLF @ rest) 0 = Some (length line + 1)"
    using find_crlf_hit [of "c # line" rest] assms by (simp add: find_crlf_from_def CRLF_def)
  then show ?thesis
    by (simp add: reply_length.simps(2) Let_def CRLF_def eval_nat_numeral split: option.split)
qed

lemma reply_length_partial_line:
  assumes "CR \<notin> set line" "c \<noteq> CR" "strict_prefix s ([c] @ line @ CRLF)"
  shows "reply_length (Suc fuel) s 0 = ReplyLength 0"
  using no_early_crlf [of "c # line" s] assms by (simp add: reply_length.simps(2) find_crlf_from_def)

text \<open>What is proved of each reply, for any number of steps that is enough.\<close>

definition framed :: "Reply \<Rightarrow> bool" where
  "framed r \<longleftrightarrow> (\<forall>fuel rest. reply_length fuel (encode r @ rest) 0 \<noteq> LengthSteps \<longrightarrow>
       reply_length fuel (encode r @ rest) 0 = ReplyLength (length (encode r))) \<and>
     (\<forall>fuel s. strict_prefix s (encode r) \<longrightarrow> reply_length fuel s 0 \<noteq> LengthSteps \<longrightarrow> reply_length fuel s 0 = ReplyLength 0)"

lemma framed_line:
  assumes "encode r = [c] @ line @ CRLF" "CR \<notin> set line" "c \<noteq> CR"
    "\<And>fuel rest. reply_length (Suc fuel) ([c] @ line @ CRLF @ rest) 0 = ReplyLength (length line + 3)"
  shows "framed r"
  unfolding framed_def
proof (intro conjI allI impI)
  fix fuel rest
  assume "reply_length fuel (encode r @ rest) 0 \<noteq> LengthSteps"
  then show "reply_length fuel (encode r @ rest) 0 = ReplyLength (length (encode r))"
    using assms(1,4) by (cases fuel) (simp_all add: CRLF_def)
next
  fix fuel s
  assume "strict_prefix s (encode r)" "reply_length fuel s 0 \<noteq> LengthSteps"
  then show "reply_length fuel s 0 = ReplyLength 0"
    using reply_length_partial_line [OF assms(2,3)] assms(1) by (cases fuel) simp_all
qed

lemma framed_bulk:
  assumes "in_llong (int (length v))"
  shows "framed (Bulk v)"
  unfolding framed_def
proof (intro conjI allI impI)
  let ?len = "to_string_nat (length v)"
  have e: "encode (Bulk v) = [CHR ''$''] @ ?len @ CRLF @ v @ CRLF" by (simp add: respBulkString_def CRLF_def)
  have line: "reply_length (Suc fuel) ([CHR ''$''] @ ?len @ CRLF @ rest) 0 =
      ReplyLength (if length v + 2 \<le> length rest then length ?len + 3 + length v + 2 else 0)" for fuel rest
    using reply_length_line [of ?len "CHR ''$''" fuel rest] stoll_to_string [OF assms] by (simp add: Let_def)
  {
    fix fuel rest
    assume "reply_length fuel (encode (Bulk v) @ rest) 0 \<noteq> LengthSteps"
    then show "reply_length fuel (encode (Bulk v) @ rest) 0 = ReplyLength (length (encode (Bulk v)))"
      using line [of _ "v @ CRLF @ rest"] unfolding e by (cases fuel) (simp_all add: CRLF_def)
  next
    fix fuel s
    assume s: "strict_prefix s (encode (Bulk v))" "reply_length fuel s 0 \<noteq> LengthSteps"
    then obtain m where m: "fuel = Suc m" by (cases fuel) simp_all
    show "reply_length fuel s 0 = ReplyLength 0"
    proof (cases "strict_prefix s ([CHR ''$''] @ ?len @ CRLF)")
      case True
      then show ?thesis unfolding m by (intro reply_length_partial_line) simp_all
    next
      case False
      then obtain t where t: "s = ([CHR ''$''] @ ?len @ CRLF) @ t" "strict_prefix t (v @ CRLF)"
        using strict_prefix_append_cases [of s "[CHR ''$''] @ ?len @ CRLF" "v @ CRLF"] s(1) unfolding e by auto
      then have "length t < length v + 2" using prefix_length_less by (force simp: CRLF_def)
      then show ?thesis using line [of m t] unfolding m t(1) by simp
    qed
  }
qed

lemma framedD:
  assumes "framed r"
  shows "reply_length fuel (encode r @ rest) 0 \<noteq> LengthSteps \<Longrightarrow>
      reply_length fuel (encode r @ rest) 0 = ReplyLength (length (encode r))"
    and "strict_prefix s (encode r) \<Longrightarrow> reply_length fuel s 0 \<noteq> LengthSteps \<Longrightarrow> reply_length fuel s 0 = ReplyLength 0"
  using assms by (simp_all add: framed_def)

lemma element_step:
  assumes "n = length pre" "\<not> left \<le> 0"
  shows "element_lengths (Suc fuel) (pre @ s) 0 n left =
    (case reply_length fuel s 0 of
       ReplyLength k \<Rightarrow> if k = 0 then ReplyLength 0 else element_lengths fuel (pre @ s) 0 (n + k) (left - 1)
     | other \<Rightarrow> other)"
  using assms reply_length_shift [of n "pre @ s" fuel 0] by (simp add: element_lengths.simps(2) split: length_result.split)

lemma elements_whole:
  assumes "\<forall>r \<in> set rs. framed r" "n = length pre"
    "element_lengths fuel (pre @ concat (map encode rs) @ rest) 0 n (int (length rs)) \<noteq> LengthSteps"
  shows "element_lengths fuel (pre @ concat (map encode rs) @ rest) 0 n (int (length rs)) =
    ReplyLength (n + length (concat (map encode rs)))"
  using assms
proof (induction rs arbitrary: fuel pre n)
  case Nil
  then show ?case by (cases fuel) (simp_all add: element_lengths.simps(2))
next
  case (Cons r rs)
  then obtain m where m: "fuel = Suc m" by (cases fuel) simp_all
  let ?s = "encode r @ concat (map encode rs) @ rest"
  note step = element_step [OF Cons.prems(2), of "int (length (r # rs))" m ?s]
  have "reply_length m ?s 0 \<noteq> LengthSteps" using Cons.prems(3) step unfolding m by auto
  then have "reply_length m ?s 0 = ReplyLength (length (encode r))" using framedD(1) Cons.prems(1) by simp
  with step Cons.prems Cons.IH [where pre = "pre @ encode r" and n = "n + length (encode r)" and fuel = m]
    encode_nonempty [of r] show ?case
    unfolding m by simp
qed

lemma elements_cut:
  assumes "\<forall>r \<in> set rs. framed r" "n = length pre" "strict_prefix s (concat (map encode rs))"
    "element_lengths fuel (pre @ s) 0 n (int (length rs)) \<noteq> LengthSteps"
  shows "element_lengths fuel (pre @ s) 0 n (int (length rs)) = ReplyLength 0"
  using assms
proof (induction rs arbitrary: fuel pre n s)
  case (Cons r rs)
  then obtain m where m: "fuel = Suc m" by (cases fuel) simp_all
  note step = element_step [OF Cons.prems(2), of "int (length (r # rs))" m s]
  then have steps: "reply_length m s 0 \<noteq> LengthSteps" using Cons.prems(4) unfolding m by auto
  show ?case
  proof (cases "strict_prefix s (encode r)")
    case True
    then have "reply_length m s 0 = ReplyLength 0" using framedD(2) [of r s m] Cons.prems(1) steps by simp
    with step show ?thesis unfolding m by simp
  next
    case False
    then obtain t where t: "s = encode r @ t" "strict_prefix t (concat (map encode rs))"
      using strict_prefix_append_cases [of s "encode r"] Cons.prems(3) by auto
    have "reply_length m s 0 = ReplyLength (length (encode r))"
      using Cons.prems(1) steps framedD(1) [of r m t] unfolding t(1) by simp
    with step t Cons.prems Cons.IH [where pre = "pre @ encode r" and n = "n + length (encode r)" and s = t and fuel = m]
      encode_nonempty [of r] show ?thesis
      unfolding m by simp
  qed
qed simp

lemma framed_array:
  assumes "in_llong (int (length rs))" "\<forall>r \<in> set rs. framed r"
  shows "framed (Array rs)"
  unfolding framed_def
proof (intro conjI allI impI)
  let ?len = "to_string_nat (length rs)" and ?els = "concat (map encode rs)"
  let ?head = "[CHR ''*''] @ ?len @ CRLF"
  have e: "encode (Array rs) = ?head @ ?els" by (simp add: respEncodedArray_def CRLF_def)
  have line: "reply_length (Suc fuel) (?head @ rest) 0 = element_lengths fuel (?head @ rest) 0 (length ?head) (int (length rs))" for fuel rest
    using reply_length_line [of ?len "CHR ''*''" fuel rest] stoll_to_string [OF assms(1)]
    by (simp add: Let_def CRLF_def numeral_3_eq_3)
  {
    fix fuel rest
    assume "reply_length fuel (encode (Array rs) @ rest) 0 \<noteq> LengthSteps"
    then obtain m where m: "fuel = Suc m" "element_lengths m (?head @ ?els @ rest) 0 (length ?head) (int (length rs)) \<noteq> LengthSteps"
      using line [of _ "?els @ rest"] unfolding e append_assoc by (cases fuel) (simp_all only: reply_length.simps(1), blast+)
    have "reply_length fuel (encode (Array rs) @ rest) 0 = ReplyLength (length ?head + length ?els)"
      using line [of m "?els @ rest"] elements_whole [OF assms(2) refl m(2)] unfolding m(1) e append_assoc by (simp only:)
    then show "reply_length fuel (encode (Array rs) @ rest) 0 = ReplyLength (length (encode (Array rs)))"
      unfolding e by simp
  next
    fix fuel s
    assume s: "strict_prefix s (encode (Array rs))" "reply_length fuel s 0 \<noteq> LengthSteps"
    then obtain m where m: "fuel = Suc m" by (cases fuel) simp_all
    show "reply_length fuel s 0 = ReplyLength 0"
    proof (cases "strict_prefix s ?head")
      case True
      then show ?thesis unfolding m by (intro reply_length_partial_line) simp_all
    next
      case False
      then obtain t where t: "s = ?head @ t" "strict_prefix t ?els"
        using strict_prefix_append_cases [of s ?head ?els] s(1) unfolding e by auto
      then show ?thesis
        using line [of m t] elements_cut [OF assms(2), of "length ?head" ?head t m] s(2) unfolding m t(1) by simp
    qed
  }
qed

lemma framed_reply: "well_formed r \<Longrightarrow> in_llong (int (length (encode r))) \<Longrightarrow> framed r"
proof (induction r)
  case (Simple s)
  then show ?case
    by (intro framed_line [of _ "CHR ''+''" s]) (simp_all add: respSimpleString_def reply_length_line [simplified] Let_def)
next
  case (Failure s)
  then show ?case
    by (intro framed_line [of _ "CHR ''-''" s]) (simp_all add: reply_length_line [simplified] Let_def)
next
  case (Integer n)
  then show ?case
    by (intro framed_line [of _ "CHR '':''" "to_string n"]) (simp_all add: respInteger_def reply_length_line [simplified] Let_def)
next
  case (Bulk v)
  then show ?case using in_llong_mono length_encode_Bulk framed_bulk by blast
next
  case Null
  have "stoll ''-1'' = Some (-1)" by code_simp
  then have "reply_length (Suc fuel) ([CHR ''$''] @ ''-1'' @ CRLF @ rest) 0 = ReplyLength (length ''-1'' + 3)" for fuel rest
    by (subst reply_length_line) (simp_all add: Let_def)
  then show ?case by (intro framed_line [of _ "CHR ''$''" "''-1''"]) (simp_all add: respNull_def)
next
  case (Array rs)
  have "in_llong (int (length rs))" by (rule in_llong_mono [OF Array.prems(2) length_encode_Array])
  moreover have "framed r" if "r \<in> set rs" for r
    using Array.IH [OF that] Array.prems(1) that in_llong_mono [OF Array.prems(2) length_encode_member [OF that]] by simp
  ultimately show ?case by (intro framed_array) blast+
qed

lemma completeReplyLength_steps: "completeReplyLength buf p \<noteq> LengthSteps"
  using reply_length_enough [of buf p "2 * length buf + 2"] by (simp add: completeReplyLength_def)

lemma completeReplyLength_drop:
  assumes "p \<le> length buf"
  obtains fuel where "completeReplyLength buf p = reply_length fuel (drop p buf) 0" "reply_length fuel (drop p buf) 0 \<noteq> LengthSteps"
  using reply_length_shift [OF assms, of "2 * length buf + 2" 0] completeReplyLength_steps [of buf p] that
  by (simp add: completeReplyLength_def)

text \<open>The reader of the load generator as a framing of replies.\<close>

definition reply_frame :: "bytes \<Rightarrow> nat option" where
  "reply_frame s = (case completeReplyLength s 0 of ReplyLength n \<Rightarrow> Some n | _ \<Rightarrow> None)"

abbreviation sendable :: "Reply \<Rightarrow> bool" where
  "sendable r \<equiv> well_formed r \<and> in_llong (int (length (encode r)))"

lemma framed_complete:
  assumes "framed r" "p \<le> length buf"
  shows "drop p buf = encode r @ rest \<Longrightarrow> completeReplyLength buf p = ReplyLength (length (encode r))"
    and "strict_prefix (drop p buf) (encode r) \<Longrightarrow> completeReplyLength buf p = ReplyLength 0"
  using completeReplyLength_drop [OF assms(2)] framedD [OF assms(1)] by metis+

interpretation replies: framing encode reply_frame sendable
proof
  fix r rest s assume r: "sendable r"
  then have f: "framed r" by (simp add: framed_reply)
  show "reply_frame (encode r @ rest) = Some (length (encode r))"
    using framed_complete(1) [OF f, of 0 "encode r @ rest"] by (simp add: reply_frame_def)
  show "reply_frame s = Some 0" if "strict_prefix s (encode r)"
    using framed_complete(2) [OF f, of 0 s] that by (simp add: reply_frame_def)
  show "encode r \<noteq> []" using encode_nonempty [of r] by auto
qed

section \<open>A batch reads its replies\<close>

lemma complete_reply_frame:
  assumes "sendable r" "p \<le> length buf"
  shows "drop p buf = encode r @ rest \<Longrightarrow> completeReplyLength buf p = ReplyLength (length (encode r))"
    and "strict_prefix (drop p buf) (encode r) \<Longrightarrow> completeReplyLength buf p = ReplyLength 0"
  using framed_complete [OF framed_reply assms(2)] assms(1) by blast+

lemma read_replies_stream:
  assumes "\<forall>r \<in> set rs. sendable r" "\<forall>c \<in> set chunks. c \<noteq> [] \<and> length c \<le> CHUNK_SIZE" "p \<le> length inp"
    "drop p inp @ concat chunks = concat (map encode rs) @ rest"
  shows "\<exists>leftover chunks'. read_replies (length rs) inp p chunks = BatchDone leftover chunks' \<and>
    leftover @ concat chunks' = rest \<and> set chunks' \<subseteq> set chunks"
  using assms
proof (induction "length rs + length chunks" arbitrary: rs inp p chunks rule: less_induct)
  case less
  show ?case
  proof (cases rs)
    case Nil
    then show ?thesis using less.prems(4) by (subst read_replies.simps) simp
  next
    case (Cons r rs')
    have r: "sendable r" using less.prems(1) Cons by simp
    have "drop p inp @ concat chunks = encode r @ (concat (map encode rs') @ rest)" using less.prems(4) Cons by simp
    with r show ?thesis
    proof (cases rule: replies.next_frame)
      case (there t)
      then have "completeReplyLength inp p = ReplyLength (length (encode r))"
        by (intro complete_reply_frame(1) [OF r less.prems(3)]) simp
      then have step: "read_replies (length rs) inp p chunks = read_replies (length rs') inp (p + length (encode r)) chunks"
        using Cons there(4) by (subst read_replies.simps) simp
      have "p + length (encode r) \<le> length inp" "drop (p + length (encode r)) inp = t"
        using arg_cong [OF there(1), of length] arg_cong [OF there(1), of "drop (length (encode r))"] less.prems(3)
        by (simp_all add: add.commute)
      then show ?thesis
        unfolding step using less.hyps [of rs' chunks "p + length (encode r)" inp] less.prems Cons there(2) by simp
    next
      case wait
      then obtain c cs where c: "chunks = c # cs" by (cases chunks) auto
      have "completeReplyLength inp p = ReplyLength 0"
        using wait(2) by (rule complete_reply_frame(2) [OF r less.prems(3)])
      then have step: "read_replies (length rs) inp p chunks = read_replies (length rs) (inp @ c) p cs"
        using Cons c less.prems(2) by (subst read_replies.simps) simp
      show ?thesis
        unfolding step using less.hyps [of rs cs p "inp @ c"] less.prems c by simp blast
    qed
  qed
qed

lemma send_request_all:
  assumes "\<And>i. 0 < results i"
  shows "send_request results i sent wire request = (True, wire @ drop sent request)"
  using assms
proof (induction results i sent wire request rule: send_request.induct)
  case (1 results i sent wire request)
  have "\<not> results i \<le> 0" using 1(2) [of i] by simp
  let ?n = "min (nat (results i)) (length request - sent)"
  have "take ?n (drop sent request) @ drop (sent + ?n) request = drop sent request"
    by (metis add.commute append_take_drop_id drop_drop)
  with 1 \<open>\<not> results i \<le> 0\<close> show ?case by (subst send_request.simps) (simp add: Let_def)
qed

end
