(* ===== verification/FKV_Load.thy ===== *)
theory FKV_Load
  imports FKV_Benchmark FKV_Wire
begin

text \<open>
  The load generator as a program: its threads, which share the number of requests that remain, the
  end of a test, and \<open>main\<close> of \<open>src/benchmarks/benchmark.cpp\<close>; and the load generator against the
  server. How the threads interleave and which connections fail is up to the environment; times,
  percentiles and the printed tables are floating-point measurements and are not modelled.

  The lemmas say that, under every interleaving, the connections together send exactly the requested
  number of commands unless one of them fails, that the shared counter does not overflow, that every
  thread leaves its loop, and that the
  bytes of a batch make the server execute its commands in order, whose replies are what the batch waits for.
\<close>

section \<open>Sharing the requests\<close>

text \<open>
  The threads of \<open>runTest\<close>: \<open>remaining\<close> is the shared counter, \<open>sent_by\<close> what each connection has
  claimed so far, \<open>finished\<close> which have left their loop, \<open>failed\<close> whether one of them returned false.
  \<open>claim\<close> is the atomic \<open>fetch_sub\<close> with the batch it gives.
\<close>

definition claim :: "Options \<Rightarrow> int \<Rightarrow> int \<times> int" where
  "claim opts left = (min (pipeline opts) left, left - pipeline opts)"

record Threads =
  remaining :: int
  sent_by :: "int list"
  finished :: "bool list"
  failed :: bool

definition start_threads :: "Options \<Rightarrow> Threads" where
  "start_threads opts = \<lparr>remaining = requests opts, sent_by = replicate (nat (bench_clients opts)) 0,
     finished = replicate (nat (bench_clients opts)) False, failed = False\<rparr>"

definition thread_step :: "Options \<Rightarrow> nat \<Rightarrow> Threads \<Rightarrow> Threads" where
  "thread_step opts i t =
     (let (batch, left) = claim opts (remaining t) in
      if batch \<le> 0 then t\<lparr>remaining := left, finished := (finished t)[i := True]\<rparr>
      else t\<lparr>remaining := left, sent_by := (sent_by t)[i := sent_by t ! i + batch]\<rparr>)"

text \<open>The connection could not be made, or broke in the middle of a batch.\<close>

definition thread_fail :: "nat \<Rightarrow> Threads \<Rightarrow> Threads" where
  "thread_fail i t = t\<lparr>finished := (finished t)[i := True], failed := True\<rparr>"

text \<open>One step of one thread; the sending and receiving of a batch is part of the step that claims it.
  An exception in a thread, such as \<open>bad_alloc\<close>, ends the whole process and is not a step.\<close>

inductive thread_move :: "Options \<Rightarrow> Threads \<Rightarrow> Threads \<Rightarrow> bool" for opts where
  batch: "i < length (finished t) \<Longrightarrow> \<not> finished t ! i \<Longrightarrow> thread_move opts t (thread_step opts i t)"
| broken: "i < length (finished t) \<Longrightarrow> \<not> finished t ! i \<Longrightarrow> thread_move opts t (thread_fail i t)"

inductive_cases thread_moveE: "thread_move opts t t'"

section \<open>Tests\<close>

text \<open>The end of \<open>runTest\<close>, with the threads as they are after \<open>join\<close>: an error, or the number of requests
  that the printed rate is computed from.\<close>

definition runTest :: "Options \<Rightarrow> Threads \<Rightarrow> bytes + int" where
  "runTest opts t =
     (if failed t then Inl (''connection to '' @ host opts @ '':'' @ to_string (bench_port opts) @ '' failed'')
      else Inr (requests opts))"

text \<open>The loop of \<open>main\<close> over the tests: the exit status, and the tests that were measured.\<close>

fun run_tests :: "Options \<Rightarrow> (bytes \<Rightarrow> Threads) \<Rightarrow> bytes list \<Rightarrow> int \<times> (bytes \<times> int) list" where
  "run_tests opts joined [] = (0, [])"
| "run_tests opts joined (test # ts) =
     (if buildCommand test 0 [] = [] then (1, [])
      else
        (case runTest opts (joined test) of
           Inl err \<Rightarrow> (1, [])
         | Inr n \<Rightarrow> (let (code, rs) = run_tests opts joined ts in (code, (test, n) # rs))))"

text \<open>How the program ends: with a status and its measurements, or by an exception that nothing catches.\<close>

datatype bench_result = BenchExit int "(bytes \<times> int) list" | BenchAborts

definition bench_main :: "bytes list \<Rightarrow> (bytes \<Rightarrow> Threads) \<Rightarrow> bench_result" where
  "bench_main argv joined =
     (case parseOptions argv default_options of
        BenchHelp \<Rightarrow> BenchExit 0 []
      | BenchRejected \<Rightarrow> BenchExit 1 []
      | BenchThrows \<Rightarrow> BenchAborts
      | BenchOptions opts \<Rightarrow> (case run_tests opts joined (tests opts) of (code, rs) \<Rightarrow> BenchExit code rs))"

section \<open>The requests are shared out exactly\<close>

definition threads_inv :: "Options \<Rightarrow> Threads \<Rightarrow> bool" where
  "threads_inv opts t \<longleftrightarrow>
     length (sent_by t) = length (finished t) \<and> length (finished t) = nat (bench_clients opts) \<and>
     sum_list (sent_by t) + max 0 (remaining t) = requests opts \<and> (\<forall>n \<in> set (sent_by t). 0 \<le> n) \<and>
     (True \<in> set (finished t) \<longrightarrow> failed t \<or> remaining t \<le> 0) \<and>
     - (pipeline opts * (1 + int (length (filter id (finished t))))) \<le> remaining t"

lemma sum_list_update_int: "i < length xs \<Longrightarrow> sum_list (xs[i := xs ! i + n]) = sum_list xs + (n :: int)"
  by (induction xs arbitrary: i) (auto split: nat.split)

lemma filter_update_True:
  "i < length bs \<Longrightarrow> \<not> bs ! i \<Longrightarrow> length (filter id (bs[i := True])) = Suc (length (filter id bs))"
  by (induction bs arbitrary: i) (auto split: nat.split)

lemma start_threads_inv: "options_ok opts \<Longrightarrow> threads_inv opts (start_threads opts)"
  by (auto simp: threads_inv_def start_threads_def options_ok_def sum_list_replicate)

lemma thread_step_inv:
  assumes "options_ok opts" "threads_inv opts t" "i < length (finished t)" "\<not> finished t ! i"
  shows "threads_inv opts (thread_step opts i t)"
proof (cases "min (pipeline opts) (remaining t) \<le> 0")
  case True
  then have "remaining t \<le> 0" using assms(1) by (auto simp: options_ok_def)
  with True assms show ?thesis
    by (auto simp: thread_step_def claim_def threads_inv_def options_ok_def filter_update_True algebra_simps)
next
  case False
  have "\<forall>n \<in> set ((sent_by t)[i := sent_by t ! i + min (pipeline opts) (remaining t)]). 0 \<le> n"
    using assms(2,3) False set_update_subset_insert [of "sent_by t" i] unfolding threads_inv_def
    by (metis (no_types, lifting) add_nonneg_nonneg insert_iff linear nth_mem subsetD)
  moreover have "0 \<le> pipeline opts * int (length (filter id (finished t)))" using assms(1) by (simp add: options_ok_def)
  then have "- (pipeline opts * (1 + int (length (filter id (finished t))))) \<le> remaining t - pipeline opts"
    using False unfolding distrib_left by linarith
  ultimately show ?thesis
    using False assms
    by (auto simp: thread_step_def claim_def threads_inv_def options_ok_def sum_list_update_int)
qed

lemma thread_fail_inv:
  assumes "options_ok opts" "threads_inv opts t" "i < length (finished t)" "\<not> finished t ! i"
  shows "threads_inv opts (thread_fail i t)"
  using assms by (auto simp: thread_fail_def threads_inv_def options_ok_def filter_update_True algebra_simps)

interpretation threads: step_system "thread_move opts" "\<lambda>t. options_ok opts \<and> threads_inv opts t" for opts
  by unfold_locales (auto simp: thread_step_inv thread_fail_inv elim!: thread_moveE)

lemma threads_share:
  assumes "options_ok opts" "(thread_move opts)\<^sup>*\<^sup>* (start_threads opts) t"
  shows "sum_list (sent_by t) \<le> requests opts"
    "True \<in> set (finished t) \<Longrightarrow> \<not> failed t \<Longrightarrow> sum_list (sent_by t) = requests opts"
    "length (finished t) = nat (bench_clients opts)" "in_llong (remaining t)"
proof -
  have inv: "threads_inv opts t"
    using threads.reach_inv [OF assms(2)] start_threads_inv [OF assms(1)] assms(1) by blast
  then have "0 \<le> sum_list (sent_by t)" by (intro sum_list_nonneg) (simp add: threads_inv_def)
  with inv show "sum_list (sent_by t) \<le> requests opts"
    "True \<in> set (finished t) \<Longrightarrow> \<not> failed t \<Longrightarrow> sum_list (sent_by t) = requests opts"
    "length (finished t) = nat (bench_clients opts)"
    by (auto simp: threads_inv_def max_def split: if_splits)
  have "remaining t \<le> requests opts" using inv \<open>0 \<le> sum_list (sent_by t)\<close> by (auto simp: threads_inv_def max_def split: if_splits)
  moreover have "1 + int (length (filter id (finished t))) \<le> 2 ^ 31"
    using inv assms(1) length_filter_le [of id "finished t"] unfolding threads_inv_def options_ok_def by linarith
  then have "pipeline opts * (1 + int (length (filter id (finished t)))) \<le> 2 ^ 31 * 2 ^ 31"
    using assms(1) by (intro mult_mono) (auto simp: options_ok_def)
  then have "- (2 ^ 62) \<le> remaining t" using inv by (simp add: threads_inv_def)
  ultimately show "in_llong (remaining t)" using assms(1) by (simp add: options_ok_def in_llong_def LLONG_MIN_def)
qed

text \<open>Every thread leaves its loop: each step uses up requests or finishes a thread.\<close>

definition thread_work :: "Threads \<Rightarrow> nat" where
  "thread_work t = nat (remaining t) + length (filter Not (finished t))"

lemma filter_Not_update:
  "i < length bs \<Longrightarrow> \<not> bs ! i \<Longrightarrow> length (filter Not (bs[i := True])) < length (filter Not bs)"
  by (induction bs arbitrary: i) (auto split: nat.split)

lemma thread_move_work:
  assumes "options_ok opts" "thread_move opts t t'"
  shows "thread_work t' < thread_work t"
  using assms(2)
proof cases
  case (batch i)
  with assms(1) filter_Not_update [OF batch(2,3)] show ?thesis
    by (auto simp: thread_step_def claim_def thread_work_def options_ok_def min_def split: if_splits)
next
  case (broken i)
  with filter_Not_update [OF broken(2,3)] show ?thesis by (simp add: thread_fail_def thread_work_def)
qed

lemma thread_move_stops: "options_ok opts \<Longrightarrow> wfp (thread_move opts)\<inverse>\<inverse>"
  by (rule wfp_if_convertible_to_nat [where f = thread_work]) (simp add: thread_move_work)

text \<open>What \<open>main\<close> reports was sent.\<close>

lemma run_tests_measured:
  assumes "run_tests opts joined ts = (code, rs)" "(test, n) \<in> set rs"
  shows "n = requests opts \<and> \<not> failed (joined test) \<and> test \<in> set ts"
  using assms
  by (induction ts arbitrary: code rs) (auto simp: runTest_def split: if_splits prod.splits)

lemma run_tests_code: "run_tests opts joined ts = (code, rs) \<Longrightarrow> code = 0 \<and> map fst rs = ts \<or> code = 1"
  by (induction ts arbitrary: code rs) (auto simp: runTest_def split: if_splits prod.splits)

section \<open>The load generator and the server\<close>

text \<open>The commands of a batch as argument vectors.\<close>

definition batch_commands :: "Options \<Rightarrow> bytes \<Rightarrow> int list \<Rightarrow> bytes list list" where
  "batch_commands opts test drawn =
     map (\<lambda>key. the (bench_arguments test key (replicate (dataSize opts) (CHR ''x'')))) drawn"

lemma bench_arguments_ok:
  assumes "bench_arguments test key v = Some args" "CR \<notin> set v" "length v \<le> MAX_BULK_SIZE" "in_llong key"
  shows "loggable args" "\<not> quits args" "\<forall>a \<in> set args. CR \<notin> set a"
proof -
  have "0 \<le> key mod 100" "key mod 100 < 100" by simp_all
  then have "in_llong (key mod 100)" unfolding in_llong_def LLONG_MIN_def LLONG_MAX_def by linarith
  then have "length (to_string key) \<le> 20" "length (to_string (key mod 100)) \<le> 20"
    using assms(4) length_to_string by blast+
  then show "loggable args"
    using assms(1,3)
    by (auto simp: bench_arguments_def loggable_def Let_def MAX_ARGUMENTS_def MAX_BULK_SIZE_def split: if_splits)
  have "\<not> quits [''PING'']" "\<not> quits [''SET'', a, b]" "\<not> quits [''GET'', a]" "\<not> quits [''INCR'', a]" "\<not> quits [''LPUSH'', a, b]"
    "\<not> quits [''HSET'', a, b, c]" for a b c
    by (simp_all add: quits_def uppercase_def to_upper_def byte_def)
  then show "\<not> quits args" using assms(1) by (auto simp: bench_arguments_def Let_def split: if_splits)
  have "CR \<notin> set (to_string n)" for n by simp
  then show "\<forall>a \<in> set args. CR \<notin> set a"
    using assms(1,2) by (auto simp: bench_arguments_def Let_def split: if_splits)
qed

lemma serve_replies:
  assumes "\<forall>args \<in> set cmds. \<forall>a \<in> set args. CR \<notin> set a" "db_inv (database p)"
  shows "\<exists>rs. length rs = length cmds \<and> (\<forall>r \<in> set rs. well_formed r) \<and> fst (serve cmds p) = concat (map encode rs)"
  using assms
proof (induction cmds arbitrary: p)
  case (Cons args cmds)
  obtain reply q where e: "execute args p = (Inr reply, q)" "db_inv (database q)"
    using execute_total [OF Cons.prems(2)] by blast
  obtain r where r: "well_formed r" "payload reply = encode r"
    using execute_is_reply [OF _ e(1)] Cons.prems(1) by (auto simp: is_reply_def)
  obtain rs where "length rs = length cmds" "\<forall>r \<in> set rs. well_formed r" "fst (serve cmds q) = concat (map encode rs)"
    using Cons.IH [OF _ e(2)] Cons.prems(1) by auto
  with e(1) r show ?case by (intro exI [of _ "r # rs"]) (simp add: split_def)
qed simp

text \<open>What a batch puts on the wire is the encoding of its commands.\<close>

lemma batch_wire:
  assumes "\<forall>key \<in> set drawn. bench_arguments test key (replicate (dataSize opts) (CHR ''x'')) \<noteq> None" "\<forall>i. 0 < results i"
  shows "fst (run_batch opts test drawn results inp chunks) = concat (map respArray (batch_commands opts test drawn))"
    "snd (run_batch opts test drawn results inp chunks) = read_replies (length drawn) inp 0 chunks"
proof -
  have "map (\<lambda>key. buildCommand test key (replicate (dataSize opts) (CHR ''x''))) drawn = map respArray (batch_commands opts test drawn)"
    using assms(1) by (auto simp: batch_commands_def buildCommand_def)
  then show "fst (run_batch opts test drawn results inp chunks) = concat (map respArray (batch_commands opts test drawn))"
    "snd (run_batch opts test drawn results inp chunks) = read_replies (length drawn) inp 0 chunks"
    using assms(2) by (simp_all add: run_batch_def send_request_all)
qed

lemma batch_against_server:
  assumes "buildCommand test 0 [] \<noteq> []" "\<forall>key \<in> set drawn. in_llong key" "dataSize opts \<le> MAX_BULK_SIZE" "db_inv (database p)"
    "\<forall>i. 0 < results i" "run_batch opts test drawn results [] chunks = (wire, ended)"
    "processInput (new_client\<lparr>input_buf := wire\<rparr>) p = (r, c, p')"
    "concat chunks = output_buf c" "\<forall>c \<in> set chunks. c \<noteq> [] \<and> length c \<le> CHUNK_SIZE" "in_llong (int (length (concat chunks)))"
  shows "r = Inr ()" "c = new_client\<lparr>output_buf := fst (serve (batch_commands opts test drawn) p)\<rparr>"
    "p' = snd (serve (batch_commands opts test drawn) p)" "ended = BatchDone [] []"
proof -
  let ?v = "replicate (dataSize opts) (CHR ''x'')"
  let ?cmds = "batch_commands opts test drawn"
  have "bench_arguments test key ?v \<noteq> None" for key
    using assms(1) by (auto simp: buildCommand_def bench_arguments_def Let_def split: if_splits)
  then have known: "bench_arguments test key ?v = Some (the (bench_arguments test key ?v))" for key by simp
  have v: "CR \<notin> set ?v" "length ?v \<le> MAX_BULK_SIZE" using assms(3) by simp_all
  have ok: "\<forall>args \<in> set ?cmds. loggable args \<and> \<not> quits args \<and> (\<forall>a \<in> set args. CR \<notin> set a)"
    using bench_arguments_ok [OF known v] assms(2) unfolding batch_commands_def by auto
  have wire: "wire = concat (map respArray ?cmds)" "ended = read_replies (length drawn) [] 0 chunks"
    using batch_wire [of drawn test opts results "[]" chunks] known assms(5,6) by auto
  have server: "processInput (new_client\<lparr>input_buf := wire\<rparr>) p =
      (Inr (), new_client\<lparr>output_buf := fst (serve ?cmds p)\<rparr>, snd (serve ?cmds p))"
    using processInput_pipeline [of ?cmds "[]" "new_client\<lparr>input_buf := wire\<rparr>" p] ok assms(4)
    by (simp add: wire(1) new_client_def parseRespCommand_def)
  with assms(7) show "r = Inr ()" "c = new_client\<lparr>output_buf := fst (serve ?cmds p)\<rparr>" "p' = snd (serve ?cmds p)" by simp_all
  with assms(8) have out: "concat chunks = fst (serve ?cmds p)" by simp
  obtain rs where rs: "length rs = length ?cmds" "\<forall>r \<in> set rs. well_formed r" "fst (serve ?cmds p) = concat (map encode rs)"
    using serve_replies [of ?cmds p] ok assms(4) by blast
  have "length (encode r) \<le> length (concat (map encode rs))" if "r \<in> set rs" for r
    using that by (simp add: length_concat member_le_sum_list)
  then have "\<forall>r \<in> set rs. sendable r"
    using rs out assms(10) in_llong_mono by (metis (no_types, lifting))
  from read_replies_stream [OF this assms(9), of 0 "[]" "[]"] rs(3) out obtain chunks'
    where r: "read_replies (length rs) [] 0 chunks = BatchDone [] chunks'" "concat chunks' = []" "set chunks' \<subseteq> set chunks"
    by auto
  have "chunks' = []" using r(2,3) assms(9) by (cases chunks') auto
  with r(1) rs(1) wire(2) show "ended = BatchDone [] []" by (simp add: batch_commands_def)
qed

end
