(* ===== verification/FKV_Findings.thy ===== *)
theory FKV_Findings
  imports FKV_Recovery FKV_Loop FKV_Load
begin

text \<open>
  Behaviours of the code that contradict what it means to do, each shown on a concrete run of the
  model: a log the server wrote and then refuses to load, a remaining time that reads as no expiry, a
  reply that is two replies, a reply sent before its write reached the file, a torn \<open>SET ... PX\<close>
  that comes back without its deadline, a failed \<open>fsync\<close> that is not retried, and the load generator
  aborting on an option or a reply that it could report.
\<close>

section \<open>A log that cannot be loaded\<close>

lemma load_loop_fails:
  assumes "drop position contents = concat (map respArray cs)" "\<forall>c \<in> set cs. loggable c"
    "replay_all replay cs s = None"
  shows "\<exists>err s'. load_loop replay trunc contents position n s = (Inl err, s', contents)"
  using assms
proof (induction cs arbitrary: position n s)
  case (Cons c cs)
  have d: "drop position contents = respArray c @ concat (map respArray cs)" using Cons.prems(1) by simp
  then have d': "drop (position + length (respArray c)) contents = concat (map respArray cs)"
    by (metis add.commute append_eq_conv_conj drop_drop)
  obtain ok e s1 where r: "replay c s = ((ok, e), s1)" by (metis surj_pair)
  then show ?case
    using load_loop_step [OF d, of replay trunc n s] Cons.prems(2,3) Cons.IH [OF d'] by (cases ok) simp_all
qed simp

lemma server_start_fails:
  assumes "appendOnly config" "\<forall>c \<in> set cs. loggable c"
    "replay_all replay_command cs (new_processor db None) = None"
  shows "\<exists>err. server_start config trunc fd msg db (os0\<lparr>disk := Some (concat (map respArray cs))\<rparr>) = Inl err"
proof -
  obtain err s' where "load_loop replay_command trunc (concat (map respArray cs)) 0 0 (new_processor db None) =
      (Inl err, s', concat (map respArray cs))"
    using load_loop_fails [of 0 "concat (map respArray cs)" cs replay_command "new_processor db None" trunc 0] assms(2,3)
    by auto
  with assms(1) show ?thesis by (simp add: server_start_def new_server_def aof_load_def Let_def)
qed

text \<open>
  A list gets a deadline, grows before it, expires, and a set takes its name. Expiry itself is not
  logged; on a later start the logged deadline has passed, so \<open>PEXPIREAT\<close> deletes the list at once,
  the second \<open>RPUSH\<close> creates a list that never expires, and \<open>SADD\<close> fails on it.
\<close>

definition two_times :: "nat \<Rightarrow> int" where
  "two_times i = (if i < 5 then 10 else 500)"

definition expiry_commands :: "bytes list list" where
  "expiry_commands =
     [[''RPUSH'', ''k'', ''a''], [''PEXPIRE'', ''k'', ''100''], [''RPUSH'', ''k'', ''b''], [''SADD'', ''k'', ''m'']]"

definition expiry_log :: "bytes list list" where
  "expiry_log =
     [[''RPUSH'', ''k'', ''a''], [''PEXPIREAT'', ''k'', ''110''], [''RPUSH'', ''k'', ''b''], [''SADD'', ''k'', ''m'']]"

definition logging_processor :: "(nat \<Rightarrow> int) \<Rightarrow> CommandProcessor" where
  "logging_processor clk =
     new_processor (new_database clk (\<lambda>_. 0)) (Some ((new_aof ''flashkv.aof'')\<lparr>fileDescriptor := 3\<rparr>))"

definition run_commands :: "bytes list list \<Rightarrow> CommandProcessor \<Rightarrow> CommandProcessor" where
  "run_commands cmds p = fold (\<lambda>args p. snd (execute args p)) cmds p"

lemma expiry_logged:
  "map_option buffer (aof (run_commands expiry_commands (logging_processor two_times))) =
     Some (concat (map respArray expiry_log))"
  by code_simp

lemma expiry_replay_fails:
  "replay_all replay_command expiry_log (new_processor (new_database (\<lambda>_. 500) (\<lambda>_. 0)) None) = None"
  by code_simp

text \<open>
  C40. The server can refuse the log it wrote: on this run the log holds four commands that were all
  accepted, and a start after the deadline fails while replaying them.
\<close>

theorem own_log_refused:
  "\<exists>contents err. map_option buffer (aof (run_commands expiry_commands (logging_processor two_times))) = Some contents \<and>
     server_start default_config None 3 [] (new_database (\<lambda>_. 500) (\<lambda>_. 0))
       \<lparr>disk = Some contents, writes = (\<lambda>_. Wrote 1), calls = 0\<rparr> = Inl err"
proof -
  have "\<forall>c \<in> set expiry_log. loggable c"
    by (simp add: expiry_log_def loggable_def MAX_ARGUMENTS_def MAX_BULK_SIZE_def)
  moreover have "appendOnly default_config" by (simp add: default_config_def)
  ultimately show ?thesis
    using server_start_fails [OF _ _ expiry_replay_fails, of default_config None 3 "[]"
        "\<lparr>disk = None, writes = (\<lambda>_. Wrote 1), calls = 0\<rparr>"] expiry_logged by (auto simp del: One_nat_def)
qed

section \<open>A remaining time that reads as no expiry\<close>

text \<open>The clock passes the deadline between the two readings of \<open>ttlMs\<close>.\<close>

theorem ttl_reads_no_expiry:
  "let db = snd (expireAtMs_op ''k'' 100 (db_set ''k'' ''v'' (new_database (\<lambda>i. if i = 0 then 50 else if i = 1 then 99 else 101) (\<lambda>_. 0))))
   in fst (ttlMs ''k'' db) = -1"
  by code_simp

section \<open>A reply that is two replies\<close>

theorem unknown_command_splits_reply:
  "payload (case fst (execute [''X'' @ CRLF @ ''+OK''] (logging_processor two_times)) of Inr r \<Rightarrow> r) =
     encode (Failure (''ERR unknown command '' @ [SQUOTE] @ ''X'')) @ encode (Simple (''OK'' @ [SQUOTE]))"
  by code_simp

section \<open>A reply that leaves before its write\<close>

definition failing_server :: Server where
  "failing_server =
     \<lparr>processor = run_commands [[''SET'', ''k'', ''v'']] (logging_processor two_times),
      clients = [(7, new_client\<lparr>output_buf := respSimpleString ''OK''\<rparr>)],
      os = \<lparr>disk = Some [], writes = (\<lambda>_. WriteError), calls = 0\<rparr>, traffic = []\<rparr>"

lemma failing_log:
  "aof (processor failing_server) =
     Some \<lparr>filePath = ''flashkv.aof'', buffer = respArray [''SET'', ''k'', ''v''], fileDescriptor = 3,
        needsSync = False, writeFailed = False\<rparr>"
  by code_simp

theorem reply_before_write:
  "\<exists>s'. handleClientEvents 7 False False (\<lambda>_. RecvWouldBlock) (\<lambda>_. Sent 5) failing_server =
       Some (Inr (respSimpleString ''OK'', s')) \<and> disk (os s') = Some []"
proof -
  let ?a = "\<lparr>filePath = ''flashkv.aof'', buffer = respArray [''SET'', ''k'', ''v''], fileDescriptor = 3,
        needsSync = False, writeFailed = False\<rparr>"
  let ?os = "os failing_server"
  have os: "?os = \<lparr>disk = Some [], writes = (\<lambda>_. WriteError), calls = 0\<rparr>" by (simp add: failing_server_def)
  have "flush_loop b 0 ?os = Some (False, 0, ?os\<lparr>calls := 1\<rparr>)" if "b \<noteq> []" for b
    using that by (subst flush_loop.simps) (simp add: os os_write_def)
  then have flush: "aof_flush ?a ?os = Some (False, ?a\<lparr>writeFailed := True\<rparr>, ?os\<lparr>calls := 1\<rparr>)"
    by (simp add: aof_flush_def respArray_def)
  let ?c = "new_client\<lparr>output_buf := respSimpleString ''OK''\<rparr>"
  have p: "pendingOutput ?c = 5" "outputOffset ?c = 0"
    by (simp_all add: pendingOutput_def new_client_def respSimpleString_def CRLF_def)
  have "send_loop (\<lambda>_. Sent 5) 0 [] ?c = send_loop (\<lambda>_. Sent 5) 1 (respSimpleString ''OK'') (?c\<lparr>outputOffset := 5\<rparr>)"
    by (subst send_loop.simps) (simp add: pendingOutput_def new_client_def respSimpleString_def CRLF_def eval_nat_numeral)
  also have "\<dots> = Some (True, respSimpleString ''OK'', ?c\<lparr>outputOffset := 5\<rparr>)"
    by (subst send_loop.simps) (simp add: pendingOutput_def respSimpleString_def CRLF_def)
  finally have "writeToClient (\<lambda>_. Sent 5) ?c = Some (True, respSimpleString ''OK'', compact_output (?c\<lparr>outputOffset := 5\<rparr>))"
    by (simp add: writeToClient_def)
  moreover have "clients failing_server = [(7, ?c)]" "closeAfterWrite ?c = False"
    by (simp_all add: failing_server_def new_client_def)
  ultimately show ?thesis
    using flush failing_log p
    by (simp add: handleClientEvents_def flush_and_write_def Let_def os)
qed

section \<open>A deadline that is lost\<close>

text \<open>\<open>SET k v PX 100\<close> is two entries of the log; a crash between them keeps the first.\<close>

theorem torn_set_loses_deadline:
  "map_option buffer (aof (run_commands [[''SET'', ''k'', ''v'', ''PX'', ''100'']] (logging_processor (\<lambda>_. 10)))) =
     Some (concat (map respArray [[''SET'', ''k'', ''v''], [''PEXPIREAT'', ''k'', ''110'']])) \<and>
   map_option (\<lambda>q. map (map_prod id expiresAtMs) (data (database q)))
     (replay_all replay_command [[''SET'', ''k'', ''v'']] (new_processor (new_database (\<lambda>_. 10) (\<lambda>_. 0)) None)) =
     Some [(''k'', NO_EXPIRY)]"
  by code_simp

section \<open>A failed \<open>fsync\<close> that is forgotten\<close>

theorem failed_fsync_not_retried:
  assumes "needsSync a" "fileDescriptor a \<noteq> -1"
  shows "fst (aof_sync False a) = False" "aof_sync ok (snd (aof_sync False a)) = (True, snd (aof_sync False a))"
  using assms by (simp_all add: aof_sync_def)

section \<open>Exceptions of the load generator that nothing catches\<close>

text \<open>An option that is not a number, and a reply type the load generator does not know, inside a thread.\<close>

theorem bad_number_aborts: "bench_main [''-p'', ''abc''] joined = BenchAborts"
proof -
  have "stoi ''abc'' = None" by code_simp
  then show ?thesis by (simp add: bench_main_def bench_option_def)
qed

theorem unknown_reply_throws: "read_replies 1 [] 0 [''%1'' @ CRLF] = BatchThrows"
proof -
  have "completeReplyLength [] 0 = ReplyLength 0" "completeReplyLength (''%1'' @ CRLF) 0 = LengthThrows" by code_simp+
  then show ?thesis by (simp add: read_replies.simps CHUNK_SIZE_def CRLF_def)
qed

section \<open>A limit that depends on the network\<close>

text \<open>A line that is longer than an inline request may be: refused when its line feed is not there yet, executed when it is.\<close>

lemma read_argument_plain: "read_argument False False cur (replicate n (CHR ''a'')) = Some (cur @ replicate n (CHR ''a''), [])"
proof (induction n arbitrary: cur)
  case (Suc n)
  have "\<not> isSpace (CHR ''a'')" by code_simp
  with Suc show ?case by simp
qed simp

theorem inline_limit_depends_on_chunks:
  "let line = replicate (MAX_INLINE_SIZE + 1) (CHR ''a'')
   in parseRespCommand line = errorResult ''Protocol error: too big inline request'' \<and>
      parseRespCommand (line @ [LF]) = completeResult [line] (length line + 1)"
proof -
  let ?line = "replicate (MAX_INLINE_SIZE + 1) (CHR ''a'')"
  have none: "find_char LF (replicate n (CHR ''a'')) = None" "find_char LF (replicate n (CHR ''a'') @ [LF]) = Some n" for n
    by (induction n) auto
  have "\<not> isSpace (CHR ''a'')" by code_simp
  then have "tokenizeCommandLine ?line = Some [?line]"
    unfolding tokenizeCommandLine_def by (subst tokenize_loop.simps) (simp add: read_argument_plain tokenize_loop.simps)
  then show ?thesis using none by (simp add: parseRespCommand_def parseInlineCommand_def completeResult_def Let_def)
qed

end
