(* ===== verification/FKV_Guards.thy ===== *)
theory FKV_Guards
  imports FKV_Server FKV_Commands_Inv
begin

text \<open>
  The guards at the edges: what \<open>execute\<close> refuses leaves the keyspace and the log as they were; memory
  sizes are computed without wrap-around; the option parser only lets settings through that the rest
  of the server can work with; deadlines of the expiry commands never leave the range of a
  \<open>long long\<close>.
\<close>

section \<open>Refused commands\<close>

definition is_error :: "bytes \<Rightarrow> bool" where
  "is_error s \<longleftrightarrow> s \<noteq> [] \<and> hd s = CHR ''-''"

lemma is_error_resp [simp]: "is_error (respError m)" "is_error (respErrorWithCode c m)"
  by (simp_all add: is_error_def respError_def respErrorWithCode_def)

text \<open>Why a command is refused before its handler runs.\<close>

definition refused :: "bytes list \<Rightarrow> CommandProcessor \<Rightarrow> bool" where
  "refused args p \<longleftrightarrow>
     args = [] \<or> uppercase (args ! 0) \<noteq> ''QUIT'' \<and>
     (case map_of commandTable (uppercase (args ! 0)) of
        None \<Rightarrow> True
      | Some spec \<Rightarrow>
          arity_error (arity spec) args \<or>
          write_cmd spec \<and>
            ((\<exists>a. aof p = Some a \<and> \<not> aof_healthy a) \<or>
             denyOom spec \<and> policy (database p) = NoEviction \<and> memoryLimit (database p) \<noteq> 0 \<and>
             memoryUsed (database p) > memoryLimit (database p)))"

lemma evict_and_log_full:
  assumes "policy (database p) = NoEviction" "memoryLimit (database p) \<noteq> 0"
    "memoryUsed (database p) > memoryLimit (database p)"
  shows "evict_and_log p = (Inr False, p)"
  using assms evictIfNeeded_noop [of "database p"] by (simp add: evict_and_log_def propagate_dels_def)

lemma refused_unchanged:
  assumes "refused args p"
  shows "\<exists>reply p'. execute args p = (Inr reply, p') \<and> is_error (payload reply) \<and>
    database p' = database p \<and> aof p' = aof p"
proof (cases "args = []")
  case True
  then show ?thesis by (simp add: execute_def reply_of_def)
next
  case False
  let ?p1 = "p\<lparr>serverStats := (serverStats p)\<lparr>totalCommands := totalCommands (serverStats p) + 1\<rparr>\<rparr>"
  have w: "\<exists>reply p'. run_write spec args ?p1 = (Inr reply, p') \<and> is_error (payload reply) \<and>
      database p' = database p \<and> aof p' = aof p"
    if "(\<exists>a. aof p = Some a \<and> \<not> aof_healthy a) \<or> denyOom spec \<and> policy (database p) = NoEviction \<and>
      memoryLimit (database p) \<noteq> 0 \<and> memoryUsed (database p) > memoryLimit (database p)" for spec
    using that evict_and_log_full [of ?p1]
    by (auto simp: run_write_def and_then_def reply_of_def split: option.splits)
  with assms False show ?thesis
    by (auto simp: refused_def execute_def Let_def reply_of_def split: option.splits)
qed

section \<open>Memory sizes\<close>

lemma unit_multiplier_pos: "unit_multiplier u = Some k \<Longrightarrow> 0 < k"
  by (auto simp: unit_multiplier_def split: if_splits)

lemma parseMemorySize_exact:
  assumes "parseMemorySize s = Some w"
  shows "\<exists>digits suffix k. s = digits @ suffix \<and> digits \<noteq> [] \<and> (\<forall>c \<in> set digits. is_digit c) \<and>
    unit_multiplier (lowercase suffix) = Some k \<and> unat w = digits_value digits * k"
proof -
  let ?ds = "takeWhile is_digit s" and ?suffix = "dropWhile is_digit s"
  have all: "takeWhile is_digit ?ds = ?ds" by (simp add: takeWhile_idem)
  obtain k where k: "?ds \<noteq> []" "unit_multiplier (lowercase ?suffix) = Some k"
    "digits_value ?ds * k < 2 ^ 64" "w = of_nat (digits_value ?ds * k)"
    using assms
    by (auto simp: parseMemorySize_def Let_def from_chars_ull_def all simp del: of_nat_mult split: if_splits option.splits)
  have "unat w = digits_value ?ds * k" using k(3,4) by (simp add: unat_of_nat take_bit_nat_eq_self_iff del: of_nat_mult)
  with k(1,2) show ?thesis
    by (intro exI [of _ ?ds] exI [of _ ?suffix] exI [of _ k]) (auto dest: set_takeWhileD)
qed

section \<open>Options\<close>

definition config_ok :: "ServerConfig \<Rightarrow> bool" where
  "config_ok c \<longleftrightarrow> 1 \<le> config_port c \<and> config_port c \<le> 65535 \<and> 1 \<le> hz c \<and> hz c \<le> 500"

lemma parse_option_ok: "parse_option opt v c = Some c' \<Longrightarrow> config_ok c \<Longrightarrow> config_ok c'"
  by (auto simp: parse_option_def config_ok_def split: if_splits option.splits)

lemma parseArguments_ok: "parseArguments args c = Parsed c' \<Longrightarrow> config_ok c \<Longrightarrow> config_ok c'"
  by (induction args c rule: parseArguments.induct)
    (auto dest: parse_option_ok split: if_splits list.splits option.splits)

lemma cronInterval_bounds:
  assumes "config_ok c"
  shows "2000000 \<le> cronInterval c" "cronInterval c \<le> 1000000000"
proof -
  have "2 \<le> 1000 div hz c" "1000 div hz c \<le> 1000"
    using assms zdiv_mono2 [of 1000 "hz c" 500] zdiv_mono2 [of 1000 1 "hz c"] by (auto simp: config_ok_def)
  then show "2000000 \<le> cronInterval c" "cronInterval c \<le> 1000000000" by (simp_all add: cronInterval_def)
qed

section \<open>Deadlines\<close>

text \<open>The deadline an expiry command asks for, or \<open>None\<close> when it does not fit a \<open>long long\<close>.\<close>

definition wanted_deadline :: "int \<Rightarrow> int \<Rightarrow> bool \<Rightarrow> int \<Rightarrow> int option" where
  "wanted_deadline amount unitMs absolute t =
     (let d = amount * unitMs; e = (if absolute then d else d + t)
      in if in_llong d \<and> in_llong e then Some e else None)"

lemma expire_when_spec:
  "fst (expire_when amount unitMs absolute p) =
     wanted_deadline amount unitMs absolute (clock (database p) (readings (database p)))"
  by (auto simp: expire_when_def wanted_deadline_def Let_def now_def db_call_def add_overflow_def mul_overflow_def)

text \<open>\<open>poll\<close> waits for what is left of the interval, and the conversion to \<open>int\<close> loses nothing.\<close>

lemma pollTimeout_exact:
  assumes "config_ok c" "nextCron l = start + cronInterval c" "start \<le> current"
  shows "pollTimeout l current = max 0 ((nextCron l - current) div 1000000)" "pollTimeout l current \<le> 1000"
proof -
  let ?d = "nextCron l - current"
  have d: "?d \<le> 1000000000" using assms cronInterval_bounds(2) [OF assms(1)] by simp
  have m: "max (sgn ?d * (\<bar>?d\<bar> div 1000000)) 0 = max 0 (?d div 1000000)"
    by (cases "0 \<le> ?d") (auto simp: sgn_if max_def pos_imp_zdiv_nonneg_iff)
  have b: "0 \<le> max 0 (?d div 1000000)" "max 0 (?d div 1000000) \<le> 1000" using d by auto
  then have "sint (word_of_int (max 0 (?d div 1000000)) :: 32 word) = max 0 (?d div 1000000)"
    by (simp add: sint_sbintrunc' signed_take_bit_int_eq_self)
  with m show "pollTimeout l current = max 0 (?d div 1000000)" by (simp add: pollTimeout_def Let_def)
  with b(2) show "pollTimeout l current \<le> 1000" by simp
qed

end
