(* ===== verification/FKV_Command_Laws.thy ===== *)
theory FKV_Command_Laws
  imports FKV_Guards FKV_Live
begin

text \<open>
  Laws a client can rely on, over whole commands: what an accepted \<open>SET\<close> stored is what \<open>GET\<close>
  returns next, whatever the clock, the eviction policy and the append-only file do in between, and
  a key that \<open>DEL\<close> removed is gone; and what the four commands that set a deadline do with an amount,
  whether the deadline fits or not.
\<close>

section \<open>From a command to its handler\<close>

lemma lookup_commands:
  "map_of commandTable ''SET'' = Some (command_spec cmd_set (-3) True True)"
  "map_of commandTable ''GET'' = Some (command_spec cmd_get 2 False False)"
  "map_of commandTable ''DEL'' = Some (command_spec cmd_del (-2) True False)"
  by (simp_all add: commandTable_def)

lemma upper_names [simp]: "uppercase ''SET'' = ''SET''" "uppercase ''GET'' = ''GET''" "uppercase ''DEL'' = ''DEL''"
  by code_simp+

lemma execute_read:
  assumes "map_of commandTable name = Some (command_spec h n False oom)" "uppercase name = name" "name \<noteq> ''QUIT''"
    "\<not> arity_error n (name # args)"
  obtains q where "execute (name # args) p = call_handler (command_spec h n False oom) (name # args) q"
    "database q = database p" "aof q = aof p"
  using assms that by (fastforce simp: execute_def command_spec_def Let_def)

lemma execute_write:
  assumes "map_of commandTable name = Some (command_spec h n True oom)" "uppercase name = name" "name \<noteq> ''QUIT''"
    "\<not> arity_error n (name # args)" "db_inv (database p)"
    "execute (name # args) p = (Inr reply, p')" "\<not> is_error (payload reply)"
  obtains q where "call_handler (command_spec h n True oom) (name # args) q = (Inr reply, p')" "db_inv (database q)"
proof -
  let ?spec = "command_spec h n True oom"
  let ?p1 = "p\<lparr>serverStats := (serverStats p)\<lparr>totalCommands := totalCommands (serverStats p) + 1\<rparr>\<rparr>"
  have run: "run_write ?spec (name # args) ?p1 = (Inr reply, p')"
    using assms(1-4,6) by (simp add: execute_def command_spec_def)
  obtain fits q where q: "evict_and_log ?p1 = (Inr fits, q)" "db_inv (database q)"
    using evict_and_log_safe [of ?p1] assms(5) by (auto simp: safe_def)
  have healthy: "\<not> (case aof p of None \<Rightarrow> False | Some a \<Rightarrow> \<not> aof_healthy a)"
    using run assms(7) by (auto simp: run_write_def reply_of_def)
  moreover have "\<not> (\<not> fits \<and> oom)"
    using run healthy q(1) assms(7) by (auto simp: run_write_def and_then_def reply_of_def command_spec_def)
  ultimately have "call_handler ?spec (name # args) q = (Inr reply, p')"
    using run q(1) by (simp add: run_write_def and_then_def command_spec_def split: if_splits)
  with q(2) that show thesis by blast
qed

lemma propagate_database [simp]: "database (propagate args p) = database p"
  by (simp add: propagate_def split: option.split)

section \<open>\<open>SET\<close>, \<open>GET\<close>, \<open>DEL\<close>\<close>

lemma set_stores:
  assumes "db_inv (database p)" "execute [''SET'', k, v] p = (Inr reply, p')" "\<not> is_error (payload reply)"
  shows "reply = reply_of (respSimpleString ''OK'')" "db_inv (database p')"
    "abs_db (database p') k = Some (AString v, None)"
proof -
  obtain q where q: "call_handler (command_spec cmd_set (-3) True True) [''SET'', k, v] q = (Inr reply, p')"
    "db_inv (database q)"
    by (rule execute_write [OF lookup_commands(1) _ _ _ assms]) (simp_all add: arity_error_def)
  obtain present db where e: "db_exists k (database q) = (present, db)" by (metis surj_pair)
  have "db_inv db" using db_exists_refines [OF q(2), of k] e by (simp add: refines_def)
  note set = db_set_refines [OF this, of k v]
  have "reply = reply_of (respSimpleString ''OK'') \<and> database p' = db_set k v db"
    using q(1) e by (auto simp: call_handler_def command_spec_def cmd_set_def db_call_def catch_reply_def Let_def)
  with set show "reply = reply_of (respSimpleString ''OK'')" "db_inv (database p')"
    "abs_db (database p') k = Some (AString v, None)" by (simp_all add: spec_set_def)
qed

lemma get_reads:
  assumes "db_inv (database p)"
  shows "fst (execute [''GET'', k] p) =
    catch_reply (map_sum id nullableBulk (fst (spec_get (time_now (database p)) k (abs_db (database p)))))"
proof -
  obtain q where q: "execute [''GET'', k] p = call_handler (command_spec cmd_get 2 False False) [''GET'', k] q"
    "database q = database p"
    by (rule execute_read [OF lookup_commands(2), of "[k]" p]) (simp_all add: arity_error_def)
  obtain r db where g: "db_get k (database p) = (r, db)" by (metis surj_pair)
  with db_get_refines [OF assms, of k] have "r = fst (spec_get (time_now (database p)) k (abs_db (database p)))"
    by (simp add: refines_def)
  moreover have "fst (execute [''GET'', k] p) = catch_reply (map_sum id nullableBulk r)"
    using q g by (cases r) (auto simp: call_handler_def command_spec_def cmd_get_def and_then_def db_call_def)
  ultimately show ?thesis by simp
qed

lemma spec_get_string: "m k = Some (AString v, None) \<Longrightarrow> fst (spec_get t k m) = Inr (Some v)"
  by (simp add: spec_get_def spec_read_def purge_def expired_at_def)

lemma spec_get_missing: "m k = None \<Longrightarrow> fst (spec_get t k m) = Inr None"
  by (simp add: spec_get_def spec_read_def purge_def)

lemma del_removes:
  assumes "db_inv (database p)" "execute [''DEL'', k] p = (Inr reply, p')" "\<not> is_error (payload reply)"
  shows "db_inv (database p')" "abs_db (database p') k = None"
proof -
  obtain q where q: "call_handler (command_spec cmd_del (-2) True False) [''DEL'', k] q = (Inr reply, p')"
    "db_inv (database q)"
    by (rule execute_write [OF lookup_commands(3) _ _ _ assms]) (simp_all add: arity_error_def)
  obtain gone db where d: "db_del k (database q) = (gone, db)" by (metis surj_pair)
  have "database p' = db"
    using q(1) d by (auto simp: call_handler_def command_spec_def cmd_del_def db_call_def Let_def split: if_splits)
  with db_del_refines [OF q(2), of k] d show "db_inv (database p')" "abs_db (database p') k = None"
    by (simp_all add: refines_def spec_del_def Let_def)
qed

lemma set_get:
  assumes "db_inv (database p)" "execute [''SET'', k, v] p = (Inr reply, p')" "\<not> is_error (payload reply)"
  shows "fst (execute [''GET'', k] p') = Inr (reply_of (respBulkString v))"
  using get_reads [OF set_stores(2) [OF assms], of k] set_stores(3) [OF assms]
  by (simp add: spec_get_string catch_reply_def nullableBulk_def)

lemma del_get:
  assumes "db_inv (database p)" "execute [''DEL'', k] p = (Inr reply, p')" "\<not> is_error (payload reply)"
  shows "fst (execute [''GET'', k] p') = Inr (reply_of respNull)"
  using get_reads [OF del_removes(1) [OF assms], of k] del_removes(2) [OF assms]
  by (simp add: spec_get_missing catch_reply_def nullableBulk_def)

section \<open>\<open>EXPIRE\<close>, \<open>PEXPIRE\<close>, \<open>EXPIREAT\<close>, \<open>PEXPIREAT\<close>\<close>

text \<open>The unit in milliseconds, and whether the amount is a point in time.\<close>

definition expiry_command :: "bytes \<Rightarrow> (int \<times> bool) option" where
  "expiry_command name =
     map_of [(''EXPIRE'', 1000, False), (''PEXPIRE'', 1, False), (''EXPIREAT'', 1000, True), (''PEXPIREAT'', 1, True)] name"

text \<open>
  What a deadline \<open>d\<close> that fits does to a key which is looked up at time \<open>t\<close>: a missing key stays missing, a
  live one gets the deadline, or is removed when the deadline has come at \<open>t'\<close>; the log says the same.
\<close>

definition deadline_effect :: "bytes \<Rightarrow> int \<Rightarrow> int \<Rightarrow> int \<Rightarrow> CommandProcessor \<Rightarrow> bytes \<Rightarrow> CommandProcessor \<Rightarrow> bool" where
  "deadline_effect key d t t' p reply p' \<longleftrightarrow>
     (let m = abs_db (database p); m' = abs_db (database p') in
      case live t m key of
        None \<Rightarrow> reply = respInteger 0 \<and> m' = m(key := None) \<and> aof p' = aof p
      | Some (v, _) \<Rightarrow> reply = respInteger 1 \<and>
          (if d \<le> t' then m' = m(key := None) \<and> aof p' = map_option (aof_append [''DEL'', key]) (aof p)
           else m' = m(key \<mapsto> (v, Some d)) \<and> aof p' = map_option (aof_append [''PEXPIREAT'', key, to_string d]) (aof p)))"

lemma expire_when_reads:
  "\<exists>n. expire_when amount u b p = (wanted_deadline amount u b (time_now (database p)), p\<lparr>database := (database p)\<lparr>readings := n\<rparr>\<rparr>)"
proof -
  have "p = p\<lparr>database := (database p)\<lparr>readings := readings (database p)\<rparr>\<rparr>" by simp
  then show ?thesis
    by (auto simp: expire_when_def wanted_deadline_def Let_def now_def db_call_def add_overflow_def mul_overflow_def
        intro: exI [of _ "readings (database p)"] exI [of _ "Suc (readings (database p))"])
qed

lemma purge_key: "purge t k m = m(k := live t m k)"
  by (auto simp: purge_def live_def fun_eq_iff split: option.splits)

lemma propagate_log [simp]: "aof (propagate args p) = map_option (aof_append args) (aof p)"
  by (simp add: propagate_def split: option.split)

lemma expireGeneric_effect:
  assumes "db_inv (database p)" "cmd_parseInteger num = Some amount"
    "wanted_deadline amount u b (time_now (database p)) = Some d"
  shows "\<exists>reply p' i j. expireGeneric [cmd, k, num] u b p = (Inr reply, p') \<and>
    deadline_effect k d (clock (database p) i) (clock (database p) j) p reply p'"
proof -
  let ?m = "abs_db (database p)" and ?c = "clock (database p)"
  obtain n where w: "expire_when amount u b p = (Some d, p\<lparr>database := (database p)\<lparr>readings := n\<rparr>\<rparr>)"
    using expire_when_reads [of amount u b p] assms(3) by auto
  let ?db1 = "(database p)\<lparr>readings := n\<rparr>"
  obtain ok db2 where e: "expireAtMs_op k d ?db1 = (ok, db2)" by (metis surj_pair)
  obtain found db3 where x: "db_exists k db2 = (found, db3)" by (metis surj_pair)
  obtain j where j: "time_after k ?db1 = ?c j" using conf_findLive [of k ?db1] by (simp add: conf_def)
  have clock2: "clock db2 = ?c" using conf_ops(7) [of k d ?db1] e by (simp add: conf_def)
  have "refines (ok, db2) (spec_expire_at d (?c n) (?c j) k ?m)"
    using expireAtMs_refines [of ?db1 k d] assms(1) e j by simp
  then have two: "db_inv db2" "(ok, abs_db db2) = spec_expire_at d (?c n) (?c j) k ?m" by (simp_all add: refines_def)
  have "refines (found, db3) (spec_exists (?c (readings db2)) k (abs_db db2))"
    using db_exists_refines [OF two(1), of k] x clock2 by simp
  then have three: "found = (live (?c (readings db2)) (abs_db db2) k \<noteq> None)"
    "abs_db db3 = (abs_db db2)(k := live (?c (readings db2)) (abs_db db2) k)"
    by (simp_all add: refines_def spec_exists_def Let_def purge_key)
  note run = expireGeneric_def db_call_def Let_def w e x assms(2) propagateExpiry_def
  show ?thesis
  proof (cases "live (?c n) ?m k")
    case None
    with two(2) have "\<not> ok" "abs_db db2 = ?m(k := None)" by (simp_all add: spec_expire_at_def Let_def purge_key)
    with None have "expireGeneric [cmd, k, num] u b p = (Inr (respInteger 0), p\<lparr>database := db2\<rparr>)"
      "deadline_effect k d (?c n) (?c j) p (respInteger 0) (p\<lparr>database := db2\<rparr>)"
      by (simp_all add: run deadline_effect_def)
    then show ?thesis by blast
  next
    case (Some ve)
    obtain v old where ve: "ve = (v, old)" by (cases ve)
    let ?i = "if d \<le> ?c j then j else readings db2"
    let ?p = "if d \<le> ?c ?i then propagate [''DEL'', k] (p\<lparr>database := db3\<rparr>) else propagateExpiry k d (p\<lparr>database := db3\<rparr>)"
    have ok: "ok" "abs_db db2 = ?m(k := (if d \<le> ?c j then None else Some (v, Some d)))"
      using two(2) Some ve by (simp_all add: spec_expire_at_def Let_def purge_key)
    have "found = (\<not> d \<le> ?c ?i)" "abs_db db3 = ?m(k := (if d \<le> ?c ?i then None else Some (v, Some d)))"
      unfolding three ok(2) by (simp_all add: live_def expired_at_def)
    with ok(1) Some ve have "expireGeneric [cmd, k, num] u b p = (Inr (respInteger 1), ?p)"
      "deadline_effect k d (?c n) (?c ?i) p (respInteger 1) ?p"
      by (simp_all add: run deadline_effect_def)
    then show ?thesis by blast
  qed
qed

text \<open>From the command to \<open>expireGeneric\<close>, when the log can be written and the memory limit holds.\<close>

lemma lookup_expiry:
  assumes "expiry_command name = Some (u, b)"
  shows "\<exists>h. map_of commandTable name = Some (command_spec h 3 True False) \<and> (\<forall>args. h args = expireGeneric args u b)"
    "name \<noteq> ''QUIT''"
proof -
  have h: "map_of commandTable ''EXPIRE'' = Some (command_spec cmd_expire 3 True False)"
    "map_of commandTable ''PEXPIRE'' = Some (command_spec cmd_pexpire 3 True False)"
    "map_of commandTable ''EXPIREAT'' = Some (command_spec cmd_expireat 3 True False)"
    "map_of commandTable ''PEXPIREAT'' = Some (command_spec cmd_pexpireat 3 True False)"
    by (simp_all add: commandTable_def)
  have "(name, u, b) \<in> {(''EXPIRE'', 1000, False), (''PEXPIRE'', 1, False), (''EXPIREAT'', 1000, True), (''PEXPIREAT'', 1, True)}"
    using map_of_SomeD [OF assms [unfolded expiry_command_def]] by simp
  with h show "\<exists>h. map_of commandTable name = Some (command_spec h 3 True False) \<and> (\<forall>args. h args = expireGeneric args u b)"
    "name \<noteq> ''QUIT''"
    by (auto simp: cmd_expire_def cmd_pexpire_def cmd_expireat_def cmd_pexpireat_def)
qed

lemma execute_expiry:
  assumes "expiry_command (uppercase cmd) = Some (u, b)" "pred_option aof_healthy (aof p)"
    "memoryLimit (database p) = 0 \<or> memoryUsed (database p) \<le> memoryLimit (database p)"
  shows "\<exists>q. database q = database p \<and> aof q = aof p \<and>
    execute [cmd, k, num] p = (let (r, p') = expireGeneric [cmd, k, num] u b q in (catch_reply r, p'))"
proof -
  let ?q = "p\<lparr>serverStats := (serverStats p)\<lparr>totalCommands := totalCommands (serverStats p) + 1\<rparr>\<rparr>"
  obtain h where h: "map_of commandTable (uppercase cmd) = Some (command_spec h 3 True False)" "\<And>args. h args = expireGeneric args u b"
    using lookup_expiry(1) [OF assms(1)] by blast
  have "evict_and_log ?q = (Inr True, ?q)"
    using assms(3) by (auto simp: evict_and_log_def evictIfNeeded_def propagate_dels_def)
  then have "execute [cmd, k, num] p = call_handler (command_spec h 3 True False) [cmd, k, num] ?q"
    using h(1) lookup_expiry(2) [OF assms(1)] assms(2)
    by (auto simp: execute_def command_spec_def arity_error_def run_write_def and_then_def Let_def split: option.split)
  with h(2) show ?thesis by (intro exI [of _ ?q]) (simp add: call_handler_def command_spec_def)
qed

lemma expiry_refused:
  assumes "expiry_command (uppercase cmd) = Some (u, b)" "pred_option aof_healthy (aof p)"
    "memoryLimit (database p) = 0 \<or> memoryUsed (database p) \<le> memoryLimit (database p)"
    "cmd_parseInteger num = Some amount" "wanted_deadline amount u b (time_now (database p)) = None"
  shows "\<exists>p' n. execute [cmd, k, num] p =
      (Inr (reply_of (respError (''invalid expire time in '' @ [SQUOTE] @ lowercase cmd @ [SQUOTE] @ '' command''))), p') \<and>
    database p' = (database p)\<lparr>readings := n\<rparr> \<and> aof p' = aof p"
proof -
  obtain q where q: "database q = database p" "aof q = aof p"
    "execute [cmd, k, num] p = (let (r, p') = expireGeneric [cmd, k, num] u b q in (catch_reply r, p'))"
    using execute_expiry [OF assms(1-3)] by blast
  obtain n where "expire_when amount u b q = (None, q\<lparr>database := (database q)\<lparr>readings := n\<rparr>\<rparr>)"
    using expire_when_reads [of amount u b q] assms(5) q(1) by auto
  with q assms(4) show ?thesis
    by (intro exI [of _ "q\<lparr>database := (database q)\<lparr>readings := n\<rparr>\<rparr>"] exI [of _ n]) (simp add: expireGeneric_def catch_reply_def)
qed

lemma expiry_accepted:
  assumes "expiry_command (uppercase cmd) = Some (u, b)" "pred_option aof_healthy (aof p)"
    "memoryLimit (database p) = 0 \<or> memoryUsed (database p) \<le> memoryLimit (database p)"
    "cmd_parseInteger num = Some amount" "wanted_deadline amount u b (time_now (database p)) = Some d" "db_inv (database p)"
  shows "\<exists>reply p' i j. execute [cmd, k, num] p = (Inr (reply_of reply), p') \<and>
    deadline_effect k d (clock (database p) i) (clock (database p) j) p reply p'"
proof -
  obtain q where q: "database q = database p" "aof q = aof p"
    "execute [cmd, k, num] p = (let (r, p') = expireGeneric [cmd, k, num] u b q in (catch_reply r, p'))"
    using execute_expiry [OF assms(1-3)] by blast
  obtain reply p' i j where e: "expireGeneric [cmd, k, num] u b q = (Inr reply, p')"
    "deadline_effect k d (clock (database p) i) (clock (database p) j) q reply p'"
    using expireGeneric_effect [of q num amount u b d cmd k] assms(4-6) q(1) by auto
  have "execute [cmd, k, num] p = (Inr (reply_of reply), p')" using q(3) e(1) by (simp add: catch_reply_def)
  moreover have "deadline_effect k d (clock (database p) i) (clock (database p) j) p reply p'"
    using e(2) unfolding deadline_effect_def q(1,2) .
  ultimately show ?thesis by blast
qed

end
