(* ===== verification/FKV_Shell.thy ===== *)
theory FKV_Shell
  imports FKV_Replies FKV_Database_Expiry
begin

text \<open>
  The two front ends without a network: the interactive shell of \<open>src/src/main.cpp\<close> and the
  WebAssembly bindings of \<open>src/web/flashkv_wasm.cpp\<close>. Standard input is the list of the lines that
  \<open>getline\<close> returns before it fails, standard output the bytes written. The time budget of an
  expiration cycle is decided by the environment, as everywhere. The shell is shown to work through its
  lines: what it executes and prints is given line by line, up to the one that leaves it.
\<close>

section \<open>The shell\<close>

definition prompt :: bytes where "prompt = ''flashkv> ''"

text \<open>The loop of \<open>main\<close>: \<open>i\<close> counts its iterations, \<open>out\<close> is what has been written.\<close>

fun shell_loop :: "(nat \<Rightarrow> nat \<Rightarrow> bool) \<Rightarrow> nat \<Rightarrow> bytes list \<Rightarrow> bytes \<Rightarrow> CommandProcessor \<Rightarrow> (exn + bytes) \<times> CommandProcessor" where
  "shell_loop budget i [] out p = (Inr (out @ prompt), p)"
| "shell_loop budget i (line # lines) out p =
     (case tokenizeCommandLine line of
        None \<Rightarrow>
          shell_loop budget (Suc i) lines (out @ prompt @ ''Invalid argument(s): unbalanced quotes'' @ [LF]) p
      | Some args \<Rightarrow>
          if args = [] then shell_loop budget (Suc i) lines (out @ prompt) p
          else
            (let command = uppercase (args ! 0) in
             if command = ''EXIT'' \<or> command = ''QUIT'' then (Inr (out @ prompt), p)
             else
               (case db_call (activeExpireCycle 20 (budget i)) p of
                  (Inl e, p1) \<Rightarrow> (Inl e, p1)
                | (Inr _, p1) \<Rightarrow>
                    (case execute args p1 of
                       (Inl e, p2) \<Rightarrow> (Inl e, p2)
                     | (Inr reply, p2) \<Rightarrow>
                         shell_loop budget (Suc i) lines
                           (out @ prompt @ formatReply (payload reply) (command = ''INFO'') @ [LF]) p2))))"

definition shell_banner :: bytes where
  "shell_banner = ''FlashKV '' @ FLASHKV_VERSION @ '' local shell'' @ [LF] @
     ''Type Redis commands (SET, GET, LPUSH, HSET, ...). EXIT or QUIT to leave.'' @ [LF]"

definition shell_main :: "(nat \<Rightarrow> nat \<Rightarrow> bool) \<Rightarrow> bytes list \<Rightarrow> Database \<Rightarrow> (exn + bytes) \<times> CommandProcessor" where
  "shell_main budget lines db =
     (let (r, p) = shell_loop budget 0 lines shell_banner (new_processor db None)
      in (map_sum id (\<lambda>out. out @ ''FlashKV stopped'' @ [LF]) r, p))"

section \<open>The WebAssembly bindings\<close>

text \<open>The static objects: the processor with its database, and the buffer that is returned.\<close>

record Wasm =
  wasm_processor :: CommandProcessor
  outputBuffer :: bytes

definition json_char :: "char \<Rightarrow> bytes" where
  "json_char character =
     (if character = DQUOTE then [BACKSLASH, DQUOTE]
      else if character = BACKSLASH then [BACKSLASH, BACKSLASH]
      else if character = LF then [BACKSLASH, CHR ''n'']
      else if character = CR then [BACKSLASH, CHR ''r'']
      else if character = TAB then [BACKSLASH, CHR ''t'']
      else if byte character < 0x20
      then [BACKSLASH, CHR ''u'', CHR ''0'', CHR ''0'', hex_digit (byte character div 16), hex_digit (byte character mod 16)]
      else [character])"

definition appendJsonString :: "bytes \<Rightarrow> bytes \<Rightarrow> bytes" where
  "appendJsonString json v = json @ [DQUOTE] @ concat (map json_char v) @ [DQUOTE]"

definition PREVIEW_ITEMS :: nat where "PREVIEW_ITEMS = 6"

definition PREVIEW_CHARS :: nat where "PREVIEW_CHARS = 48"

text \<open>The ellipsis is three bytes in UTF-8.\<close>

definition truncate :: "bytes \<Rightarrow> bytes" where
  "truncate v = (if length v \<le> PREVIEW_CHARS then v else take PREVIEW_CHARS v @ [CHR 0xE2, CHR 0x80, CHR 0xA6])"

text \<open>The length and the items of the preview of a list, a hash or a set.\<close>

fun preview_items :: "Value \<Rightarrow> nat \<times> bytes list" where
  "preview_items (StringValue s) = (0, [])"
| "preview_items (ListValue l) = (length l, map truncate (take (min PREVIEW_ITEMS (length l)) l))"
| "preview_items (HashValue h) =
     (let fs = sort (map (\<lambda>(f, v). truncate f @ '': '' @ truncate v) h)
      in (length h, take (min PREVIEW_ITEMS (length fs)) fs))"
| "preview_items (SetValue s) =
     (let ms = sort s in (length s, map truncate (take (min PREVIEW_ITEMS (length ms)) ms)))"

fun append_items :: "bytes \<Rightarrow> nat \<Rightarrow> bytes list \<Rightarrow> bytes" where
  "append_items json i [] = json"
| "append_items json i (x # xs) =
     append_items (appendJsonString (if i > 0 then json @ '','' else json) x) (Suc i) xs"

definition json_name :: "bytes \<Rightarrow> bytes" where
  "json_name s = [DQUOTE] @ s @ [DQUOTE] @ '':''"

definition appendPreview :: "bytes \<Rightarrow> Value \<Rightarrow> bytes" where
  "appendPreview json v =
     (case v of
        StringValue s \<Rightarrow>
          appendJsonString (json @ json_name ''length'' @ to_string_nat (length s) @ '','' @ json_name ''preview'') (truncate s)
      | _ \<Rightarrow>
          (let (len, items) = preview_items v
           in append_items (json @ json_name ''length'' @ to_string_nat len @ '','' @ json_name ''preview'' @ ''['') 0 items @ '']''))"

definition flashkv_execute :: "bytes \<Rightarrow> Wasm \<Rightarrow> (exn + bytes) \<times> Wasm" where
  "flashkv_execute line w =
     (case tokenizeCommandLine line of
        None \<Rightarrow>
          (let o1 = ''e(error) Invalid argument(s): unbalanced quotes'' in (Inr o1, w\<lparr>outputBuffer := o1\<rparr>))
      | Some args \<Rightarrow>
          if args = [] then (Inr [], w\<lparr>outputBuffer := []\<rparr>)
          else
            (let command = uppercase (args ! 0) in
             case execute args (wasm_processor w) of
               (Inl e, p1) \<Rightarrow> (Inl e, w\<lparr>wasm_processor := p1\<rparr>)
             | (Inr reply, p1) \<Rightarrow>
                 (let formatted = formatReply (payload reply) (command = ''INFO'');
                      kind = (if payload reply \<noteq> [] \<and> payload reply ! 0 = CHR ''-'' then CHR ''e''
                              else if payload reply = ''$-1'' @ CRLF then CHR ''n'' else CHR ''v'');
                      o1 = kind # formatted
                  in (Inr o1, w\<lparr>wasm_processor := p1, outputBuffer := o1\<rparr>))))"

text \<open>The number of removed keys is cast to \<open>int\<close>.\<close>

definition flashkv_tick :: "(nat \<Rightarrow> bool) \<Rightarrow> Wasm \<Rightarrow> (exn + 32 word) \<times> Wasm" where
  "flashkv_tick budget w =
     (let (r, p) = db_call (activeExpireCycle 20 budget) (wasm_processor w)
      in (map_sum id of_nat r, w\<lparr>wasm_processor := p\<rparr>))"

definition json_key :: "bytes \<Rightarrow> KeyInfo \<Rightarrow> bytes" where
  "json_key key info =
     appendPreview
       (appendJsonString (''{'' @ json_name ''key'') key @
        '','' @ json_name ''type'' @ [DQUOTE] @ valueTypeName (info_type info) @ [DQUOTE] @
        '','' @ json_name ''ttlMs'' @ to_string (info_ttlMs info) @
        '','' @ json_name ''memory'' @ to_string_nat (unat (info_memory info)) @ '','')
       (info_value info) @ ''}''"

fun json_keys :: "bytes list \<Rightarrow> bool \<Rightarrow> bytes \<Rightarrow> Database \<Rightarrow> bytes \<times> Database" where
  "json_keys [] first json db = (json, db)"
| "json_keys (key # ks) first json db =
     (case inspect key db of
        (None, db1) \<Rightarrow> json_keys ks first json db1
      | (Some info, db1) \<Rightarrow> json_keys ks False (json @ (if first then [] else '','') @ json_key key info) db1)"

definition flashkv_state_json :: "Wasm \<Rightarrow> bytes \<times> Wasm" where
  "flashkv_state_json w =
     (let p = wasm_processor w; db = database p; st = statistics db; num = (\<lambda>x. to_string_nat (unat x));
          head = ''{'' @ json_name ''usedMemory'' @ num (memoryUsed db) @
            '','' @ json_name ''maxMemory'' @ num (memoryLimit db) @
            '','' @ json_name ''policy'' @ [DQUOTE] @ evictionPolicyName (policy db) @ [DQUOTE] @
            '','' @ json_name ''expiredKeys'' @ num (expiredKeys st) @
            '','' @ json_name ''evictedKeys'' @ num (evictedKeys st) @
            '','' @ json_name ''hits'' @ num (keyspaceHits st) @
            '','' @ json_name ''misses'' @ num (keyspaceMisses st) @
            '','' @ json_name ''commands'' @ num (totalCommands (serverStats p)) @
            '','' @ json_name ''keys'' @ ''['';
          (json, db1) = json_keys (keysByRecency db) True head db;
          out = json @ '']}''
      in (out, w\<lparr>wasm_processor := p\<lparr>database := db1\<rparr>, outputBuffer := out\<rparr>))"

section \<open>The shell keeps running\<close>

lemma cycle_total:
  assumes "db_inv (database p)"
  obtains m q where "db_call (activeExpireCycle 20 b) p = (Inr m, q)" "db_inv (database q)"
    "aof q = aof p" "serverStats q = serverStats p"
    "reaps (time_now (database p)) m (database p) (database q)"
proof -
  obtain m db' where "activeExpireCycle 20 b (database p) = (Inr m, db')"
    "reaps (time_now (database p)) m (database p) db'"
    using activeExpireCycle_reaps [OF assms] by blast
  then show thesis using that by (simp add: db_call_def reaps_def)
qed

text \<open>
  What the shell is to do with the lines it reads: it stops in front of the first \<open>EXIT\<close> or \<open>QUIT\<close>; the
  commands up to there are executed in order, each after an expiration cycle; and every line is
  answered after its prompt, by nothing when it is blank, by a complaint when its quotes are unbalanced, by the
  formatted reply when it is a command.
\<close>

definition leaves_shell :: "bytes list option \<Rightarrow> bool" where
  "leaves_shell line \<longleftrightarrow> (\<exists>args. line = Some args \<and> args \<noteq> [] \<and> uppercase (args ! 0) \<in> {''EXIT'', ''QUIT''})"

definition served_lines :: "bytes list \<Rightarrow> bytes list option list" where
  "served_lines lines = takeWhile (\<lambda>line. \<not> leaves_shell line) (map tokenizeCommandLine lines)"

definition commands_in :: "bytes list option list \<Rightarrow> bytes list list" where
  "commands_in ins = filter (\<lambda>args. args \<noteq> []) (List.map_filter id ins)"

inductive works_through :: "bytes list list \<Rightarrow> CommandProcessor \<Rightarrow> CommandReply list \<Rightarrow> CommandProcessor \<Rightarrow> bool" where
  finished: "works_through [] p [] p"
| command: "activeExpireCycle 20 budget (database p) = (Inr n, db) \<Longrightarrow> execute args (p\<lparr>database := db\<rparr>) = (Inr reply, q) \<Longrightarrow>
    works_through cmds q rs p' \<Longrightarrow> works_through (args # cmds) p (reply # rs) p'"

fun transcript :: "bytes list option list \<Rightarrow> CommandReply list \<Rightarrow> bytes" where
  "transcript [] rs = []"
| "transcript (None # ins) rs = prompt @ ''Invalid argument(s): unbalanced quotes'' @ [LF] @ transcript ins rs"
| "transcript (Some [] # ins) rs = prompt @ transcript ins rs"
| "transcript (Some (name # args) # ins) rs =
     prompt @ formatReply (payload (hd rs)) (uppercase name = ''INFO'') @ [LF] @ transcript ins (tl rs)"

lemma commands_in_simps [simp]:
  "commands_in [] = []" "commands_in (None # ins) = commands_in ins" "commands_in (Some [] # ins) = commands_in ins"
  "commands_in (Some (name # args) # ins) = (name # args) # commands_in ins"
  by (simp_all add: commands_in_def List.map_filter_def)

lemma served_lines_Cons:
  "served_lines (line # lines) =
     (if leaves_shell (tokenizeCommandLine line) then [] else tokenizeCommandLine line # served_lines lines)"
  by (simp add: served_lines_def)

lemma shell_loop_serves:
  assumes "db_inv (database p)"
  shows "\<exists>rs p'. shell_loop b i lines out p = (Inr (out @ transcript (served_lines lines) rs @ prompt), p') \<and>
    works_through (commands_in (served_lines lines)) p rs p' \<and> db_inv (database p')"
  using assms
proof (induction lines arbitrary: i out p)
  case Nil
  then show ?case by (auto simp: served_lines_def intro: works_through.finished)
next
  case (Cons line lines)
  consider "tokenizeCommandLine line = None" | "tokenizeCommandLine line = Some []" | "leaves_shell (tokenizeCommandLine line)"
    | name args where "tokenizeCommandLine line = Some (name # args)" "\<not> leaves_shell (tokenizeCommandLine line)"
    by (metis list.exhaust option.exhaust)
  then show ?case
  proof cases
    case 1
    with Cons.IH [OF Cons.prems, of "Suc i" "out @ prompt @ ''Invalid argument(s): unbalanced quotes'' @ [LF]"] show ?thesis
      by (simp add: served_lines_Cons leaves_shell_def)
  next
    case 2
    with Cons.IH [OF Cons.prems, of "Suc i" "out @ prompt"] show ?thesis by (simp add: served_lines_Cons leaves_shell_def)
  next
    case 3
    then have "shell_loop b i (line # lines) out p = (Inr (out @ prompt), p)" by (auto simp: leaves_shell_def Let_def)
    with 3 Cons.prems show ?thesis by (auto simp: served_lines_Cons intro: works_through.finished)
  next
    case 4
    obtain m q where q: "db_call (activeExpireCycle 20 (b i)) p = (Inr m, q)" "db_inv (database q)"
      using cycle_total [OF Cons.prems] by metis
    obtain reply p1 where e: "execute (name # args) q = (Inr reply, p1)" "db_inv (database p1)" using execute_total [OF q(2)] by blast
    let ?text = "prompt @ formatReply (payload reply) (uppercase name = ''INFO'') @ [LF]"
    from Cons.IH [OF e(2), of "Suc i" "out @ ?text"] obtain rs p' where
      r: "shell_loop b (Suc i) lines (out @ ?text) p1 = (Inr ((out @ ?text) @ transcript (served_lines lines) rs @ prompt), p')"
      "works_through (commands_in (served_lines lines)) p1 rs p'" "db_inv (database p')" by blast
    have "works_through ((name # args) # commands_in (served_lines lines)) p (reply # rs) p'"
      by (rule works_through.command [where db = "database q", OF _ _ r(2)])
        (use q(1) e(1) in \<open>auto simp: db_call_def split: prod.splits\<close>)
    with 4 q(1) e(1) r(1,3) show ?thesis
      by (intro exI [of _ "reply # rs"] exI [of _ p']) (simp add: served_lines_Cons leaves_shell_def Let_def)
  qed
qed

text \<open>A line made of quoted arguments runs the command with exactly these arguments.\<close>

definition quoted_line :: "bytes list \<Rightarrow> bytes" where
  "quoted_line args = concat (map (\<lambda>v. '' '' @ quote v) args)"

lemma tokenize_quoted: "tokenizeCommandLine (quoted_line args) = Some args"
  using tokenize_quoted_line [of "[]" args] by (simp add: tokenizeCommandLine_def quoted_line_def)

lemma shell_runs_command:
  assumes "args \<noteq> []" "uppercase (args ! 0) \<noteq> ''EXIT''" "uppercase (args ! 0) \<noteq> ''QUIT''"
    and "db_call (activeExpireCycle 20 (b i)) p = (Inr m, q)" "execute args q = (Inr reply, p')"
    and "payload reply = encode r" "well_formed r" "in_llong (int (length (payload reply)))"
  shows "shell_loop b i (quoted_line args # lines) out p =
    shell_loop b (Suc i) lines (out @ prompt @ render (uppercase (args ! 0) = ''INFO'') 0 r @ [LF]) p'"
  using assms formatReply_render [OF assms(7), of "[]"] by (simp add: tokenize_quoted Let_def)

section \<open>The bindings\<close>

lemma flashkv_execute_total:
  assumes "db_inv (database (wasm_processor w))"
  shows "\<exists>text w'. flashkv_execute line w = (Inr text, w') \<and> outputBuffer w' = text \<and>
    db_inv (database (wasm_processor w'))"
  using execute_total [OF assms] assms
  by (auto simp: flashkv_execute_def Let_def split: option.split prod.split sum.split)
    (metis Inr_inject prod.inject sum.distinct(1))+

text \<open>Reading the state moves only the clock readings on.\<close>

definition same_keyspace :: "Database \<Rightarrow> Database \<Rightarrow> bool" where
  "same_keyspace db db' \<longleftrightarrow> (\<exists>n. db' = db\<lparr>readings := n\<rparr>)"

lemma same_keyspace_refl [simp]: "same_keyspace db db"
  unfolding same_keyspace_def by (rule exI [of _ "readings db"]) simp

lemma same_keyspace_trans: "same_keyspace a b \<Longrightarrow> same_keyspace b c \<Longrightarrow> same_keyspace a c"
  by (auto simp: same_keyspace_def)

lemma inspect_reads: "same_keyspace db (snd (inspect key db))"
proof -
  have "same_keyspace db (db\<lparr>readings := n\<rparr>)" for n by (auto simp: same_keyspace_def)
  then show ?thesis by (simp add: inspect_def now_def Let_def split: option.split)
qed

text \<open>The keys that are shown, each with what \<open>inspect\<close> says about it at its clock reading.\<close>

fun inspected :: "bytes list \<Rightarrow> Database \<Rightarrow> (bytes \<times> KeyInfo) list \<times> Database" where
  "inspected [] db = ([], db)"
| "inspected (key # ks) db =
     (let (info, db1) = inspect key db; (rest, db2) = inspected ks db1
      in ((case info of None \<Rightarrow> [] | Some i \<Rightarrow> [(key, i)]) @ rest, db2))"

lemma inspected_reads: "same_keyspace db (snd (inspected ks db))"
proof (induction ks arbitrary: db)
  case (Cons key ks)
  show ?case
    using inspect_reads [of db key] Cons.IH [of "snd (inspect key db)"]
    by (auto simp: Let_def intro: same_keyspace_trans split: prod.splits)
qed simp

section \<open>The state as a JSON value\<close>

datatype json = JNum int | JStr bytes | JArr "json list" | JObj "(bytes \<times> json) list"

fun commas :: "bytes list \<Rightarrow> bytes" where
  "commas [] = []"
| "commas [x] = x"
| "commas (x # y # xs) = x @ '','' @ commas (y # xs)"

fun print_json :: "json \<Rightarrow> bytes" where
  "print_json (JNum n) = to_string n"
| "print_json (JStr s) = appendJsonString [] s"
| "print_json (JArr js) = ''['' @ commas (map print_json js) @ '']''"
| "print_json (JObj kvs) = ''{'' @ commas (map (\<lambda>(k, j). json_name k @ print_json j) kvs) @ ''}''"

definition preview_json :: "Value \<Rightarrow> (bytes \<times> json) list" where
  "preview_json v =
     (case v of
        StringValue s \<Rightarrow> [(''length'', JNum (int (length s))), (''preview'', JStr (truncate s))]
      | _ \<Rightarrow> [(''length'', JNum (int (fst (preview_items v)))),
              (''preview'', JArr (map JStr (snd (preview_items v))))])"

definition key_json :: "bytes \<times> KeyInfo \<Rightarrow> json" where
  "key_json ki =
     (case ki of (key, info) \<Rightarrow>
        JObj ([(''key'', JStr key), (''type'', JStr (valueTypeName (info_type info))),
               (''ttlMs'', JNum (info_ttlMs info)), (''memory'', JNum (uint (info_memory info)))] @
              preview_json (info_value info)))"

definition state_json :: "CommandProcessor \<Rightarrow> json" where
  "state_json p =
     (let db = database p; st = statistics db in
      JObj [(''usedMemory'', JNum (uint (memoryUsed db))), (''maxMemory'', JNum (uint (memoryLimit db))),
            (''policy'', JStr (evictionPolicyName (policy db))),
            (''expiredKeys'', JNum (uint (expiredKeys st))), (''evictedKeys'', JNum (uint (evictedKeys st))),
            (''hits'', JNum (uint (keyspaceHits st))), (''misses'', JNum (uint (keyspaceMisses st))),
            (''commands'', JNum (uint (totalCommands (serverStats p)))),
            (''keys'', JArr (map key_json (fst (inspected (keysByRecency db) db))))])"

lemma appendJsonString_prefix: "appendJsonString json s = json @ appendJsonString [] s"
  by (simp add: appendJsonString_def)

lemma commas_Cons: "commas (x # xs) = x @ (if xs = [] then [] else '','' @ commas xs)"
  by (cases xs) simp_all

lemma append_items_commas:
  "append_items json i xs = json @ (if i > 0 \<and> xs \<noteq> [] then '','' else []) @ commas (map (appendJsonString []) xs)"
proof (induction xs arbitrary: json i)
  case (Cons x xs)
  show ?case
    unfolding append_items.simps Cons.IH by (subst appendJsonString_prefix) (simp add: commas_Cons)
qed simp

lemma json_names_plain:
  "[DQUOTE] @ valueTypeName t @ [DQUOTE] = appendJsonString [] (valueTypeName t)"
  "[DQUOTE] @ evictionPolicyName pol @ [DQUOTE] = appendJsonString [] (evictionPolicyName pol)"
  by (cases t; simp add: valueTypeName_def appendJsonString_def json_char_def byte_def)
    (cases pol; simp add: evictionPolicyName_def appendJsonString_def json_char_def byte_def)

lemma appendPreview_json:
  "appendPreview json v = json @ commas (map (\<lambda>(k, j). json_name k @ print_json j) (preview_json v))"
  by (cases v)
    (simp_all add: appendPreview_def preview_json_def append_items_commas Let_def o_def
      appendJsonString_prefix [of "_ @ _"] appendJsonString_prefix [of "_ # _"])

lemma to_string_uint: "to_string (uint w) = to_string_nat (unat w)"
  by (metis to_string_int uint_nat)

lemma json_key_print: "json_key key info = print_json (key_json (key, info))"
proof -
  have "commas (a # b # c # d # ks) = a @ '','' @ b @ '','' @ c @ '','' @ d @ (if ks = [] then [] else '','') @ commas ks"
    for a b c d ks by (cases ks) simp_all
  moreover have "preview_json v \<noteq> []" for v by (cases v) (simp_all add: preview_json_def)
  ultimately show ?thesis
    using json_names_plain(1) [of "info_type info"]
    by (simp add: json_key_def key_json_def appendPreview_json to_string_uint
        appendJsonString_prefix [of "_ # _"])
qed

lemma json_keys_print:
  "json_keys ks first json db =
     (let (kis, db') = inspected ks db
      in (json @ (if first \<or> kis = [] then [] else '','') @ commas (map (print_json \<circ> key_json) kis), db'))"
proof (induction ks arbitrary: first json db)
  case (Cons key ks)
  obtain info db1 where i: "inspect key db = (info, db1)" by (cases "inspect key db")
  obtain kis db2 where r: "inspected ks db1 = (kis, db2)" by (cases "inspected ks db1")
  show ?case
    by (cases info; cases kis) (simp_all add: i r Cons.IH Let_def json_key_print)
qed (simp add: Let_def)

lemma flashkv_state_json_print:
  "flashkv_state_json w =
     (let p = wasm_processor w; out = print_json (state_json p)
      in (out, w\<lparr>wasm_processor := p\<lparr>database := snd (inspected (keysByRecency (database p)) (database p))\<rparr>,
                 outputBuffer := out\<rparr>))"
  using json_names_plain(2) [of "policy (database (wasm_processor w))"]
  by (simp add: flashkv_state_json_def state_json_def Let_def json_keys_print to_string_uint o_def split: prod.split)

section \<open>Escaped strings\<close>

text \<open>A reader of JSON string literals, after the opening quote.\<close>

fun json_string :: "bytes \<Rightarrow> (bytes \<times> bytes) option" where
  "json_string [] = None"
| "json_string (c # cs) =
     (if c = DQUOTE then Some ([], cs)
      else if byte c < 0x20 then None
      else if c \<noteq> BACKSLASH then map_option (\<lambda>(s, rest). (c # s, rest)) (json_string cs)
      else
        (case cs of
           [] \<Rightarrow> None
         | e # cs1 \<Rightarrow>
             if e = DQUOTE \<or> e = BACKSLASH \<or> e = CHR ''/''
             then map_option (\<lambda>(s, rest). (e # s, rest)) (json_string cs1)
             else if e = CHR ''n'' then map_option (\<lambda>(s, rest). (LF # s, rest)) (json_string cs1)
             else if e = CHR ''r'' then map_option (\<lambda>(s, rest). (CR # s, rest)) (json_string cs1)
             else if e = CHR ''t'' then map_option (\<lambda>(s, rest). (TAB # s, rest)) (json_string cs1)
             else if e = CHR ''u'' then
               (case cs1 of
                  h1 # h2 # h3 # h4 # cs2 \<Rightarrow>
                    if h1 = CHR ''0'' \<and> h2 = CHR ''0'' \<and> 0 \<le> hexValue h3 \<and> 0 \<le> hexValue h4
                    then map_option (\<lambda>(s, rest). (char_of (nat (hexValue h3 * 16 + hexValue h4)) # s, rest)) (json_string cs2)
                    else None
                | _ \<Rightarrow> None)
             else None))"

lemma json_string_char:
  "json_string (json_char c @ rest) = map_option (\<lambda>(s, r). (c # s, r)) (json_string rest)"
  by (auto simp: json_char_def byte_def hex_digits [unfolded byte_def])

lemma json_string_literal: "json_string (concat (map json_char v) @ DQUOTE # rest) = Some (v, rest)"
  by (induction v) (simp_all add: json_string_char del: json_string.simps(2), simp)

end
