(* ===== verification/FKV_Main.thy ===== *)
theory FKV_Main
  imports FKV_Loop FKV_Guards
begin

text \<open>
  The server program as a whole: \<open>createListener\<close>, the loop of \<open>Server::run\<close> over a sequence of
  iterations, and \<open>main\<close> of \<open>src/src/tcp_server.cpp\<close> from the command line to the exit status,
  with the destruction of the append-only file at its end. What the system calls of the start-up
  return is a \<open>Startup\<close>; each iteration of the loop has its \<open>Round\<close>.

  The lemmas say that every iteration of the loop ends when the system calls are not interrupted for
  ever, that no exception leaves \<open>main\<close> whatever the options, the file and the network are, that a
  shutdown writes the buffered log out, that a listener that could not be set up is
  closed again, and that a client with too many unread replies is not read from.
\<close>

section \<open>The program\<close>

text \<open>The results of the two calls of \<open>fcntl\<close>.\<close>

definition setNonBlocking :: "int \<Rightarrow> int \<Rightarrow> bool" where
  "setNonBlocking flags setResult = (flags \<noteq> -1 \<and> setResult \<noteq> -1)"

record ListenCalls =
  socketResult :: int
  ptonResult :: int
  bindResult :: int
  listenResult :: int
  getFlags :: int
  setFlags :: int

text \<open>The listener or \<open>-1\<close>, and the descriptors that were closed on the way.\<close>

definition createListener :: "ListenCalls \<Rightarrow> int \<times> int list" where
  "createListener e =
     (let listener = socketResult e in
      if listener = -1 then (-1, [])
      else if ptonResult e \<noteq> 1 then (-1, [listener])
      else if bindResult e = -1 then (-1, [listener])
      else if listenResult e = -1 \<or> \<not> setNonBlocking (getFlags e) (setFlags e) then (-1, [listener])
      else (listener, []))"

text \<open>
  \<open>run\<close>, as far as a sequence of rounds takes it: it is still in the loop, it returned a status, or
  an exception left it. An iteration that does not end makes the whole \<open>None\<close>.
\<close>

datatype run_result = InLoop EventLoop | Returned int Server | Escaped exn

fun run :: "ServerConfig \<Rightarrow> Round list \<Rightarrow> EventLoop \<Rightarrow> run_result option" where
  "run config [] l = Some (InLoop l)"
| "run config (r # rs) l =
     (case run_iteration config r l of
        None \<Rightarrow> None
      | Some (Running wire l1) \<Rightarrow> run config rs l1
      | Some (Stopped code s) \<Rightarrow> Some (Returned code s)
      | Some (Thrown e) \<Rightarrow> Some (Escaped e))"

record Startup =
  start_database :: Database
  start_os :: OS
  truncateResult :: "bytes option"
  openResult :: int
  openMessage :: bytes
  listenCalls :: ListenCalls
  steadyStart :: "int \<times> int"
  exitFsync :: bool

text \<open>How \<open>main\<close> ends: before there is a server, after it with what the system then holds, or not yet.\<close>

datatype main_result = Refused int | Exited int OS | Serving EventLoop | Uncaught exn

text \<open>The end of \<open>main\<close>: the append-only file is destroyed.\<close>

definition leave :: "bool \<Rightarrow> int \<Rightarrow> Server \<Rightarrow> main_result option" where
  "leave ok code s =
     (case aof (processor s) of
        None \<Rightarrow> Some (Exited code (os s))
      | Some a \<Rightarrow> map_option (\<lambda>(_, os1). Exited code os1) (aof_destroy ok a (os s)))"

definition server_main :: "bytes list \<Rightarrow> Startup \<Rightarrow> Round list \<Rightarrow> main_result option" where
  "server_main argv e rounds =
     (case parseArguments argv default_config of
        Help \<Rightarrow> Some (Refused 0)
      | Rejected \<Rightarrow> Some (Refused 1)
      | Parsed config \<Rightarrow>
          (case server_start config (truncateResult e) (openResult e) (openMessage e) (start_database e) (start_os e) of
             Inl err \<Rightarrow> Some (Refused 1)
           | Inr s \<Rightarrow>
               if fst (createListener (listenCalls e)) = -1 then leave (exitFsync e) 1 s
               else
                 (case run config rounds (start_loop config (fst (steadyStart e)) (snd (steadyStart e)) s) of
                    None \<Rightarrow> None
                  | Some (InLoop l) \<Rightarrow> Some (Serving l)
                  | Some (Escaped x) \<Rightarrow> Some (Uncaught x)
                  | Some (Returned code s1) \<Rightarrow> leave (exitFsync e) code s1)))"

section \<open>Nothing escapes\<close>

text \<open>Whatever the file holds, loading it runs commands only.\<close>

lemma load_loop_keeps:
  assumes "\<And>args s. I s \<Longrightarrow> I (snd (replay args s))" "I s"
  shows "I (fst (snd (load_loop replay trunc contents position n s)))"
  using assms
proof (induction replay trunc contents position n s rule: load_loop.induct)
  case (1 replay trunc contents position n s)
  let ?r = "parseRespCommand (drop position contents)"
  obtain ok e s1 where r: "replay (arguments ?r) s = ((ok, e), s1)" by (metis surj_pair)
  then have s1: "I s1" using "1.prems"(1) [OF "1.prems"(2), of "arguments ?r"] by simp
  show ?case
  proof (cases "position < length contents \<and> status ?r = Complete")
    case False
    with "1.prems"(2) show ?thesis
      by (subst load_loop.simps) (auto simp: Let_def split: RespParseStatus.split option.split)
  next
    case True
    then show ?thesis
      using "1.IH"(1) [OF _ refl _ refl] "1.IH"(2) [OF _ refl _ refl _ r [symmetric]] "1.prems" r s1
      by (subst load_loop.simps) (cases ok; simp add: Let_def)
  qed
qed

lemma replay_command_keeps: "db_inv (database q) \<Longrightarrow> db_inv (database (snd (replay_command args q)))"
  using execute_total [of q args] by (auto simp: replay_command_def)

lemma settings_inv:
  "db_inv (setMaxMemory n db) \<longleftrightarrow> db_inv db" "db_inv (setEvictionPolicy pol db) \<longleftrightarrow> db_inv db"
  by (simp_all add: setMaxMemory_def setEvictionPolicy_def db_inv_def db_struct_defs)

lemma server_start_inv:
  assumes "db_inv db" "server_start config trunc fd msg db os0 = Inr s"
  shows "server_inv s"
proof -
  have load: "db_inv (database (fst (snd (aof_load replay_command trunc fl (new_processor db None)))))" for fl
  proof -
    have "db_inv (database (new_processor db None))"
      using assms(1) by (simp add: new_processor_def now_def Let_def)
    then have "db_inv (database (fst (snd (load_loop replay_command trunc contents 0 0 (new_processor db None)))))" for contents
      using load_loop_keeps [of "\<lambda>q. db_inv (database q)" replay_command] replay_command_keeps by blast
    with \<open>db_inv (database (new_processor db None))\<close> show ?thesis
      by (simp add: aof_load_def split_def Let_def split: option.split)
  qed
  have new: "db_inv (database (new_processor d a)) = db_inv d \<and> connectedClients (serverStats (new_processor d a)) = 0" for d a
    by (simp add: new_processor_def now_def Let_def)
  show ?thesis
    using assms load [of "disk os0"] new
    by (auto simp: server_start_def new_server_def server_inv_def Let_def settings_inv split: if_splits prod.splits sum.splits)
qed

lemma run_iteration_code: "run_iteration config r l = Some (Stopped code s) \<Longrightarrow> code \<in> {0, 1}"
  by (auto simp: run_iteration_def split: if_splits poll_result.splits option.splits sum.splits prod.splits)

lemma run_returns:
  assumes "server_inv (server l)" "run config rounds l = Some x"
  shows "(\<exists>l'. x = InLoop l' \<and> server_inv (server l')) \<or> (\<exists>code s. x = Returned code s \<and> code \<in> {0, 1})"
  using assms
proof (induction rounds arbitrary: l)
  case (Cons r rounds)
  obtain y where y: "run_iteration config r l = Some y" using Cons.prems(2) by (cases "run_iteration config r l") simp_all
  from run_iteration_inv [OF Cons.prems(1) y] show ?case
  proof (elim disjE exE conjE)
    fix wire l' assume "y = Running wire l'" "server_inv (server l')"
    with y Cons.IH [of l'] Cons.prems(2) show ?case by simp
  next
    fix code s assume "y = Stopped code s"
    with y Cons.prems(2) run_iteration_code [of config r l code s] show ?case by auto
  qed
qed auto

lemma leave_exits: "leave ok code s = Some x \<Longrightarrow> \<exists>os1. x = Exited code os1"
  by (auto simp: leave_def split: option.splits)

lemma server_main_ends:
  assumes "db_inv (start_database e)" "server_main argv e rounds = Some x"
  shows "(\<exists>l. x = Serving l \<and> server_inv (server l)) \<or> (\<exists>code \<in> {0, 1}. x = Refused code \<or> (\<exists>os1. x = Exited code os1))"
proof (cases "parseArguments argv default_config")
  case (Parsed config)
  show ?thesis
  proof (cases "server_start config (truncateResult e) (openResult e) (openMessage e) (start_database e) (start_os e)")
    case (Inl err)
    with Parsed assms(2) show ?thesis by (simp add: server_main_def)
  next
    case (Inr s)
    let ?l = "start_loop config (fst (steadyStart e)) (snd (steadyStart e)) s"
    have inv: "server_inv (server ?l)" using server_start_inv [OF assms(1) Inr] by (simp add: start_loop_def)
    show ?thesis
    proof (cases "fst (createListener (listenCalls e)) = -1")
      case True
      with Parsed Inr assms(2) show ?thesis using leave_exits [of "exitFsync e" 1 s x] by (simp add: server_main_def)
    next
      case False
      then obtain y where y: "run config rounds ?l = Some y"
        using Parsed Inr assms(2) by (cases "run config rounds ?l") (simp_all add: server_main_def)
      from run_returns [OF inv y] show ?thesis
        using Parsed Inr assms(2) False y leave_exits by (auto simp: server_main_def)
    qed
  qed
qed (use assms(2) in \<open>simp_all add: server_main_def\<close>)

section \<open>Every iteration ends\<close>

text \<open>Calls of \<open>write\<close> and \<open>send\<close> are not interrupted for ever, connections do not come for ever.\<close>

definition writable :: "OS \<Rightarrow> bool" where
  "writable os0 \<longleftrightarrow> (\<forall>n. \<exists>m \<ge> n. writes os0 m \<noteq> Interrupted)"

definition responsive :: "Round \<Rightarrow> bool" where
  "responsive r \<longleftrightarrow> (\<exists>n. accepts r n \<in> {AcceptWouldBlock, AcceptError}) \<and>
     (\<forall>sock n. \<exists>m \<ge> n. sends r sock m \<noteq> SendInterrupted)"

lemma os_write_writes: "os_write bs os0 = (r, os1) \<Longrightarrow> writes os1 = writes os0"
  by (auto simp: os_write_def Let_def split: write_result.splits)

lemma flush_loop_keeps_writes:
  assumes "flush_loop b w os0 = Some r"
  shows "writes (snd (snd r)) = writes os0"
proof (rule flush_loop.raw_induct [OF _ assms], goal_cases)
  case (1 rec b w os0 r)
  then show ?case
    by (auto split: if_splits prod.splits write_result.splits dest!: os_write_writes)
qed

lemma aof_flush_keeps_writes:
  assumes "aof_flush a os0 = Some (ok, a', os1)"
  shows "writes os1 = writes os0"
  using assms by (auto simp: aof_flush_def split: if_splits option.splits bool.splits dest!: flush_loop_keeps_writes)

lemma flush_and_write_returns:
  assumes "writable (os s)" "\<And>n. \<exists>m \<ge> n. sd m \<noteq> SendInterrupted"
  shows "\<exists>r. flush_and_write sd c s = Some r"
proof -
  have "\<exists>f. aof_flush a (os s) = Some f" for a
    using assms(1) by (intro aof_flush_returns) (simp add: writable_def)
  moreover have "\<exists>w. writeToClient sd c = Some w" using assms(2) by (rule writeToClient_returns)
  ultimately show ?thesis
    by (auto simp: flush_and_write_def split: option.split) (metis option.distinct(1))
qed

lemma flush_and_write_os:
  "flush_and_write sd c s = Some (ok, sent, c', s') \<Longrightarrow> writable (os s') = writable (os s)"
  by (auto simp: flush_and_write_def writable_def split: if_splits option.splits dest!: aof_flush_keeps_writes)

lemma close_client_os [simp]: "os (close_client sock s) = os s"
  by (simp add: close_client_def Let_def)

lemma map_sum_Inr:
  assumes "map_sum f g z = Inr y"
  obtains x where "z = Inr x" "y = g x"
  using assms that by (cases z) auto

lemma handleClientEvents_stuck:
  assumes "handleClientEvents sock err inp rv sd s = None"
  shows "\<exists>c s1. flush_and_write sd c s1 = None \<and> os s1 = os s"
  using assms
  by (auto simp: handleClientEvents_def Let_def split: option.splits prod.splits sum.splits if_splits)
    (rule exI, rule exI, rule conjI, assumption, simp)+

lemma handleClientEvents_os:
  "handleClientEvents sock err inp rv sd s = Some (Inr (sent, s')) \<Longrightarrow> writable (os s') = writable (os s)"
  by (auto simp: handleClientEvents_def Let_def split: option.splits prod.splits sum.splits if_splits
      dest!: flush_and_write_os)

lemma handle_events_returns:
  assumes "responsive r" "writable (os s)"
  shows "\<exists>x. handle_events r ws s = Some x \<and> (\<forall>wire s'. x = Inr (wire, s') \<longrightarrow> writable (os s'))"
  using assms(2)
proof (induction ws arbitrary: s)
  case (Cons w ws)
  obtain k rd wr where w: "w = (k, rd, wr)" by (metis surj_pair)
  let ?h = "handleClientEvents k (pollErr (revents r k)) (rd \<and> pollIn (revents r k) \<or> pollHup (revents r k)) (recvs r k) (sends r k) s"
  obtain x where x: "?h = Some x"
    using handleClientEvents_stuck flush_and_write_returns Cons.prems assms(1)
    by (metis option.exhaust option.distinct(1) responsive_def)
  show ?case
  proof (cases x)
    case (Inl e)
    with x w show ?thesis by simp
  next
    case (Inr y)
    obtain sent s1 where y: "y = (sent, s1)" by (cases y)
    with x Inr Cons.prems have "writable (os s1)" using handleClientEvents_os by blast
    from Cons.IH [OF this] x Inr y w show ?thesis by (auto elim!: map_sum_Inr)
  qed
qed simp

lemma acceptClients_returns:
  assumes "ac n \<in> {AcceptWouldBlock, AcceptError}" "i \<le> n"
  shows "\<exists>s'. acceptClients ac i s = Some s' \<and> os s' = os s"
  using assms(2)
proof (induction "n - i" arbitrary: i s)
  case 0
  with assms show ?case by (subst acceptClients.simps) auto
next
  case (Suc d)
  then have "Suc i \<le> n" "d = n - Suc i" by simp_all
  with Suc.hyps(1) have "\<exists>s'. acceptClients ac (Suc i) t = Some s' \<and> os s' = os t" for t by blast
  moreover have "os (accept_client k s) = os s" for k by (simp add: accept_client_def Let_def)
  ultimately show ?case by (subst acceptClients.simps) (auto split: accept_result.split, metis)
qed

lemma background_os: "background_work config r l = Inr l' \<Longrightarrow> os (server l') = os (server l)"
  by (auto simp: background_work_def server_cron_def server_sync_def Let_def split: if_splits prod.splits sum.splits)

lemma run_iteration_returns:
  assumes "responsive r" "writable (os (server l))"
  shows "\<exists>x. run_iteration config r l = Some x \<and>
    (\<forall>wire l'. x = Running wire l' \<longrightarrow> writable (os (server l'))) \<and> (\<forall>code s. x = Stopped code s \<longrightarrow> writable (os s))"
proof (cases "shutdownRequested r \<or> poll_outcome r \<noteq> PollReady")
  case True
  with assms(2) show ?thesis by (cases "poll_outcome r") (auto simp: run_iteration_def)
next
  case False
  let ?a = "if listenerReady r then acceptClients (accepts r) 0 (server l) else Some (server l)"
  obtain s1 where s1: "?a = Some s1" "os s1 = os (server l)"
    using acceptClients_returns [of "accepts r" _ 0 "server l"] assms(1) by (metis responsive_def le0)
  then obtain x where x: "handle_events r (watched r (server l)) s1 = Some x" "\<forall>wire s'. x = Inr (wire, s') \<longrightarrow> writable (os s')"
    using handle_events_returns [OF assms(1), of s1 "watched r (server l)"] assms(2) by metis
  show ?thesis
  proof (cases x)
    case (Inl e)
    with False s1(1) x(1) show ?thesis by (simp add: run_iteration_def)
  next
    case (Inr y)
    obtain wire s2 where y: "y = (wire, s2)" by (cases y)
    show ?thesis
    proof (cases "background_work config r (l\<lparr>server := s2\<rparr>)")
      case (Inl e)
      with False s1(1) x(1) Inr y show ?thesis by (simp add: run_iteration_def)
    next
      case (Inr l1)
      then have "writable (os (server l1))" using background_os [OF Inr] x(2) \<open>x = Inr y\<close> y by simp
      with False s1(1) x(1) \<open>x = Inr y\<close> y Inr show ?thesis by (simp add: run_iteration_def)
    qed
  qed
qed

lemma run_total:
  assumes "\<forall>r \<in> set rounds. responsive r" "writable (os (server l))"
  shows "\<exists>x. run config rounds l = Some x \<and> (\<forall>code s. x = Returned code s \<longrightarrow> writable (os s))"
  using assms
proof (induction rounds arbitrary: l)
  case (Cons r rounds)
  from run_iteration_returns [of r l config] Cons.prems obtain y where y: "run_iteration config r l = Some y"
    "\<forall>wire l'. y = Running wire l' \<longrightarrow> writable (os (server l'))" "\<forall>code s. y = Stopped code s \<longrightarrow> writable (os s)"
    by auto
  then show ?case using Cons by (cases y) auto
qed simp

section \<open>Shutdown\<close>

text \<open>
  Leaving writes the buffered commands out: the file has everything that was appended, unless
  \<open>write\<close> fails; what it has then is a prefix.
\<close>

lemma leave_stores:
  assumes "aof (processor s) = Some a" "leave ok code s = Some (Exited c os1)"
  shows "\<exists>flushed a'. aof_flush a (os s) = Some (flushed, a', os1) \<and> prefix (disk_bytes os1) (stored a (os s)) \<and>
    (flushed \<longrightarrow> disk_bytes os1 = stored a (os s))"
proof -
  obtain flushed a' where f: "aof_flush a (os s) = Some (flushed, a', os1)"
    using assms by (auto simp: leave_def aof_destroy_def Let_def split_def)
  with stored_flush [OF f] show ?thesis by (auto simp: stored_def prefix_def) metis
qed

lemma leave_returns:
  assumes "\<And>n. \<exists>m \<ge> n. writes (os s) m \<noteq> Interrupted"
  shows "\<exists>os1. leave ok code s = Some (Exited code os1)"
proof (cases "aof (processor s)")
  case (Some a)
  obtain flushed a' os1 where "aof_flush a (os s) = Some (flushed, a', os1)"
    using aof_flush_returns [OF assms, of a] by auto
  with Some show ?thesis by (simp add: leave_def aof_destroy_def Let_def split_def)
qed (simp add: leave_def)

lemma server_start_os:
  assumes "server_start config trunc fd msg db os0 = Inr s"
  shows "writes (os s) = writes os0"
proof (cases "appendOnly config")
  case False
  with assms show ?thesis by (auto simp: server_start_def new_server_def Let_def)
next
  case True
  obtain x q contents where l: "aof_load replay_command trunc (disk os0) (new_processor db None) = (x, q, contents)"
    by (metis surj_pair)
  have "aof_open fd msg a o1 = (y, a2, o2) \<Longrightarrow> writes o2 = writes o1" for a o1 y a2 o2
    by (auto simp: aof_open_def split: if_splits)
  then show ?thesis
    using assms True l by (cases x) (fastforce simp: server_start_def new_server_def Let_def split: prod.splits sum.splits)+
qed

lemma server_main_returns:
  assumes "\<forall>r \<in> set rounds. responsive r" "writable (start_os e)"
  shows "\<exists>x. server_main argv e rounds = Some x"
proof (cases "parseArguments argv default_config")
  case (Parsed config)
  show ?thesis
  proof (cases "server_start config (truncateResult e) (openResult e) (openMessage e) (start_database e) (start_os e)")
    case (Inl err)
    with Parsed show ?thesis by (simp add: server_main_def)
  next
    case (Inr s)
    let ?l = "start_loop config (fst (steadyStart e)) (snd (steadyStart e)) s"
    have w: "writable (os s)" using server_start_os [OF Inr] assms(2) by (simp add: writable_def)
    then have leave: "\<exists>os1. leave (exitFsync e) 1 s = Some (Exited 1 os1)"
      by (intro leave_returns) (simp add: writable_def)
    obtain y where y: "run config rounds ?l = Some y" "\<forall>code s. y = Returned code s \<longrightarrow> writable (os s)"
      using run_total [OF assms(1), of ?l config] w by (auto simp: start_loop_def)
    then have "\<exists>os1. leave (exitFsync e) code s1 = Some (Exited code os1)" if "y = Returned code s1" for code s1
      using that by (intro leave_returns) (simp add: writable_def)
    with Parsed Inr leave y show ?thesis by (cases y) (auto simp: server_main_def)
  qed
qed (simp_all add: server_main_def)

section \<open>The listener\<close>

lemma createListener_spec:
  "createListener e = (fd, closed) \<Longrightarrow>
     fd \<noteq> -1 \<and> fd = socketResult e \<and> closed = [] \<or>
     fd = -1 \<and> closed = (if socketResult e = -1 then [] else [socketResult e])"
  by (auto simp: createListener_def Let_def split: if_splits)

section \<open>Backpressure\<close>

text \<open>The client, if it is still there, has not been read from: its replies were at most sent.\<close>

definition drained :: "int \<Rightarrow> Client \<Rightarrow> Server \<Rightarrow> bool" where
  "drained sock c s \<longleftrightarrow>
     pred_option (\<lambda>c'. input_buf c' = input_buf c \<and> suffix (pending c') (pending c)) (map_of (clients s) sock)"

lemma close_client_lookup: "map_of (clients (close_client sock s)) sock' = (if sock' = sock then None else map_of (clients s) sock')"
  by (simp add: close_client_def Let_def AList.delete_conv)

lemma flush_and_write_clients:
  assumes "flush_and_write sd c s = Some (ok, sent, c', s')"
  shows "clients s' = clients s \<and> input_buf c' = input_buf c \<and> suffix (pending c') (pending c)"
  using assms by (auto simp: flush_and_write_def conserves_def suffix_def dest!: writeToClient_conserves
      split: if_splits option.splits) metis+

lemma handleClientEvents_others:
  assumes "handleClientEvents sock err inp rv sd s = Some (Inr (sent, s'))" "sock' \<noteq> sock"
  shows "map_of (clients s') sock' = map_of (clients s) sock'"
  using assms
  by (auto simp: handleClientEvents_def Let_def close_client_lookup update_conv'
      split: option.splits if_splits prod.splits sum.splits dest!: flush_and_write_clients)

lemma handleClientEvents_drained:
  assumes "handleClientEvents sock err False rv sd s = Some (Inr (sent, s'))" "drained sock c s"
  shows "drained sock c s'"
  using assms
  by (auto simp: handleClientEvents_def drained_def Let_def close_client_lookup update_conv'
      split: option.splits if_splits prod.splits sum.splits
      dest!: flush_and_write_clients intro: suffix_order.order_trans)

lemma handle_events_drained:
  assumes "handle_events r ws s = Some (Inr (wire, s'))" "drained sock c s"
    "\<And>rd wr. (sock, rd, wr) \<in> set ws \<Longrightarrow> \<not> rd" "\<not> pollHup (revents r sock)"
  shows "drained sock c s'"
  using assms
proof (induction ws arbitrary: s wire)
  case (Cons w ws)
  obtain k rd wr where w: "w = (k, rd, wr)" by (metis surj_pair)
  let ?inp = "rd \<and> pollIn (revents r k) \<or> pollHup (revents r k)"
  obtain sent s1 wire1 where h: "handleClientEvents k (pollErr (revents r k)) ?inp (recvs r k) (sends r k) s = Some (Inr (sent, s1))"
    "handle_events r ws s1 = Some (Inr (wire1, s'))"
    using Cons.prems(1) w by (auto split: option.splits sum.splits prod.splits elim!: map_sum_Inr)
  have "drained sock c s1"
  proof (cases "k = sock")
    case True
    then have "?inp = False" using Cons.prems(3,4) w by auto
    with h(1) True have "handleClientEvents sock (pollErr (revents r k)) False (recvs r k) (sends r k) s = Some (Inr (sent, s1))"
      by (simp only:)
    then show ?thesis using Cons.prems(2) by (rule handleClientEvents_drained)
  next
    case False
    with handleClientEvents_others [OF h(1), of sock] Cons.prems(2) show ?thesis by (simp add: drained_def)
  qed
  with h(2) Cons show ?case by auto
qed simp

lemma accept_client_keeps:
  "map_of (clients s) sock = Some c \<Longrightarrow> map_of (clients (accept_client k s)) sock = Some c"
  by (auto simp: accept_client_def Let_def update_conv')

lemma acceptClients_keeps:
  assumes "acceptClients ac i s = Some s'"
  shows "map_of (clients s) sock = Some c \<longrightarrow> map_of (clients s') sock = Some c"
proof (rule acceptClients.raw_induct [OF _ assms], goal_cases)
  case (1 rec ac i s s')
  then show ?case using accept_client_keeps [of s sock c] by (auto split: accept_result.splits if_splits)
qed

lemma background_clients: "background_work config r l = Inr l' \<Longrightarrow> clients (server l') = clients (server l)"
  by (auto simp: background_work_def server_cron_def server_sync_def Let_def split: if_splits prod.splits sum.splits)

lemma iteration_drained:
  assumes "run_iteration config r l = Some (Running wire l')" "map_of (clients (server l)) sock = Some c"
    "OUTPUT_HIGH_WATERMARK \<le> pendingOutput c \<or> closeAfterWrite c" "\<not> pollHup (revents r sock)"
  shows "drained sock c (server l')"
proof (cases "poll_outcome r = PollReady")
  case True
  let ?a = "if listenerReady r then acceptClients (accepts r) 0 (server l) else Some (server l)"
  obtain s1 w s2 where s: "?a = Some s1" "handle_events r (watched r (server l)) s1 = Some (Inr (w, s2))"
    "background_work config r (l\<lparr>server := s2\<rparr>) = Inr l'"
    using assms(1) True by (auto simp: run_iteration_def split: if_splits option.splits sum.splits prod.splits)
  have "map_of (clients s1) sock = Some c"
    using s(1) assms(2) acceptClients_keeps by (auto split: if_splits)
  then have "drained sock c s1" by (simp add: drained_def)
  moreover have "\<not> rd" if "(sock, rd, wr) \<in> set (watched r (server l))" for rd wr
    using that assms(2,3) by (auto simp: watched_def List.map_filter_def poll_events_def)
  ultimately have "drained sock c s2" using handle_events_drained [OF s(2)] assms(4) by blast
  with background_clients [OF s(3)] show ?thesis by (simp add: drained_def)
next
  case False
  with assms(1,2) show ?thesis
    by (cases "poll_outcome r") (auto simp: run_iteration_def drained_def split: if_splits)
qed

end
