(* ===== verification/FKV_Linear.thy ===== *)
theory FKV_Linear
  imports FKV_Main
begin

text \<open>
  The event loop as an atomic server. Whatever the interleaving of sockets, partial reads, partial
  writes, connections, disconnections and background work, there is one sequence of commands that
  explains everything the clients see: executing it one after the other gives the processor, the
  commands of each client are the requests in the bytes it sent, in order, and the bytes it has been
  sent together with those still pending are the replies to these commands, in order. The bytes a
  client sent are read off the results of \<open>recv\<close> alone: how many of them a turn takes is defined by
  the results (up to the first chunk that is not full, or the first error), not by what the
  server made of them.
\<close>

section \<open>Histories\<close>

text \<open>What a client is answered: a command with its reply, or the error for malformed input.\<close>

datatype event = Command int "bytes list" bytes | Malformed int bytes

fun event_socket :: "event \<Rightarrow> int" where
  "event_socket (Command sock args reply) = sock"
| "event_socket (Malformed sock reply) = sock"

fun event_reply :: "event \<Rightarrow> bytes" where
  "event_reply (Command sock args reply) = reply"
| "event_reply (Malformed sock reply) = reply"

fun event_request :: "event \<Rightarrow> bytes list list" where
  "event_request (Command sock args reply) = [args]"
| "event_request (Malformed sock reply) = []"

definition events_of :: "int \<Rightarrow> event list \<Rightarrow> event list" where
  "events_of sock es = filter (\<lambda>e. event_socket e = sock) es"

definition replies_to :: "int \<Rightarrow> event list \<Rightarrow> bytes" where
  "replies_to sock es = concat (map event_reply (events_of sock es))"

definition requests_of :: "int \<Rightarrow> event list \<Rightarrow> bytes list list" where
  "requests_of sock es = concat (map event_request (events_of sock es))"

definition sent_to :: "int \<Rightarrow> (int \<times> bytes) list \<Rightarrow> bytes" where
  "sent_to sock wire = concat (map snd (filter (\<lambda>w. fst w = sock) wire))"

text \<open>
  What happens to the processor between commands: counters of connections, flushing and syncing the
  log, and the expiration cycle.
\<close>

definition upkeep :: "CommandProcessor \<Rightarrow> CommandProcessor \<Rightarrow> bool" where
  "upkeep q q' \<longleftrightarrow>
     serverStats q' = (serverStats q)\<lparr>connectedClients := connectedClients (serverStats q'),
       totalConnections := totalConnections (serverStats q')\<rparr> \<and> (aof q' = None \<longleftrightarrow> aof q = None) \<and>
     (database q' = database q \<or> (\<exists>budget n. activeExpireCycle 20 budget (database q) = (Inr n, database q')))"

inductive history :: "event list \<Rightarrow> CommandProcessor \<Rightarrow> CommandProcessor \<Rightarrow> bool" where
  start: "history [] p p"
| command: "history es p q \<Longrightarrow> args \<noteq> [] \<Longrightarrow> execute args q = (Inr reply, q') \<Longrightarrow>
    history (es @ [Command sock args (payload reply)]) p q'"
| malformed: "history es p q \<Longrightarrow> history (es @ [Malformed sock (respError msg)]) p q"
| housekeeping: "history es p q \<Longrightarrow> upkeep q q' \<Longrightarrow> history es p q'"

lemma history_trans:
  assumes "history es2 q r" "history es1 p q"
  shows "history (es1 @ es2) p r"
  using assms
proof (induction rule: history.induct)
  case (start p)
  then show ?case by simp
qed (auto simp flip: append_assoc intro: history.intros)

lemma history_upkeep: "upkeep q q' \<Longrightarrow> history [] q q'"
  using history.housekeeping [OF history.start] .

lemma history_command: "args \<noteq> [] \<Longrightarrow> execute args q = (Inr reply, q') \<Longrightarrow> history [Command sock args (payload reply)] q q'"
  using history.command [OF history.start, of args q reply q' sock] by simp

lemma history_malformed: "history [Malformed sock (respError msg)] q q"
  using history.malformed [OF history.start, of sock msg q] by simp

lemma events_of_append [simp]: "events_of sock (xs @ ys) = events_of sock xs @ events_of sock ys"
  by (simp add: events_of_def)

lemma replies_to_append [simp]: "replies_to sock (xs @ ys) = replies_to sock xs @ replies_to sock ys"
  by (simp add: replies_to_def)

lemma requests_of_append [simp]: "requests_of sock (xs @ ys) = requests_of sock xs @ requests_of sock ys"
  by (simp add: requests_of_def)

lemma sent_to_append [simp]: "sent_to sock (xs @ ys) = sent_to sock xs @ sent_to sock ys"
  by (simp add: sent_to_def)

lemma event_lists_Nil [simp]: "events_of sock [] = []" "replies_to sock [] = []" "requests_of sock [] = []" "sent_to sock [] = []"
  by (simp_all add: events_of_def replies_to_def requests_of_def sent_to_def)

section \<open>Requests in a stream\<close>

abbreviation run_commands :: "bytes list list \<Rightarrow> CommandProcessor \<Rightarrow> CommandProcessor" where
  "run_commands cmds p \<equiv> fold (\<lambda>args p. snd (execute args p)) cmds p"

text \<open>The complete requests at the front of a byte stream, and what follows them.\<close>

inductive requests_in :: "bytes \<Rightarrow> bytes list list \<Rightarrow> bytes \<Rightarrow> bool" where
  rest: "requests_in s [] s"
| blank: "parseRespCommand s = completeResult [] n \<Longrightarrow> requests_in (drop n s) cmds t \<Longrightarrow> requests_in s cmds t"
| request: "parseRespCommand s = completeResult args n \<Longrightarrow> args \<noteq> [] \<Longrightarrow> requests_in (drop n s) cmds t \<Longrightarrow>
    requests_in s (args # cmds) t"

lemma requests_in_trans: "requests_in s cmds t \<Longrightarrow> requests_in t cmds' u \<Longrightarrow> requests_in s (cmds @ cmds') u"
  by (induction rule: requests_in.induct) (auto intro: requests_in.intros)

lemma parse_extend:
  assumes "parseRespCommand s = completeResult args n"
  shows "parseRespCommand (s @ more_bytes) = completeResult args n" "drop n (s @ more_bytes) = drop n s @ more_bytes"
proof -
  have c: "status (parseRespCommand s) = Complete" using assms by (simp add: completeResult_def)
  show "parseRespCommand (s @ more_bytes) = completeResult args n" using parse_complete_append [OF c] assms by simp
  show "drop n (s @ more_bytes) = drop n s @ more_bytes" using parse_consumed [OF c] assms by (simp add: completeResult_def)
qed

lemma requests_in_extend: "requests_in s cmds t \<Longrightarrow> requests_in (s @ more_bytes) cmds (t @ more_bytes)"
proof (induction rule: requests_in.induct)
  case (blank s n cmds t)
  then show ?case using parse_extend [OF blank.hyps(1), of more_bytes] by (auto intro: requests_in.blank)
next
  case (request s args n cmds t)
  then show ?case using parse_extend [OF request.hyps(1), of more_bytes] by (auto intro: requests_in.request)
qed (rule requests_in.rest)

lemma requests_in_next:
  assumes "requests_in (i @ got) r j" "requests_in (j @ got') r' k"
  shows "requests_in (i @ got @ got') (r @ r') k"
  using requests_in_trans [OF requests_in_extend [OF assms(1), of got'] assms(2)] by simp

section \<open>One client\<close>

definition only_from :: "int \<Rightarrow> event list \<Rightarrow> bool" where
  "only_from sock es \<longleftrightarrow> (\<forall>e \<in> set es. event_socket e = sock)"

lemma only_fromD:
  assumes "only_from sock es"
  shows "events_of k es = (if k = sock then es else [])"
  using assms by (auto simp: only_from_def events_of_def filter_id_conv filter_empty_conv)

text \<open>Why a request was answered with a protocol error: the bytes that had arrived do not begin a request.\<close>

definition unparsable :: "bytes \<Rightarrow> bytes \<Rightarrow> bool" where
  "unparsable u reply \<longleftrightarrow> status (parseRespCommand u) = Error \<and> reply = respError (error (parseRespCommand u))"

lemma process_loop_history:
  assumes "process_loop inp k c p = (Inr n, c', p')"
  shows "\<exists>es. history es p p' \<and> only_from sock es \<and> output_buf c' = output_buf c @ concat (map event_reply es) \<and>
    outputOffset c' = outputOffset c \<and> requests_in (drop k inp) (concat (map event_request es)) (drop n inp) \<and>
    p' = run_commands (concat (map event_request es)) p \<and> (closeAfterWrite c \<longrightarrow> es = [] \<and> n = k \<and> closeAfterWrite c') \<and>
    (\<forall>x reply. Malformed x reply \<in> set es \<longrightarrow> closeAfterWrite c' \<and> unparsable (drop n inp) reply)"
  using assms
proof (induction k c p rule: process_induct [where inp = inp])
  case (stop k c p)
  then show ?case by (intro exI [of _ "[]"]) (auto simp: process_stop only_from_def intro: history.start requests_in.rest)
next
  case (incomplete k c p)
  then show ?case by (intro exI [of _ "[]"]) (auto simp: process_incomplete only_from_def intro: history.start requests_in.rest)
next
  case (error k c p)
  then show ?case
    by (intro exI [of _ "[Malformed sock (respError (error (parseRespCommand (drop k inp))))]"])
      (auto simp: process_error only_from_def unparsable_def intro: history_malformed requests_in.rest)
next
  case (blank k c p m)
  from blank.IH blank.prems blank.hyps obtain es where "history es p p'" "only_from sock es" "output_buf c' = output_buf c @ concat (map event_reply es)"
    "outputOffset c' = outputOffset c" "requests_in (drop (k + m) inp) (concat (map event_request es)) (drop n inp)"
    "p' = run_commands (concat (map event_request es)) p"
    "\<forall>x reply. Malformed x reply \<in> set es \<longrightarrow> closeAfterWrite c' \<and> unparsable (drop n inp) reply"
    by (auto simp: process_blank)
  then show ?case
    using requests_in.blank [OF blank.hyps(4)] blank.hyps(1) by (intro exI [of _ es]) (simp add: add.commute)
next
  case (command k c p args m)
  obtain reply p1 where e: "execute args p = (Inr reply, p1)"
    using command.prems command.hyps by (auto simp: process_command split: prod.splits sum.splits)
  with command.prems command.hyps have "process_loop inp (k + m) (add_reply reply c) p1 = (Inr n, c', p')"
    by (simp add: process_command)
  from command.IH [OF e this] obtain es where es: "history es p1 p'" "only_from sock es"
    "output_buf c' = output_buf (add_reply reply c) @ concat (map event_reply es)"
    "outputOffset c' = outputOffset (add_reply reply c)" "requests_in (drop (k + m) inp) (concat (map event_request es)) (drop n inp)"
    "p' = run_commands (concat (map event_request es)) p1"
    "\<forall>x reply. Malformed x reply \<in> set es \<longrightarrow> closeAfterWrite c' \<and> unparsable (drop n inp) reply"
    by blast
  have "history (Command sock args (payload reply) # es) p p'"
    using history_trans [OF es(1) history_command [OF command.hyps(5) e, of sock]] by simp
  with es(2,3,4,6,7) e command.hyps(1) requests_in.request [OF command.hyps(4,5)] es(5) show ?case
    by (intro exI [of _ "Command sock args (payload reply) # es"])
      (simp add: only_from_def add_reply_def add.commute)
qed

text \<open>
  What reading from a client does: \<open>got\<close> arrived, the complete requests in front were answered by the
  events \<open>es\<close>, the rest is kept. A closing client is not answered any more, and malformed input is what
  remains in the buffer.
\<close>

definition answered :: "Client \<Rightarrow> bytes \<Rightarrow> event list \<Rightarrow> Client \<Rightarrow> bool" where
  "answered c got es c' \<longleftrightarrow>
     output_buf c' = output_buf c @ concat (map event_reply es) \<and> outputOffset c' = outputOffset c \<and>
     requests_in (input_buf c @ got) (concat (map event_request es)) (input_buf c') \<and>
     (closeAfterWrite c \<longrightarrow> es = [] \<and> input_buf c' = input_buf c @ got \<and> closeAfterWrite c') \<and>
     (\<forall>x reply. Malformed x reply \<in> set es \<longrightarrow> closeAfterWrite c' \<and> unparsable (input_buf c') reply)"

lemma answered_silent:
  assumes "input_buf c' = input_buf c @ got" "output_buf c' = output_buf c" "outputOffset c' = outputOffset c"
    "closeAfterWrite c' = closeAfterWrite c"
  shows "answered c got [] c'"
  using assms by (simp add: answered_def requests_in.rest)

lemma processInput_history:
  assumes "processInput c p = (Inr x, c', p')"
  shows "\<exists>es. history es p p' \<and> only_from sock es \<and> answered c [] es c' \<and> p' = run_commands (concat (map event_request es)) p"
proof -
  obtain n c1 where l: "process_loop (input_buf c) 0 c p = (Inr n, c1, p')"
    "c' = c1\<lparr>input_buf := drop n (input_buf c1)\<rparr>"
    using assms by (auto simp: processInput_def split: prod.splits sum.splits)
  have "c1\<lparr>input_buf := input_buf c\<rparr> = c1" using process_loop_frame [where inp = "input_buf c" and consumed = 0 and c = c and b = "input_buf c" and p = p] l(1) by simp
  then have "input_buf c1 = input_buf c" by (metis Client.ext_inject Client.surjective Client.update_convs(1))
  with l(2) process_loop_history [OF l(1), of sock] show ?thesis unfolding answered_def by fastforce
qed

text \<open>
  The bytes of the first \<open>k\<close> calls of \<open>recv\<close>, and how many calls are made when a socket is readable:
  after a full chunk or an interruption the next one, up to a limit.
\<close>

definition chunk_of :: "recv_result \<Rightarrow> bytes" where
  "chunk_of r = (case r of Received bs \<Rightarrow> take READ_CHUNK_SIZE bs | _ \<Rightarrow> [])"

definition delivered :: "(nat \<Rightarrow> recv_result) \<Rightarrow> nat \<Rightarrow> bytes" where
  "delivered rv k = concat (map (\<lambda>i. chunk_of (rv i)) [0..<k])"

definition keeps_reading :: "recv_result \<Rightarrow> bool" where
  "keeps_reading r \<longleftrightarrow> r = RecvInterrupted \<or> READ_CHUNK_SIZE \<le> length (chunk_of r)"

definition recv_count :: "(nat \<Rightarrow> recv_result) \<Rightarrow> nat" where
  "recv_count rv = min MAX_READS_PER_EVENT (Suc (length (takeWhile (\<lambda>i. keeps_reading (rv i)) [0..<MAX_READS_PER_EVENT])))"

lemma recv_count_le: "recv_count rv \<le> MAX_READS_PER_EVENT"
  by (simp add: recv_count_def)

lemma read_loop_delivered:
  "read_loop n rv i c = (e, c') \<Longrightarrow> input_buf c' = input_buf c @
     concat (map (\<lambda>k. chunk_of (rv k)) [i..<i + min n (Suc (length (takeWhile (\<lambda>k. keeps_reading (rv k)) [i..<i + n])))])"
proof (induction n rv i c rule: read_loop.induct)
  case (2 left rv i c)
  let ?more = "Suc (length (takeWhile (\<lambda>k. keeps_reading (rv k)) [Suc i..<Suc i + left]))"
  have range: "[i..<i + Suc left] = i # [Suc i..<Suc i + left]" by (simp add: upt_conv_Cons)
  have next_calls: "[i..<i + Suc m] = i # [Suc i..<Suc i + m]" for m by (simp add: upt_conv_Cons)
  show ?case
  proof (cases "keeps_reading (rv i)")
    case True
    let ?c = "c\<lparr>input_buf := input_buf c @ chunk_of (rv i)\<rparr>"
    have "READ_CHUNK_SIZE > 0" by (simp add: READ_CHUNK_SIZE_def)
    with True "2.prems" have "read_loop left rv (Suc i) ?c = (e, c')"
      by (auto simp: keeps_reading_def chunk_of_def Let_def split: recv_result.splits if_splits)
    moreover have "input_buf c' = input_buf ?c @ concat (map (\<lambda>k. chunk_of (rv k)) [Suc i..<Suc i + min left ?more])"
      if r: "read_loop left rv (Suc i) ?c = (e, c')"
    proof (cases "rv i")
      case (Received bs)
      with True have "chunk_of (rv i) = take READ_CHUNK_SIZE bs" "READ_CHUNK_SIZE \<le> length (take READ_CHUNK_SIZE bs)"
        by (simp_all add: keeps_reading_def chunk_of_def)
      moreover from this \<open>READ_CHUNK_SIZE > 0\<close> have "take READ_CHUNK_SIZE bs \<noteq> []" by auto
      ultimately show ?thesis using "2.IH"(1) [OF Received refl _ refl] r by simp
    next
      case RecvInterrupted
      with "2.IH"(2) r show ?thesis by (simp add: chunk_of_def)
    qed (use True \<open>READ_CHUNK_SIZE > 0\<close> in \<open>simp_all add: keeps_reading_def chunk_of_def\<close>)
    ultimately show ?thesis using True next_calls [of "min left ?more"] unfolding range by simp
  next
    case False
    with "2.prems" have "input_buf c' = input_buf c @ chunk_of (rv i)"
      by (auto simp: keeps_reading_def chunk_of_def Let_def split: recv_result.splits if_splits)
    with False show ?thesis unfolding range by simp
  qed
qed simp

lemma read_event_delivered:
  "read_loop MAX_READS_PER_EVENT rv 0 c = (e, c') \<Longrightarrow> input_buf c' = input_buf c @ delivered rv (recv_count rv)"
  using read_loop_delivered [of MAX_READS_PER_EVENT rv 0 c e c'] by (simp add: delivered_def recv_count_def)

lemma readFromClient_history:
  assumes "readFromClient rv c p = (Inr keep, c', p')"
  shows "\<exists>es. history es p p' \<and> only_from sock es \<and> answered c (delivered rv (recv_count rv)) es c' \<and>
    p' = run_commands (concat (map event_request es)) p"
proof -
  obtain e c1 where r: "read_loop MAX_READS_PER_EVENT rv 0 c = (e, c1)" by (cases "read_loop MAX_READS_PER_EVENT rv 0 c")
  have same: "output_buf c1 = output_buf c" "outputOffset c1 = outputOffset c" "closeAfterWrite c1 = closeAfterWrite c"
    using read_loop_frame [OF r] by simp_all
  note got = read_event_delivered [OF r]
  consider "c' = c1" "p' = p" | c2 where "processInput c1 p = (Inr (), c2, p')" "c' = c2 \<or> c' = c2\<lparr>closeAfterWrite := True\<rparr>"
    using assms r by (auto simp: readFromClient_def split: read_end.splits if_splits prod.splits sum.splits)
  then show ?thesis
  proof cases
    case 1
    with same got show ?thesis
      by (intro exI [of _ "[]"]) (simp add: only_from_def history.start answered_silent)
  next
    case 2
    from processInput_history [OF 2(1), of sock] obtain es where es: "history es p p'" "only_from sock es" "answered c1 [] es c2"
      "p' = run_commands (concat (map event_request es)) p" by blast
    have "answered c (delivered rv (recv_count rv)) es c'"
      using es(3) 2(2) same got by (elim disjE) (simp_all add: answered_def)
    with es(1,2,4) show ?thesis by blast
  qed
qed

text \<open>
  What passes between a client and the server: the bytes the client sent, the bytes it was sent and
  the events in between. The commands are the complete requests at the front of the stream, what follows
  them is kept; a protocol error is the answer to malformed input at that place, and the last one. The
  last argument is the client afterwards, if it is still connected.
\<close>

definition dialogue :: "int \<Rightarrow> bytes \<Rightarrow> bytes \<Rightarrow> event list \<Rightarrow> Client \<Rightarrow> Client option \<Rightarrow> bool" where
  "dialogue sock got sent es c after \<longleftrightarrow>
     (\<exists>rest. requests_in (input_buf c @ got) (requests_of sock es) rest \<and>
        (closeAfterWrite c \<longrightarrow> events_of sock es = [] \<and> rest = input_buf c @ got) \<and>
        (\<forall>x reply. Malformed x reply \<in> set (events_of sock es) \<longrightarrow> (\<exists>u. prefix u rest \<and> unparsable u reply)) \<and>
        (case after of
           Some c' \<Rightarrow> sent @ pending c' = pending c @ replies_to sock es \<and> input_buf c' = rest \<and>
             (closeAfterWrite c \<or> (\<exists>x reply. Malformed x reply \<in> set (events_of sock es)) \<longrightarrow> closeAfterWrite c')
         | None \<Rightarrow> prefix sent (pending c @ replies_to sock es)))"

lemma dialogue_silent:
  assumes "events_of sock es = []"
  shows "dialogue sock [] [] es c (Some c)" "dialogue sock [] [] es c None"
  using assms by (auto simp: dialogue_def replies_to_def requests_of_def intro: requests_in.rest)

lemma dialogue_cong:
  assumes "events_of sock es = events_of sock es'"
  shows "dialogue sock got sent es c after = dialogue sock got sent es' c after"
proof -
  have "replies_to sock es = replies_to sock es'" "requests_of sock es = requests_of sock es'"
    using assms by (simp_all add: replies_to_def requests_of_def)
  with assms show ?thesis unfolding dialogue_def by (simp only:)
qed

lemma dialogue_trans:
  assumes "dialogue sock got1 sent1 es1 c (Some c1)" "dialogue sock got2 sent2 es2 c1 after"
  shows "dialogue sock (got1 @ got2) (sent1 @ sent2) (es1 @ es2) c after"
proof -
  let ?bad = "\<lambda>es. \<exists>x reply. Malformed x reply \<in> set (events_of sock es)"
  from assms(1) have d1: "requests_in (input_buf c @ got1) (requests_of sock es1) (input_buf c1)"
    "closeAfterWrite c \<longrightarrow> events_of sock es1 = [] \<and> input_buf c1 = input_buf c @ got1"
    "\<forall>x reply. Malformed x reply \<in> set (events_of sock es1) \<longrightarrow> (\<exists>u. prefix u (input_buf c1) \<and> unparsable u reply)"
    "sent1 @ pending c1 = pending c @ replies_to sock es1" "closeAfterWrite c \<or> ?bad es1 \<longrightarrow> closeAfterWrite c1"
    unfolding dialogue_def by auto
  from assms(2) obtain rest where d2: "requests_in (input_buf c1 @ got2) (requests_of sock es2) rest"
    "closeAfterWrite c1 \<longrightarrow> events_of sock es2 = [] \<and> rest = input_buf c1 @ got2"
    "\<forall>x reply. Malformed x reply \<in> set (events_of sock es2) \<longrightarrow> (\<exists>u. prefix u rest \<and> unparsable u reply)"
    "case after of Some c' \<Rightarrow> sent2 @ pending c' = pending c1 @ replies_to sock es2 \<and> input_buf c' = rest \<and>
         (closeAfterWrite c1 \<or> ?bad es2 \<longrightarrow> closeAfterWrite c')
     | None \<Rightarrow> prefix sent2 (pending c1 @ replies_to sock es2)"
    unfolding dialogue_def by blast
  have bad: "\<exists>u. prefix u rest \<and> unparsable u reply" if "Malformed x reply \<in> set (events_of sock (es1 @ es2))" for x reply
  proof (cases "Malformed x reply \<in> set (events_of sock es2)")
    case False
    with that d1(3,5) d2(2) obtain u where "prefix u (input_buf c1)" "unparsable u reply" "rest = input_buf c1 @ got2"
      by auto
    then show ?thesis using prefix_prefix by blast
  qed (use d2(3) in blast)
  have "case after of Some c' \<Rightarrow> (sent1 @ sent2) @ pending c' = pending c @ replies_to sock (es1 @ es2) \<and> input_buf c' = rest \<and>
         (closeAfterWrite c \<or> ?bad (es1 @ es2) \<longrightarrow> closeAfterWrite c')
     | None \<Rightarrow> prefix (sent1 @ sent2) (pending c @ replies_to sock (es1 @ es2))"
  proof (cases after)
    case None
    with d2(4) have "prefix (sent1 @ sent2) ((sent1 @ pending c1) @ replies_to sock es2)" by simp
    with None show ?thesis unfolding d1(4) by simp
  next
    case (Some c')
    have "(sent1 @ sent2) @ pending c' = pending c @ replies_to sock (es1 @ es2)"
    proof -
      have "(sent1 @ sent2) @ pending c' = (sent1 @ pending c1) @ replies_to sock es2" using Some d2(4) by simp
      then show ?thesis unfolding d1(4) by simp
    qed
    with Some d2(4) d1(5) show ?thesis by auto
  qed
  moreover have "requests_in (input_buf c @ got1 @ got2) (requests_of sock (es1 @ es2)) rest"
    using requests_in_next [OF d1(1) d2(1)] by simp
  moreover have "closeAfterWrite c \<longrightarrow> events_of sock (es1 @ es2) = [] \<and> rest = input_buf c @ got1 @ got2"
    using d1(2,5) d2(2) by auto
  ultimately show ?thesis unfolding dialogue_def using bad by blast
qed

lemma answered_dialogue:
  assumes "answered c got es c1" "only_from sock es" "client_ok c" "sent @ pending c' = pending c1" "input_buf c' = input_buf c1"
    "closeAfterWrite c' = closeAfterWrite c1" "after \<in> {None, Some c'}"
  shows "dialogue sock got sent es c after"
proof -
  note only = only_fromD [OF assms(2), of sock]
  have "pending c1 = pending c @ replies_to sock es"
    using assms(1,3) by (simp add: answered_def pending_def client_ok_def replies_to_def only)
  then have "sent @ pending c' = pending c @ replies_to sock es" using assms(4) by simp
  moreover from this have "prefix sent (pending c @ replies_to sock es)" by (metis prefixI)
  ultimately show ?thesis
    using assms(1,5-7) unfolding dialogue_def answered_def
    by (intro exI [of _ "input_buf c1"]) (auto simp: requests_of_def only)
qed

lemma upkeep_close: "upkeep (processor s) (processor (close_client sock s))"
  by (simp add: upkeep_def close_client_def Let_def)

lemma upkeep_accept: "upkeep (processor s) (processor (accept_client sock s))"
  by (simp add: upkeep_def accept_client_def Let_def)

lemma upkeep_sync: "upkeep (processor s) (processor (server_sync ok s))"
  by (simp add: upkeep_def server_sync_def Let_def)

lemma upkeep_flush: "flush_and_write sd c s = Some (res, sent, c', s') \<Longrightarrow> upkeep (processor s) (processor s')"
  by (auto simp: upkeep_def flush_and_write_def split: if_splits option.splits)

lemma upkeep_cron: "server_cron b s = (Inr n, s') \<Longrightarrow> upkeep (processor s) (processor s')"
  by (auto simp: upkeep_def server_cron_def split: prod.splits)

lemmas upkeep_intros = upkeep_close upkeep_accept upkeep_sync upkeep_flush upkeep_cron

lemma flush_and_write_sent:
  assumes "flush_and_write sd c s = Some (res, sent, c', s')"
  shows "sent @ pending c' = pending c" "input_buf c' = input_buf c" "closeAfterWrite c' = closeAfterWrite c"
  using assms by (auto simp: flush_and_write_def conserves_def dest!: writeToClient_conserves split: if_splits option.splits)

text \<open>
  What a turn does after the commands, which gave the processor \<open>p\<close>: the log may be flushed, and it is
  before anything is sent; the client may be closed.
\<close>

definition settled :: "CommandProcessor \<Rightarrow> Server \<Rightarrow> bytes \<Rightarrow> Server \<Rightarrow> bool" where
  "settled p s sent s' \<longleftrightarrow>
     database (processor s') = database p \<and> (\<exists>n. serverStats (processor s') = (serverStats p)\<lparr>connectedClients := n\<rparr>) \<and>
     (aof (processor s') = aof p \<and> os s' = os s \<and> (sent = [] \<or> aof p = None) \<or>
      (\<exists>a ok a'. aof p = Some a \<and> aof_flush a (os s) = Some (ok, a', os s') \<and> aof (processor s') = Some a'))"

lemma settled_same: "settled (processor s) s [] s"
  by (auto simp: settled_def intro: exI [of _ "connectedClients (serverStats (processor s))"])

lemma settled_close: "settled p s sent s' \<Longrightarrow> settled p s sent (close_client sock s')"
  by (auto simp: settled_def close_client_def Let_def)

lemma settled_clients: "settled p s sent (s'\<lparr>clients := cs\<rparr>) = settled p s sent s'"
  by (simp add: settled_def)

lemma flush_and_write_settled:
  assumes "flush_and_write sd c (s\<lparr>processor := p, clients := cs\<rparr>) = Some (ok, sent, c', s')"
  shows "settled p s sent s'"
proof -
  have "\<exists>n. serverStats p = (serverStats p)\<lparr>connectedClients := n\<rparr>" by (rule exI [of _ "connectedClients (serverStats p)"]) simp
  with assms show ?thesis by (auto simp: flush_and_write_def settled_def split: if_splits option.splits)
qed

text \<open>The bytes that are read in one client's turn.\<close>

definition event_input :: "bool \<Rightarrow> bool \<Rightarrow> (nat \<Rightarrow> recv_result) \<Rightarrow> bytes" where
  "event_input err inp rv = (if inp \<and> \<not> err then delivered rv (recv_count rv) else [])"

lemma read_phase:
  assumes "(if inp then readFromClient rv c p else (Inr True, c, p)) = (Inr keep, c', p')"
  shows "\<exists>es. history es p p' \<and> only_from sock es \<and> answered c (event_input False inp rv) es c' \<and>
    p' = run_commands (concat (map event_request es)) p"
proof (cases inp)
  case True
  with assms show ?thesis using readFromClient_history [of rv c p keep c' p' sock] by (simp add: event_input_def)
next
  case False
  with assms show ?thesis
    by (intro exI [of _ "[]"]) (auto simp: only_from_def event_input_def history.start intro!: answered_silent)
qed

lemma handleClientEvents_dialogue:
  assumes "server_inv s" "handleClientEvents sock err inp rv sd s = Some (Inr (sent, s'))"
  shows "\<exists>es. history es (processor s) (processor s') \<and> only_from sock es \<and>
    settled (run_commands (concat (map event_request es)) (processor s)) s sent s' \<and>
    (case map_of (clients s) sock of
       None \<Rightarrow> sent = [] \<and> es = [] \<and> s' = s
     | Some c \<Rightarrow> dialogue sock (event_input err inp rv) sent es c (map_of (clients s') sock))"
proof (cases "map_of (clients s) sock")
  case None
  with assms(2) show ?thesis
    by (intro exI [of _ "[]"]) (auto simp: handleClientEvents_def only_from_def history.start settled_same)
next
  case (Some c)
  show ?thesis
  proof (cases err)
    case True
    with Some assms(2) have "sent = []" "s' = close_client sock s" by (auto simp: handleClientEvents_def)
    with Some True show ?thesis
      by (intro exI [of _ "[]"])
        (simp add: history_upkeep upkeep_close only_from_def close_client_lookup dialogue_silent event_input_def
          settled_close settled_same)
  next
    case False
    let ?read = "if inp then readFromClient rv c (processor s) else (Inr True, c, processor s)"
    let ?got = "event_input False inp rv"
    obtain keep c1 p1 where r: "?read = (Inr keep, c1, p1)"
      using Some False assms(2) by (cases ?read) (auto simp: handleClientEvents_def split: sum.splits)
    obtain es where es: "history es (processor s) p1" "only_from sock es" "answered c ?got es c1"
      "p1 = run_commands (concat (map event_request es)) (processor s)"
      using read_phase [OF r, of sock] by blast
    have "client_ok c" using assms(1) Some unfolding server_inv_def by (metis option.pred_inject(2))
    note dia = answered_dialogue [OF es(3,2) this]
    let ?s1 = "s\<lparr>processor := p1, clients := AList.update sock c1 (clients s)\<rparr>"
    show ?thesis
    proof (cases keep)
      case False
      then have out: "sent = []" "s' = close_client sock ?s1"
        using r Some \<open>\<not> err\<close> assms(2) by (simp_all add: handleClientEvents_def Let_def)
      moreover have "history es (processor s) (processor (close_client sock ?s1))"
        using history.housekeeping [OF es(1)] upkeep_close [of ?s1 sock] by simp
      moreover have "settled p1 s [] (close_client sock ?s1)"
        by (rule settled_close) (simp add: settled_def exI [of _ "connectedClients (serverStats p1)"])
      moreover have "dialogue sock ?got [] es c None" by (rule dia [of _ c1]) simp_all
      ultimately show ?thesis
        using Some \<open>\<not> err\<close> es(2,4) by (intro exI [of _ es]) (auto simp: close_client_lookup)
    next
      case True
      obtain res c2 s2 where w: "flush_and_write sd c1 ?s1 = Some (res, sent, c2, s2)"
        "s' = close_client sock (s2\<lparr>clients := AList.update sock c2 (clients s2)\<rparr>) \<or> s' = s2\<lparr>clients := AList.update sock c2 (clients s2)\<rparr>"
        using True r Some \<open>\<not> err\<close> assms(2)
        by (auto simp: handleClientEvents_def Let_def split: option.splits if_splits)
      have "history es (processor s) (processor s2)"
        using history.housekeeping [OF es(1)] upkeep_flush [OF w(1)] by simp
      then have "history es (processor s) (processor s')"
        using w(2) history.housekeeping upkeep_close [of "s2\<lparr>clients := AList.update sock c2 (clients s2)\<rparr>" sock] by auto
      moreover have "dialogue sock ?got sent es c (map_of (clients s') sock)"
        using w(2) by (intro dia [OF flush_and_write_sent [OF w(1)]]) (auto simp: close_client_lookup update_conv')
      moreover have "settled p1 s sent s'"
        using w(2) flush_and_write_settled [OF w(1)] settled_close by (auto simp: settled_clients)
      ultimately show ?thesis using Some \<open>\<not> err\<close> es(2,4) by (intro exI [of _ es]) simp
    qed
  qed
qed

section \<open>One iteration\<close>

abbreviation round_input :: "Round \<Rightarrow> int \<Rightarrow> bool \<Rightarrow> bytes" where
  "round_input r sock rd \<equiv>
     event_input (pollErr (revents r sock)) (rd \<and> pollIn (revents r sock) \<or> pollHup (revents r sock)) (recvs r sock)"

lemma handle_events_dialogues:
  assumes "server_inv s" "handle_events r ws s = Some (Inr (wire, s'))" "distinct (map fst ws)"
  shows "\<exists>es. history es (processor s) (processor s') \<and>
    (\<forall>sock. sock \<notin> set (map fst ws) \<longrightarrow>
       events_of sock es = [] \<and> sent_to sock wire = [] \<and> map_of (clients s') sock = map_of (clients s) sock) \<and>
    (\<forall>sock rd wr c. (sock, rd, wr) \<in> set ws \<and> map_of (clients s) sock = Some c \<longrightarrow>
       dialogue sock (round_input r sock rd) (sent_to sock wire) es c (map_of (clients s') sock))"
  using assms
proof (induction ws arbitrary: s wire)
  case Nil
  then show ?case by (intro exI [of _ "[]"]) (auto simp: history.start)
next
  case (Cons w ws)
  obtain k rd wr where w: "w = (k, rd, wr)" by (metis surj_pair)
  let ?inp = "rd \<and> pollIn (revents r k) \<or> pollHup (revents r k)"
  obtain sent s1 wire1 where h: "handleClientEvents k (pollErr (revents r k)) ?inp (recvs r k) (sends r k) s = Some (Inr (sent, s1))"
    "handle_events r ws s1 = Some (Inr (wire1, s'))" "wire = (k, sent) # wire1"
    using Cons.prems(2) w by (auto split: option.splits sum.splits prod.splits elim!: map_sum_Inr)
  obtain es1 where d: "history es1 (processor s) (processor s1)" "only_from k es1"
    "case map_of (clients s) k of None \<Rightarrow> sent = [] \<and> es1 = [] \<and> s1 = s
     | Some c \<Rightarrow> dialogue k (round_input r k rd) sent es1 c (map_of (clients s1) k)"
    using handleClientEvents_dialogue [OF Cons.prems(1) h(1)] by blast
  have "server_inv s1" using handleClientEvents_inv [OF Cons.prems(1) h(1)] by auto
  from Cons.IH [OF this h(2)] Cons.prems(3) obtain es2 where e: "history es2 (processor s1) (processor s')"
    "\<And>sock. sock \<notin> set (map fst ws) \<Longrightarrow>
       events_of sock es2 = [] \<and> sent_to sock wire1 = [] \<and> map_of (clients s') sock = map_of (clients s1) sock"
    "\<And>sock rd wr c. (sock, rd, wr) \<in> set ws \<Longrightarrow> map_of (clients s1) sock = Some c \<Longrightarrow>
       dialogue sock (round_input r sock rd) (sent_to sock wire1) es2 c (map_of (clients s') sock)"
    by auto
  have other: "events_of sock es1 = [] \<and> sent_to sock wire = sent_to sock wire1 \<and> map_of (clients s1) sock = map_of (clients s) sock"
    if "sock \<noteq> k" for sock
    using that handleClientEvents_others [OF h(1)] by (simp add: only_fromD [OF d(2)] h(3) sent_to_def)
  have k: "k \<notin> set (map fst ws)" using Cons.prems(3) w by auto
  have sent: "sent_to k wire = sent" using e(2) [OF k] h(3) by (simp add: sent_to_def)
  have "dialogue sock (round_input r sock rd') (sent_to sock wire) (es1 @ es2) c (map_of (clients s') sock)"
    if c: "(sock, rd', wr') \<in> set (w # ws)" "map_of (clients s) sock = Some c" for sock rd' wr' c
  proof (cases "sock = k")
    case True
    with c(1) k w have "rd' = rd" by force
    with True c(2) d(3) e(2) [OF k] dialogue_cong [of k "es1 @ es2" es1] sent show ?thesis by simp
  next
    case False
    with c(1) w have "(sock, rd', wr') \<in> set ws" by simp
    from e(3) [OF this, of c] other [OF False] c(2) dialogue_cong [of sock "es1 @ es2" es2] show ?thesis by simp
  qed
  moreover have "events_of sock (es1 @ es2) = [] \<and> sent_to sock wire = [] \<and> map_of (clients s') sock = map_of (clients s) sock"
    if "sock \<notin> set (map fst (w # ws))" for sock
    using that other [of sock] e(2) [of sock] w by simp
  ultimately show ?case using history_trans [OF e(1) d(1)] by blast
qed

text \<open>A socket without a client, or with one that has just connected.\<close>

definition unheard :: "int \<Rightarrow> Server \<Rightarrow> bool" where
  "unheard sock s \<longleftrightarrow> map_of (clients s) sock = None \<or> map_of (clients s) sock = Some new_client"

lemma unheard_accept: "unheard sock s \<Longrightarrow> unheard sock (accept_client k s)"
  by (auto simp: unheard_def accept_client_def Let_def update_conv')

lemma acceptClients_unheard:
  assumes "acceptClients ac i s = Some s'"
  shows "unheard sock s \<longrightarrow> unheard sock s'"
proof (rule acceptClients.raw_induct [OF _ assms], goal_cases)
  case (1 rec ac i s s')
  then show ?case using unheard_accept [of sock s] by (auto split: accept_result.splits if_splits)
qed

lemma acceptClients_history:
  assumes "acceptClients ac i s = Some s'"
  shows "history [] (processor s) (processor s')"
proof (rule acceptClients.raw_induct [OF _ assms], goal_cases)
  case (1 rec ac i s s')
  have "history [] (processor s) (processor s')" if "rec ac (Suc i) (accept_client sock s) = Some s'" for sock
    using history_trans [OF 1(1) [OF that] history_upkeep [OF upkeep_accept]] by simp
  with 1 show ?case by (auto intro: history.start split: accept_result.splits if_splits)
qed

lemma background_history:
  assumes "background_work config r l = Inr l'"
  shows "history [] (processor (server l)) (processor (server l'))"
proof -
  have "\<exists>s. (s = server l \<or> (\<exists>n. server_cron (overBudget r) (server l) = (Inr n, s))) \<and>
      (server l' = s \<or> server l' = server_sync (fsyncOk r) s)"
    using assms by (auto simp: background_work_def Let_def split: if_splits prod.splits sum.splits)
  then show ?thesis
    using history_upkeep [OF upkeep_cron] history.housekeeping upkeep_sync history.start by metis
qed

lemma watched_distinct: "distinct (descriptors r) \<Longrightarrow> distinct (map fst (watched r s))"
  by (auto simp: watched_def List.map_filter_def distinct_map inj_on_def)

text \<open>What a client that is connected when an iteration starts is heard in it.\<close>

definition heard_in :: "int \<Rightarrow> Round \<Rightarrow> EventLoop \<Rightarrow> bytes" where
  "heard_in sock r l =
     (case map_of (clients (server l)) sock of
        None \<Rightarrow> []
      | Some c \<Rightarrow> if poll_outcome r = PollReady then round_input r sock (fst (poll_events c)) else [])"

lemma iteration_dialogues:
  assumes "server_inv (server l)" "run_iteration config r l = Some (Running wire l')" "distinct (descriptors r)"
    "set (descriptors r) = fst ` set (clients (server l))"
  shows "\<exists>es. history es (processor (server l)) (processor (server l')) \<and>
    (\<forall>sock. case map_of (clients (server l)) sock of
       None \<Rightarrow> unheard sock (server l')
     | Some c \<Rightarrow> dialogue sock (heard_in sock r l) (sent_to sock wire) es c (map_of (clients (server l')) sock))"
proof (cases "poll_outcome r = PollReady")
  case True
  let ?a = "if listenerReady r then acceptClients (accepts r) 0 (server l) else Some (server l)"
  obtain s1 s2 where s: "?a = Some s1" "handle_events r (watched r (server l)) s1 = Some (Inr (wire, s2))"
    "background_work config r (l\<lparr>server := s2\<rparr>) = Inr l'"
    using assms(2) True by (auto simp: run_iteration_def split: if_splits option.splits sum.splits prod.splits)
  have s1: "server_inv s1" "history [] (processor (server l)) (processor s1)"
    using s(1) assms(1) acceptClients_inv acceptClients_history history.start by (auto split: if_splits)
  obtain es where es: "history es (processor s1) (processor s2)"
    "\<And>sock. sock \<notin> fst ` set (watched r (server l)) \<Longrightarrow> map_of (clients s2) sock = map_of (clients s1) sock"
    "\<And>sock rd wr c. (sock, rd, wr) \<in> set (watched r (server l)) \<Longrightarrow> map_of (clients s1) sock = Some c \<Longrightarrow>
       dialogue sock (round_input r sock rd) (sent_to sock wire) es c (map_of (clients s2) sock)"
    using handle_events_dialogues [OF s1(1) s(2) watched_distinct [OF assms(3)]] by auto
  have "history es (processor (server l)) (processor (server l'))"
    using history_trans [OF background_history [OF s(3)] history_trans [OF _ s1(2)], of es] es(1) by simp
  moreover have "case map_of (clients (server l)) sock of
       None \<Rightarrow> unheard sock s2
     | Some c \<Rightarrow> dialogue sock (heard_in sock r l) (sent_to sock wire) es c (map_of (clients s2) sock)" for sock
  proof (cases "map_of (clients (server l)) sock")
    case None
    then have "sock \<notin> fst ` set (watched r (server l))" by (auto simp: watched_def List.map_filter_def)
    with es(2) None s(1) acceptClients_unheard [of "accepts r" 0 "server l" s1 sock] show ?thesis
      by (auto simp: unheard_def split: if_splits)
  next
    case (Some c)
    then have "sock \<in> set (descriptors r)" using assms(4) by (metis fst_conv image_eqI map_of_SomeD)
    with Some have "(sock, poll_events c) \<in> set (watched r (server l))"
      by (force simp: watched_def List.map_filter_def)
    moreover have "map_of (clients s1) sock = Some c" using s(1) Some acceptClients_keeps by (auto split: if_splits)
    ultimately show ?thesis using es(3) [of sock "fst (poll_events c)" "snd (poll_events c)" c] Some True by (simp add: heard_in_def)
  qed
  moreover have "clients (server l') = clients s2" using background_clients [OF s(3)] by simp
  then have "unheard sock (server l') = unheard sock s2" "map_of (clients (server l')) sock = map_of (clients s2) sock" for sock
    by (simp_all add: unheard_def)
  ultimately show ?thesis by (intro exI [of _ es]) presburger
next
  case False
  with assms(2) have "wire = []" "l' = l"
    by (cases "poll_outcome r"; simp add: run_iteration_def split: if_splits)+
  with False show ?thesis
    by (intro exI [of _ "[]"]) (auto simp: history.start heard_in_def unheard_def dialogue_silent split: option.splits)
qed

section \<open>The whole run\<close>

text \<open>
  A sequence of iterations, with the states they start in and the bytes each of them sends. The bytes a
  client sent are those of the calls of \<open>recv\<close> that are made on its socket in each iteration.
\<close>

inductive serving :: "ServerConfig \<Rightarrow> Round list \<Rightarrow> EventLoop list \<Rightarrow> (int \<times> bytes) list list \<Rightarrow> EventLoop \<Rightarrow> EventLoop \<Rightarrow> bool"
  for config where
  idle: "serving config [] [] [] l l"
| round: "serving config rs ls ws l l1 \<Longrightarrow> run_iteration config r l1 = Some (Running w l2) \<Longrightarrow>
    set (descriptors r) = fst ` set (clients (server l1)) \<Longrightarrow> distinct (descriptors r) \<Longrightarrow>
    serving config (rs @ [r]) (ls @ [l1]) (ws @ [w]) l l2"

definition heard :: "int \<Rightarrow> Round list \<Rightarrow> EventLoop list \<Rightarrow> bytes" where
  "heard sock rs ls = concat (map2 (heard_in sock) rs ls)"

definition connected :: "int \<Rightarrow> EventLoop \<Rightarrow> bool" where
  "connected sock l \<longleftrightarrow> map_of (clients (server l)) sock \<noteq> None"

text \<open>The iterations from the \<open>i\<close>-th up to the \<open>j\<close>-th.\<close>

definition between :: "nat \<Rightarrow> nat \<Rightarrow> 'a list \<Rightarrow> 'a list" where
  "between i j xs = take (j - i) (drop i xs)"

lemma between_append [simp]: "j \<le> length xs \<Longrightarrow> between i j (xs @ ys) = between i j xs"
  by (simp add: between_def)

lemma between_snoc: "i \<le> length xs \<Longrightarrow> between i (Suc (length xs)) (xs @ [x]) = between i (length xs) xs @ [x]"
  by (simp add: between_def Suc_diff_le)

lemma between_same [simp]: "between i i xs = []"
  by (simp add: between_def)

lemma length_between [simp]: "length (between i j xs) = min (j - i) (length xs - i)"
  by (simp add: between_def min.commute)

text \<open>
  The conversation with the client on a socket from the \<open>i\<close>-th state to the \<open>j\<close>-th: the events of
  these iterations explain what the client was sent by what it was heard.
\<close>

definition conversation :: "Round list \<Rightarrow> EventLoop list \<Rightarrow> (int \<times> bytes) list list \<Rightarrow> event list list \<Rightarrow> EventLoop
    \<Rightarrow> nat \<Rightarrow> nat \<Rightarrow> int \<Rightarrow> Client \<Rightarrow> bool" where
  "conversation rs ls ws ess l' i j sock c \<longleftrightarrow>
     dialogue sock (heard sock (between i j rs) (between i j ls)) (sent_to sock (concat (between i j ws))) (concat (between i j ess)) c
       (map_of (clients (server ((ls @ [l']) ! j))) sock)"

lemma serving_steps: "serving config rs ls ws l l' \<Longrightarrow> (loop_step config)\<^sup>*\<^sup>* l l'"
  by (induction rule: serving.induct) (auto intro: loop_step.iteration rtranclp.rtrancl_into_rtrancl)

lemma serving_length: "serving config rs ls ws l l' \<Longrightarrow> length ls = length rs \<and> length ws = length rs"
  by (induction rule: serving.induct) auto

lemma conversation_earlier:
  assumes "length ls = length rs" "length ws = length rs" "length ess = length rs" "j \<le> length rs"
  shows "conversation (rs @ [r]) (ls @ [l1]) (ws @ [w]) (ess @ [es]) l2 i j sock c = conversation rs ls ws ess l1 i j sock c"
proof -
  have "((ls @ [l1]) @ [l2]) ! j = (ls @ [l1]) ! j" using assms(1,4) by (simp add: nth_append)
  then show ?thesis using assms by (simp add: conversation_def)
qed

lemma conversation_next:
  assumes "length ls = length rs" "length ws = length rs" "length ess = length rs" "i \<le> length rs"
    and "conversation rs ls ws ess l1 i (length rs) sock c" "map_of (clients (server l1)) sock = Some c1"
    and "dialogue sock (heard_in sock r l1) (sent_to sock w) es c1 (map_of (clients (server l2)) sock)"
  shows "conversation (rs @ [r]) (ls @ [l1]) (ws @ [w]) (ess @ [es]) l2 i (Suc (length rs)) sock c"
proof -
  let ?b = "\<lambda>xs. between i (length rs) xs"
  have "(ls @ [l1]) ! length rs = l1" "((ls @ [l1]) @ [l2]) ! Suc (length rs) = l2" using assms(1) by (simp_all add: nth_append)
  moreover have "dialogue sock (heard sock (?b rs) (?b ls)) (sent_to sock (concat (?b ws))) (concat (?b ess)) c (Some c1)"
    using assms(1,5,6) calculation(1) by (simp only: conversation_def)
  from dialogue_trans [OF this assms(7)] have "dialogue sock (heard sock (?b rs @ [r]) (?b ls @ [l1])) (sent_to sock (concat (?b ws @ [w])))
      (concat (?b ess @ [es])) c (map_of (clients (server l2)) sock)"
    using assms(1) by (simp add: heard_def)
  ultimately show ?thesis
    using assms(1-4) between_snoc [of i rs r] between_snoc [of i ls l1] between_snoc [of i ws w] between_snoc [of i ess es]
    by (simp only: conversation_def)
qed

lemma serving_dialogues:
  assumes "serving config rs ls ws l l'" "server_inv (server l)"
  shows "\<exists>ess. length ess = length rs \<and> history (concat ess) (processor (server l)) (processor (server l')) \<and>
    (\<forall>i j sock c. i \<le> j \<and> j \<le> length rs \<and> map_of (clients (server ((ls @ [l']) ! i))) sock = Some c \<and>
       (\<forall>m. i \<le> m \<and> m < j \<longrightarrow> connected sock (ls ! m)) \<longrightarrow> conversation rs ls ws ess l' i j sock c) \<and>
    (\<forall>i < length rs. \<forall>sock c. \<not> connected sock (ls ! i) \<and> map_of (clients (server ((ls @ [l']) ! Suc i))) sock = Some c \<longrightarrow> c = new_client)"
  using assms
proof (induction rule: serving.induct)
  case (idle l)
  then show ?case
    by (intro exI [of _ "[]"]) (auto simp: history.start heard_def conversation_def intro!: dialogue_silent)
next
  case (round rs ls ws l l1 r w l2)
  obtain ess where e1: "length ess = length rs" "history (concat ess) (processor (server l)) (processor (server l1))"
    "\<forall>i j sock c. i \<le> j \<and> j \<le> length rs \<and> map_of (clients (server ((ls @ [l1]) ! i))) sock = Some c \<and>
       (\<forall>m. i \<le> m \<and> m < j \<longrightarrow> connected sock (ls ! m)) \<longrightarrow> conversation rs ls ws ess l1 i j sock c"
    "\<forall>i < length rs. \<forall>sock c. \<not> connected sock (ls ! i) \<and> map_of (clients (server ((ls @ [l1]) ! Suc i))) sock = Some c \<longrightarrow> c = new_client"
    using round.IH [OF round.prems] by (elim exE conjE)
  note talk = e1(3) [rule_format, OF conjI [OF _ conjI [OF _ conjI]]] and fresh = e1(4) [rule_format, OF _ conjI]
  have len: "length ls = length rs" "length ws = length rs" using serving_length [OF round.hyps(1)] by simp_all
  have old: "((ls @ [l1]) @ [l2]) ! m = (ls @ [l1]) ! m" if "m \<le> length rs" for m using that len by (simp add: nth_append)
  have "server_inv (server l1)" using event_loop.reach_inv [OF serving_steps [OF round.hyps(1)] round.prems] .
  from iteration_dialogues [OF this round.hyps(2,4,3)] obtain es where
    e2: "history es (processor (server l1)) (processor (server l2))"
    "\<And>sock. case map_of (clients (server l1)) sock of
       None \<Rightarrow> unheard sock (server l2)
     | Some c \<Rightarrow> dialogue sock (heard_in sock r l1) (sent_to sock w) es c (map_of (clients (server l2)) sock)"
    by blast
  have "conversation (rs @ [r]) (ls @ [l1]) (ws @ [w]) (ess @ [es]) l2 i j sock c"
    if ij: "i \<le> j" "j \<le> length (rs @ [r])" "map_of (clients (server (((ls @ [l1]) @ [l2]) ! i))) sock = Some c"
      "\<forall>m. i \<le> m \<and> m < j \<longrightarrow> connected sock ((ls @ [l1]) ! m)" for i j sock c
  proof -
    have upto: "conversation rs ls ws ess l1 i n sock c" if "i \<le> n" "n \<le> j" "n \<le> length rs" for n
    proof -
      have "connected sock (ls ! m)" if "i \<le> m \<and> m < n" for m
        using ij(4) [rule_format, of m] that \<open>n \<le> j\<close> \<open>n \<le> length rs\<close> len by (simp add: nth_append)
      then show ?thesis using ij(3) old [of i] that by (intro talk) simp_all
    qed
    consider "j \<le> length rs" | "j = Suc (length rs)" "i = j" | "j = Suc (length rs)" "i \<le> length rs"
      using ij(1,2) by fastforce
    then show ?thesis
    proof cases
      case 1
      with upto [of j] ij(1) show ?thesis by (simp only: conversation_earlier [OF len e1(1)])
    next
      case 2
      with ij(3) show ?thesis by (simp add: conversation_def heard_def dialogue_silent)
    next
      case 3
      have "(ls @ [l1]) ! length rs = l1" using len by (simp add: nth_append)
      then obtain c1 where c1: "map_of (clients (server l1)) sock = Some c1"
        using ij(4) [rule_format, of "length rs"] 3 by (auto simp: connected_def)
      with e2(2) [of sock] have "dialogue sock (heard_in sock r l1) (sent_to sock w) es c1 (map_of (clients (server l2)) sock)" by simp
      with conversation_next [OF len e1(1) 3(2) upto c1] 3 show ?thesis by simp
    qed
  qed
  moreover have "c = new_client"
    if "i < length (rs @ [r])" "\<not> connected sock ((ls @ [l1]) ! i)" "map_of (clients (server (((ls @ [l1]) @ [l2]) ! Suc i))) sock = Some c" for i sock c
  proof (cases "i < length rs")
    case True
    then have "map_of (clients (server ((ls @ [l1]) ! Suc i))) sock = Some c" using that(3) old [of "Suc i"] by simp
    with True that(2) len show ?thesis by (intro fresh [of i sock c]) (simp_all add: nth_append)
  next
    case False
    with that(1) have "i = length rs" by simp
    with that(2,3) len e2(2) [of sock] show ?thesis by (auto simp: nth_append connected_def unheard_def)
  qed
  moreover have "history (concat (ess @ [es])) (processor (server l)) (processor (server l2))"
    using history_trans [OF e2(1) e1(2)] by simp
  ultimately show ?case using e1(1) by (intro exI [of _ "ess @ [es]"]) (simp, blast)
qed

end
