(* ===== verification/FKV_Requests.thy ===== *)
theory FKV_Requests
  imports FKV_Linear
begin

text \<open>
  What the server executes can be logged: a request in array form has as many arguments, of the
  lengths, that the parser accepts again; an inline request is limited by what can have arrived when its
  line feed is seen, because a connection always waits in front of an incomplete request.
\<close>

section \<open>How far a request reaches\<close>

lemma find_crlf_shorter: "find_crlf (a @ b) = Some i \<Longrightarrow> i + 2 \<le> length a \<Longrightarrow> find_crlf a = Some i"
proof (induction a arbitrary: i rule: find_crlf.induct)
  case (3 x y xs)
  then show ?case by (auto split: if_splits)
qed simp_all

lemma find_crlf_from_shorter:
  assumes "find_crlf_from (a @ b) p = Some i" "i + 2 \<le> length a"
  shows "find_crlf_from a p = Some i"
proof -
  have "p \<le> i" using find_crlf_from_bound [OF assms(1)] by simp
  with assms have "find_crlf (drop p a @ b) = Some (i - p)" "i - p + 2 \<le> length (drop p a)"
    by (auto simp: find_crlf_from_def)
  from find_crlf_shorter [OF this] \<open>p \<le> i\<close> show ?thesis by (simp add: find_crlf_from_def)
qed

lemma parse_bulks_bulk:
  assumes "status (parse_bulks (Suc n) buf pos args) = Complete"
  obtains le b where "pos < length buf" "buf ! pos = CHR ''$''" "find_crlf_from buf (pos + 1) = Some le"
    "resp_parseInteger (take (le - pos - 1) (drop (pos + 1) buf)) = Some b" "0 \<le> b" "b \<le> int MAX_BULK_SIZE"
    "le + 2 + nat b + 2 \<le> length buf" "take 2 (drop (le + 2 + nat b) buf) = CRLF"
    "parse_bulks (Suc n) buf pos args = parse_bulks n buf (le + 2 + nat b + 2) (args @ [take (nat b) (drop (le + 2) buf)])"
proof -
  have p: "pos < length buf" "buf ! pos = CHR ''$''" using assms by (auto simp: parse_bulks_Suc split: if_splits)
  obtain le where le: "find_crlf_from buf (pos + 1) = Some le"
    using assms p by (cases "find_crlf_from buf (pos + 1)") (auto simp: parse_bulks_Suc)
  obtain b where b: "resp_parseInteger (take (le - pos - 1) (drop (pos + 1) buf)) = Some b"
    using assms p le by (cases "resp_parseInteger (take (le - pos - 1) (drop (pos + 1) buf))") (auto simp: parse_bulks_Suc)
  have r: "0 \<le> b" "b \<le> int MAX_BULK_SIZE" "le + 2 + nat b + 2 \<le> length buf"
    using assms p le b by (simp_all add: parse_bulks_Suc Let_def split: if_splits)
  note step = parse_bulks_whole [OF p le b r, of n args]
  with assms have c: "take 2 (drop (le + 2 + nat b) buf) = CRLF" by (auto split: if_splits)
  with step show thesis by (intro that [OF p le b r c]) simp
qed

text \<open>A request that is not complete in \<open>a\<close> ends behind \<open>a\<close>.\<close>

lemma parse_bulks_beyond:
  assumes "status (parse_bulks n a pos args) = Incomplete" "status (parse_bulks n (a @ b) pos args) = Complete"
  shows "length a < consumedBytes (parse_bulks n (a @ b) pos args)"
  using assms
proof (induction n arbitrary: pos args)
  case (Suc n)
  obtain le d where s: "pos < length (a @ b)" "(a @ b) ! pos = CHR ''$''" "find_crlf_from (a @ b) (pos + 1) = Some le"
    "resp_parseInteger (take (le - pos - 1) (drop (pos + 1) (a @ b))) = Some d" "0 \<le> d" "d \<le> int MAX_BULK_SIZE"
    "le + 2 + nat d + 2 \<le> length (a @ b)" "take 2 (drop (le + 2 + nat d) (a @ b)) = CRLF"
    "parse_bulks (Suc n) (a @ b) pos args = parse_bulks n (a @ b) (le + 2 + nat d + 2) (args @ [take (nat d) (drop (le + 2) (a @ b))])"
    by (rule parse_bulks_bulk [OF Suc.prems(2)])
  have c: "le + 2 + nat d + 2 \<le> consumedBytes (parse_bulks (Suc n) (a @ b) pos args)"
    using parse_bulks_consumed [OF _ s(7)] Suc.prems(2) s(9) by metis
  show ?case
  proof (cases "le + 2 + nat d + 2 \<le> length a")
    case False
    with c show ?thesis by simp
  next
    case True
    have le: "pos + 1 \<le> le" using find_crlf_from_bound [OF s(3)] by simp
    have "find_crlf_from a (pos + 1) = Some le" using find_crlf_from_shorter [OF s(3)] True by simp
    moreover have "take (le - pos - 1) (drop (pos + 1) (a @ b)) = take (le - pos - 1) (drop (pos + 1) a)"
      "take 2 (drop (le + 2 + nat d) (a @ b)) = take 2 (drop (le + 2 + nat d) a)"
      "take (nat d) (drop (le + 2) (a @ b)) = take (nat d) (drop (le + 2) a)"
      using True le by (intro take_drop_append_left; simp)+
    moreover have "pos < length a" "a ! pos = CHR ''$''" using True le s(2) by (auto simp: nth_append)
    ultimately have "parse_bulks (Suc n) a pos args = parse_bulks n a (le + 2 + nat d + 2) (args @ [take (nat d) (drop (le + 2) (a @ b))])"
      using parse_bulks_whole [of pos a le d n args] s(4-6,8) True by simp
    with Suc.IH [of "le + 2 + nat d + 2"] Suc.prems s(9) show ?thesis by simp
  qed
qed simp

lemma result_distinct [simp]: "incompleteResult \<noteq> completeResult args n" "errorResult m \<noteq> completeResult args n"
  "errorResult m \<noteq> incompleteResult" "completeResult args n \<noteq> incompleteResult"
  by (metis RespParseStatus.distinct result_sels(1-3))+

text \<open>The two forms of a complete request.\<close>

lemma request_forms:
  assumes "parseRespCommand s = completeResult args n"
  obtains (array) ce m where "hd s = CHR ''*''" "find_crlf_from s 1 = Some ce" "resp_parseInteger (take (ce - 1) (drop 1 s)) = Some m"
      "0 \<le> m" "m \<le> int MAX_ARGUMENTS" "parse_bulks (nat m) s (ce + 2) [] = completeResult args n"
    | (inline) i where "hd s \<noteq> CHR ''*''" "find_char LF s = Some i" "n = i + 1" "tokenizeCommandLine (take i s) = Some args"
proof (cases "hd s = CHR ''*''")
  case True
  have ne: "s \<noteq> []" using assms by (auto simp: parseRespCommand_def)
  with True assms obtain ce where ce: "find_crlf_from s 1 = Some ce"
    by (cases "find_crlf_from s 1") (simp_all add: parseRespCommand_def)
  with True ne assms obtain m where m: "resp_parseInteger (take (ce - 1) (drop 1 s)) = Some m"
    by (cases "resp_parseInteger (take (ce - 1) (drop 1 s))") (simp_all add: parseRespCommand_def)
  from True ne assms ce m have "0 \<le> m" "m \<le> int MAX_ARGUMENTS" "parse_bulks (nat m) s (ce + 2) [] = completeResult args n"
    by (auto simp: parseRespCommand_def split: if_splits)
  with True ce m array show thesis by blast
next
  case False
  with assms inline show thesis
    by (auto simp: parseRespCommand_def parseInlineCommand_def split: option.splits if_splits)
qed

lemma parse_beyond:
  assumes "parseRespCommand a = incompleteResult" "parseRespCommand (a @ b) = completeResult args n"
  shows "length a < n"
proof (cases "a = []")
  case True
  with parse_consumed [of b] assms(2) show ?thesis by simp
next
  case False
  with assms(2) show ?thesis
  proof (cases rule: request_forms)
    case (array ce m)
    have "ce + 2 \<le> n"
      using parse_bulks_consumed [of "nat m" "a @ b" "ce + 2" "[]"] array(6) find_crlf_from_bound [OF array(2)] by simp
    show ?thesis
    proof (cases "ce + 2 \<le> length a")
      case fits: True
      have "take (ce - 1) (drop 1 (a @ b)) = take (ce - 1) (drop 1 a)"
        using fits find_crlf_from_bound [OF array(2)] by (intro take_drop_append_left) simp
      with array(3) have m: "resp_parseInteger (take (ce - 1) (drop 1 a)) = Some m" by (simp only:)
      have "hd a = CHR ''*''" using array(1) False by simp
      with assms(1) False m array(4,5) find_crlf_from_shorter [OF array(2) fits]
      have "parse_bulks (nat m) a (ce + 2) [] = incompleteResult" by (simp add: parseRespCommand_def)
      with parse_bulks_beyond [of "nat m" a "ce + 2" "[]" b] array(6) show ?thesis by simp
    qed (use \<open>ce + 2 \<le> n\<close> in simp)
  next
    case (inline i)
    have "find_char LF a = None"
      using assms(1) False inline(1)
      by (auto simp: parseRespCommand_def parseInlineCommand_def split: option.splits if_splits)
    then have "LF \<notin> set a" by (induction a) (auto split: if_splits)
    with find_char_Some [OF inline(2)] have "\<not> i < length a" by (metis nth_append nth_mem)
    with inline(3) show ?thesis by simp
  qed
qed

section \<open>What can be logged\<close>

lemma parse_bulks_sizes:
  assumes "parse_bulks k s pos as = completeResult args n" "\<forall>a \<in> set as. length a \<le> MAX_BULK_SIZE"
  shows "length args = length as + k" "\<forall>a \<in> set args. length a \<le> MAX_BULK_SIZE"
proof -
  have "length args = length as + k \<and> (\<forall>a \<in> set args. length a \<le> MAX_BULK_SIZE)"
    using assms
  proof (induction k arbitrary: pos as)
    case (Suc k)
    have "status (parse_bulks (Suc k) s pos as) = Complete" using Suc.prems(1) by simp
    then obtain le d where d: "d \<le> int MAX_BULK_SIZE"
      "parse_bulks (Suc k) s pos as = parse_bulks k s (le + 2 + nat d + 2) (as @ [take (nat d) (drop (le + 2) s)])"
      using parse_bulks_bulk by metis
    from Suc.IH [of "le + 2 + nat d + 2" "as @ [take (nat d) (drop (le + 2) s)]"] Suc.prems d show ?case by auto
  qed simp
  then show "length args = length as + k" "\<forall>a \<in> set args. length a \<le> MAX_BULK_SIZE" by blast+
qed

lemma read_argument_size:
  "read_argument d q cur line = Some (arg, rest) \<Longrightarrow> length arg + length rest \<le> length cur + length line"
proof (induction d q cur line rule: read_argument.induct)
  case (1 d q cur)
  then show ?case by (simp split: if_splits)
next
  case (2 d q cur c cs)
  have "length (snd (read_escape cs)) \<le> length cs" "length (tl cs) \<le> length cs" using read_escape_length by simp_all
  with 2 show ?case by (simp split: if_splits) (fastforce split: if_splits)+
qed

lemma tokenize_size:
  "tokenize_loop as line = Some args \<Longrightarrow> \<forall>a \<in> set as. length a \<le> m \<Longrightarrow> length line \<le> m \<Longrightarrow>
     length args \<le> length as + length line \<and> (\<forall>a \<in> set args. length a \<le> m)"
proof (induction as line rule: tokenize_loop.induct)
  case (1 as line)
  show ?case
  proof (cases "dropWhile isSpace line")
    case Nil
    with "1.prems" show ?thesis by (simp add: tokenize_loop.simps [of as line])
  next
    case (Cons c cs)
    have le: "length (c # cs) \<le> length line" using length_dropWhile_le [of isSpace line] Cons by simp
    from "1.prems"(1) Cons obtain arg rest where r: "read_argument False False [] (c # cs) = Some (arg, rest)"
      "tokenize_loop (as @ [arg]) rest = Some args"
      by (simp add: tokenize_loop.simps [of as line] split: option.splits prod.splits)
    have "\<not> isSpace c" using Cons by (metis hd_dropWhile list.distinct(1) list.sel(1))
    then have p: "length rest \<le> length cs" using read_argument_progress [OF r(1)] by simp
    have "length arg \<le> m" "length rest \<le> m" using read_argument_size [OF r(1)] le "1.prems"(3) by simp_all
    with "1.IH" [OF Cons r(1) refl r(2)] "1.prems"(2) le p show ?thesis by auto
  qed
qed

lemma request_loggable:
  assumes "parseRespCommand s = completeResult args n" "args \<noteq> []" "hd s = CHR ''*'' \<or> n \<le> MAX_ARGUMENTS"
  shows "loggable args"
  using assms(1)
proof (cases rule: request_forms)
  case (array ce m)
  with parse_bulks_sizes [OF array(6)] assms(2) show ?thesis by (auto simp: loggable_def)
next
  case (inline i)
  then have "i \<le> MAX_ARGUMENTS" "MAX_ARGUMENTS \<le> MAX_BULK_SIZE" using assms(3) by (simp_all add: MAX_ARGUMENTS_def MAX_BULK_SIZE_def)
  moreover have "length args \<le> length (take i s)" "\<forall>a \<in> set args. length a \<le> i"
    using tokenize_size [of "[]" "take i s" args i] inline(4) by (simp_all add: tokenizeCommandLine_def)
  ultimately show ?thesis using assms(2) by (force simp: loggable_def)
qed

section \<open>Connections wait in front of an incomplete request\<close>

definition waiting :: "Client \<Rightarrow> bool" where
  "waiting c \<longleftrightarrow> closeAfterWrite c \<or> parseRespCommand (input_buf c) = incompleteResult"

lemma waiting_new [simp]: "waiting new_client"
  by (simp add: waiting_def new_client_def parseRespCommand_def)

lemma process_loop_waits:
  assumes "process_loop inp k c p = (Inr n, c', p')"
  shows "closeAfterWrite c' \<or> parseRespCommand (drop n inp) = incompleteResult"
  using assms
proof (induction k c p rule: process_induct [where inp = inp])
  case (command k c p args m)
  then show ?case by (auto simp: process_command split: prod.splits sum.splits)
qed (auto simp: process_stop process_incomplete process_error process_blank parseRespCommand_def)

lemma processInput_waits: "processInput c p = (Inr x, c', p') \<Longrightarrow> waiting c'"
proof -
  assume a: "processInput c p = (Inr x, c', p')"
  then obtain n c1 where l: "process_loop (input_buf c) 0 c p = (Inr n, c1, p')" "c' = c1\<lparr>input_buf := drop n (input_buf c1)\<rparr>"
    by (auto simp: processInput_def split: prod.splits sum.splits)
  have "c1\<lparr>input_buf := input_buf c\<rparr> = c1"
    using process_loop_frame [where inp = "input_buf c" and consumed = 0 and c = c and b = "input_buf c" and p = p] l(1) by simp
  then have "input_buf c1 = input_buf c" by (metis Client.ext_inject Client.surjective Client.update_convs(1))
  with process_loop_waits [OF l(1)] l(2) show "waiting c'" by (auto simp: waiting_def)
qed

lemma readFromClient_waits: "readFromClient rv c p = (Inr True, c', p') \<Longrightarrow> waiting c'"
  by (auto simp: readFromClient_def waiting_def [of "_\<lparr>closeAfterWrite := True\<rparr>"] dest: processInput_waits
      split: prod.splits read_end.splits if_splits sum.splits)

lemma flush_and_write_waits: "flush_and_write sd c s = Some (ok, sent, c', s') \<Longrightarrow> waiting c' = waiting c"
  by (auto simp: flush_and_write_def conserves_def waiting_def dest!: writeToClient_conserves split: if_splits option.splits)

definition all_waiting :: "Server \<Rightarrow> bool" where
  "all_waiting s \<longleftrightarrow> (\<forall>sock c. map_of (clients s) sock = Some c \<longrightarrow> waiting c)"

lemma all_waiting_close: "all_waiting s \<Longrightarrow> all_waiting (close_client sock s)"
  by (auto simp: all_waiting_def close_client_lookup split: if_splits)

lemma all_waiting_accept: "all_waiting s \<Longrightarrow> all_waiting (accept_client sock s)"
  by (auto simp: all_waiting_def accept_client_def Let_def update_conv' split: if_splits)

lemma handleClientEvents_waits:
  assumes "handleClientEvents sock err inp rv sd s = Some (Inr (sent, s'))" "all_waiting s"
  shows "all_waiting s'"
proof (cases "map_of (clients s) sock")
  case None
  with assms show ?thesis by (simp add: handleClientEvents_def)
next
  case (Some c)
  show ?thesis
  proof (cases err)
    case True
    with Some assms show ?thesis using all_waiting_close by (auto simp: handleClientEvents_def)
  next
    case False
    let ?read = "if inp then readFromClient rv c (processor s) else (Inr True, c, processor s)"
    obtain keep c1 p1 where r: "?read = (Inr keep, c1, p1)"
      using Some False assms(1) by (cases ?read) (auto simp: handleClientEvents_def split: sum.splits)
    have others: "map_of (clients s') sock' = Some d \<Longrightarrow> sock' \<noteq> sock \<Longrightarrow> waiting d" for sock' d
      using handleClientEvents_others [OF assms(1)] assms(2) by (auto simp: all_waiting_def)
    have "waiting d" if d: "map_of (clients s') sock = Some d" for d
    proof (cases keep)
      case False
      with r Some \<open>\<not> err\<close> assms(1) d show ?thesis by (auto simp: handleClientEvents_def Let_def close_client_lookup)
    next
      case True
      have "waiting c1" using r True Some assms(2) readFromClient_waits by (auto simp: all_waiting_def split: if_splits)
      with True r Some \<open>\<not> err\<close> assms(1) d show ?thesis
        using flush_and_write_waits
        by (fastforce simp: handleClientEvents_def Let_def close_client_lookup update_conv' split: option.splits if_splits)
    qed
    with others show ?thesis unfolding all_waiting_def by metis
  qed
qed

section \<open>The commands of a turn\<close>

lemma requests_small:
  "requests_in s cmds t \<Longrightarrow> length s \<le> MAX_ARGUMENTS \<Longrightarrow> \<forall>args \<in> set cmds. loggable args"
proof (induction rule: requests_in.induct)
  case (request s args n cmds t)
  have "n \<le> length s" using parse_consumed [of s] request.hyps(1) by simp
  then have "loggable args" using request_loggable [OF request.hyps(1,2)] request.prems by simp
  with request.IH request.prems show ?case by simp
qed simp_all

lemma length_delivered: "length (delivered rv k) \<le> k * READ_CHUNK_SIZE"
  by (induction k) (auto simp: delivered_def chunk_of_def split: recv_result.split)

text \<open>The first request may have begun long ago; all others are in what has just arrived.\<close>

lemma requests_loggable:
  assumes "requests_in (old @ new) cmds t" "parseRespCommand old = incompleteResult" "length new \<le> MAX_READS_PER_EVENT * READ_CHUNK_SIZE"
  shows "\<forall>args \<in> set cmds. loggable args"
proof -
  have new: "length new + MAX_INLINE_SIZE \<le> MAX_ARGUMENTS"
    using assms(3) by (simp add: MAX_READS_PER_EVENT_def READ_CHUNK_SIZE_def MAX_ARGUMENTS_def MAX_INLINE_SIZE_def)
  have rest: "\<forall>args \<in> set cs. loggable args"
    if "parseRespCommand (old @ new) = completeResult as n" "requests_in (drop n (old @ new)) cs t" for as n cs
    using requests_small [OF that(2)] parse_beyond [OF assms(2) that(1)] new by simp
  have first: "loggable as" if p: "parseRespCommand (old @ new) = completeResult as n" "as \<noteq> []" for as n
  proof (rule request_loggable [OF p])
    have "n \<le> length (old @ new)" using parse_consumed [of "old @ new"] p(1) by simp
    moreover have "length old \<le> MAX_INLINE_SIZE" if "old \<noteq> []" "hd old \<noteq> CHR ''*''"
      using assms(2) that by (auto simp: parseRespCommand_def parseInlineCommand_def split: option.splits if_splits)
    ultimately show "hd (old @ new) = CHR ''*'' \<or> n \<le> MAX_ARGUMENTS"
      using new by (cases "old = []"; cases "hd old = CHR ''*''") auto
  qed
  from assms(1) show ?thesis by (cases rule: requests_in.cases) (use rest first in auto)
qed

end
