(* ===== verification/FKV_Journal.thy ===== *)
theory FKV_Journal
  imports FKV_Main
begin

text \<open>
  Commands only append to the log. Executing a command changes the append-only file by adding bytes at
  the end of its buffer, whatever the command and its outcome are; writing the buffer out moves bytes
  from the buffer to the file and loses none, and all of them when the system does not fail. Every
  sending is recorded by the server together with the file at that moment; a reply leaves only when
  the log of all commands executed so far is in the file.
\<close>

section \<open>Appending\<close>

definition appends :: "bytes \<Rightarrow> CommandProcessor \<Rightarrow> CommandProcessor \<Rightarrow> bool" where
  "appends b p p' \<longleftrightarrow> aof p' = map_option (\<lambda>a. a\<lparr>buffer := buffer a @ b\<rparr>) (aof p)"

definition appending :: "CommandProcessor \<Rightarrow> CommandProcessor \<Rightarrow> bool" where
  "appending p p' \<longleftrightarrow> (\<exists>b. appends b p p')"

lemma appends_trans: "appends b p q \<Longrightarrow> appends b' q r \<Longrightarrow> appends (b @ b') p r"
  by (simp add: appends_def option.map_comp o_def)

lemma appending_trans: "appending p q \<Longrightarrow> appending q r \<Longrightarrow> appending p r"
  unfolding appending_def by (blast intro: appends_trans)

lemma appends_same: "aof p' = aof p \<Longrightarrow> appends [] p p'"
  by (simp add: appends_def option.map_ident)

lemma appending_same: "aof p' = aof p \<Longrightarrow> appending p p'"
  using appends_same by (auto simp: appending_def)

lemma appending_refl [simp]: "appending p p"
  by (rule appending_same) simp

lemma appending_propagate: "appending p q \<Longrightarrow> appending p (propagate l q)"
proof -
  have "appends (respArray l) q (propagate l q)" by (simp add: appends_def propagate_def aof_append_def split: option.split)
  then have "appending q (propagate l q)" by (auto simp: appending_def)
  then show "appending p q \<Longrightarrow> appending p (propagate l q)" using appending_trans by blast
qed

lemma appending_call: "appending p q \<Longrightarrow> appending p (snd (db_call f q))"
  by (rule appending_trans, assumption, rule appending_same) (simp add: db_call_def split_def Let_def)

lemma appending_database: "appending p q \<Longrightarrow> appending p (q\<lparr>database := db\<rparr>)"
  by (rule appending_trans, assumption, rule appending_same) simp

lemma appending_then:
  "appending p (snd rp) \<Longrightarrow> (\<And>x q. appending p q \<Longrightarrow> appending p (snd (g x q))) \<Longrightarrow> appending p (snd (and_then rp g))"
  by (auto simp: and_then_def split: prod.splits sum.splits)

lemma appending_dels: "appending p q \<Longrightarrow> appending p (propagate_dels ks q)"
  unfolding propagate_dels_def by (induction ks arbitrary: q) (simp_all add: appending_propagate)

lemma appending_evict: "appending p q \<Longrightarrow> appending p (snd (evict_and_log q))"
  by (simp add: evict_and_log_def split_def appending_dels appending_database)

lemma appending_when: "appending p q \<Longrightarrow> appending p (snd (expire_when a u b q))"
  by (auto simp: expire_when_def Let_def split_def intro: appending_call split: option.split)

lemmas appending_intros = appending_propagate appending_call appending_database appending_then appending_dels appending_evict
  appending_when

lemma appending_set_options: "appending p q \<Longrightarrow> appending p (snd (set_options as opts q))"
proof (induction as opts q rule: set_options.induct)
  case (2 a rest opts q)
  then show ?case
    by (auto simp: Let_def intro: appending_when split: list.split option.split prod.split)
      (metis appending_when snd_conv)+
qed simp

section \<open>The handlers\<close>

definition journals :: "handler \<Rightarrow> bool" where
  "journals h \<longleftrightarrow> (\<forall>args p. appending p (snd (h args p)))"

lemma journals_server:
  "journals cmd_ping" "journals cmd_echo" "journals cmd_select" "journals cmd_commandInfo" "journals cmd_dbsize"
  "journals cmd_flushall" "journals cmd_info" "journals cmd_config" "journals cmd_memory"
  by (auto simp: journals_def cmd_ping_def cmd_echo_def cmd_select_def cmd_commandInfo_def cmd_dbsize_def cmd_flushall_def
      cmd_info_def cmd_config_def cmd_memory_def Let_def split_def intro!: appending_intros split: option.split)

lemma journals_keyspace:
  "journals cmd_del" "journals cmd_exists" "journals cmd_type" "journals cmd_keys" "journals cmd_expire" "journals cmd_pexpire"
  "journals cmd_expireat" "journals cmd_pexpireat" "journals cmd_ttl" "journals cmd_pttl" "journals cmd_persist"
  by (auto simp: journals_def cmd_del_def cmd_exists_def cmd_type_def cmd_keys_def cmd_expire_def cmd_pexpire_def cmd_expireat_def
      cmd_pexpireat_def expireGeneric_def propagateExpiry_def cmd_ttl_def cmd_pttl_def cmd_persist_def Let_def case_prod_unfold
      intro!: appending_intros split: option.split)

lemma journals_set: "journals cmd_set"
  unfolding journals_def
proof (intro allI)
  fix args p
  let ?o = "set_options (drop 3 args) \<lparr>onlyIfMissing = False, onlyIfPresent = False, deadline = None\<rparr> p"
  have o: "appending p (snd ?o)" by (rule appending_set_options) simp
  have step: "appending p (propagateExpiry k d (snd (db_call f (propagate l (q\<lparr>database := db\<rparr>)))))"
    "appending p (propagate l (q\<lparr>database := db\<rparr>))" if "appending p q" for k d f l db q
    using that by (simp_all add: propagateExpiry_def appending_intros)
  show "appending p (snd (cmd_set args p))"
  proof (cases ?o)
    case (Pair r p1)
    with o have p1: "appending p p1" by simp
    have p2: "appending p (snd (db_call f p1))" for f using p1 by (rule appending_call)
    show ?thesis
    proof (cases r)
      case (Inr opts)
      with Pair show ?thesis
        by (cases "deadline opts") (simp_all add: cmd_set_def Let_def case_prod_unfold p1 p2 step)
    qed (use Pair p1 in \<open>simp add: cmd_set_def Let_def\<close>)
  qed
qed

lemma journals_strings:
  "journals cmd_get" "journals cmd_mset" "journals cmd_mget" "journals cmd_strlen"
  by (auto simp: journals_def cmd_get_def cmd_mset_def cmd_mget_def cmd_strlen_def Let_def case_prod_unfold
      intro!: appending_intros)

lemma journals_counters:
  "journals cmd_incr" "journals cmd_decr" "journals cmd_incrby" "journals cmd_decrby" "journals cmd_append"
  by (auto simp: journals_def cmd_incr_def cmd_decr_def cmd_incrby_def cmd_decrby_def cmd_append_def Let_def
      intro!: appending_intros split: option.split)

lemma journals_lists:
  "journals cmd_lpush" "journals cmd_rpush" "journals cmd_lpop" "journals cmd_rpop" "journals cmd_lrange" "journals cmd_llen"
  "journals cmd_lindex"
  by (auto simp: journals_def cmd_lpush_def cmd_rpush_def cmd_lpop_def cmd_rpop_def cmd_lrange_def cmd_llen_def cmd_lindex_def
      intro!: appending_intros split: option.split)

lemma journals_hashes:
  "journals cmd_hset" "journals cmd_hget" "journals cmd_hdel" "journals cmd_hgetall" "journals cmd_hlen"
  "journals cmd_hexists" "journals cmd_hkeys" "journals cmd_hvals"
  by (auto simp: journals_def cmd_hset_def cmd_hget_def cmd_hdel_def cmd_hgetall_def cmd_hlen_def cmd_hexists_def cmd_hkeys_def
      cmd_hvals_def intro!: appending_intros)

lemma journals_sets:
  "journals cmd_sadd" "journals cmd_srem" "journals cmd_smembers" "journals cmd_sismember" "journals cmd_scard"
  by (auto simp: journals_def cmd_sadd_def cmd_srem_def cmd_smembers_def cmd_sismember_def cmd_scard_def intro!: appending_intros)

lemmas journals_all = journals_server journals_keyspace journals_set journals_strings journals_counters journals_lists
  journals_hashes journals_sets

lemma table_journals: "(name, spec) \<in> set commandTable \<Longrightarrow> journals (spec_handler spec)"
  by (auto simp: commandTable_def command_spec_def journals_all)

lemma appending_handler:
  assumes "map_of commandTable name = Some spec" "appending p q"
  shows "appending p (snd (call_handler spec args q))"
proof -
  have "appending q (snd (spec_handler spec args q))"
    using table_journals [OF map_of_SomeD [OF assms(1)]] by (simp add: journals_def)
  with assms(2) show ?thesis by (simp add: call_handler_def Let_def case_prod_unfold appending_trans)
qed

lemma appending_run_write:
  assumes "map_of commandTable name = Some spec" "appending p q"
  shows "appending p (snd (run_write spec args q))"
proof -
  have "appending p (snd (and_then (evict_and_log q) (\<lambda>withinLimit p1.
    if \<not> withinLimit \<and> denyOom spec then (Inr reply, p1) else call_handler spec args p1)))" for reply
    by (rule appending_then [OF appending_evict [OF assms(2)]]) (simp add: appending_handler [OF assms(1)])
  with assms(2) show ?thesis by (simp add: run_write_def)
qed

lemma execute_appends: "appending p (snd (execute args p))"
proof -
  let ?p = "p\<lparr>serverStats := (serverStats p)\<lparr>totalCommands := totalCommands (serverStats p) + 1\<rparr>\<rparr>"
  have start: "appending p ?p" by (rule appending_same) simp
  show ?thesis
  proof (cases "map_of commandTable (uppercase (args ! 0))")
    case None
    with start show ?thesis by (simp add: execute_def Let_def)
  next
    case (Some spec)
    with start appending_handler [OF Some start] appending_run_write [OF Some start] show ?thesis
      by (simp add: execute_def Let_def)
  qed
qed

lemma process_loop_appends: "appending p (snd (snd (process_loop inp k c p)))"
proof (induction k c p rule: process_induct [where inp = inp])
  case (command k c p args m)
  obtain res p1 where e: "execute args p = (res, p1)" by (cases "execute args p")
  with execute_appends [of p args] have p1: "appending p p1" by simp
  show ?case
  proof (cases res)
    case (Inl x)
    with command.hyps e p1 show ?thesis by (simp add: process_command)
  next
    case (Inr reply)
    with command.hyps e appending_trans [OF p1 command.IH] show ?thesis by (simp add: process_command)
  qed
qed (simp_all add: process_stop process_incomplete process_error process_blank)

lemma readFromClient_appends:
  assumes "readFromClient rv c p = (x, c', p')"
  shows "appending p p'"
proof -
  have "appending p p1" if "processInput c1 p = (y, c2, p1)" for c1 c2 p1 y
    using process_loop_appends [of p "input_buf c1" 0 c1] that by (auto simp: processInput_def split: prod.splits sum.splits)
  with assms show ?thesis
    by (auto simp: readFromClient_def split: prod.splits sum.splits read_end.splits if_splits)
qed

section \<open>Writing out\<close>

text \<open>Everything that was logged so far, on disk or in the buffer.\<close>

definition ledger :: "Server \<Rightarrow> bytes" where
  "ledger s = (case aof (processor s) of None \<Rightarrow> [] | Some a \<Rightarrow> stored a (os s))"

text \<open>A file that is open, on a system whose writes do not fail.\<close>

definition reliable :: "Server \<Rightarrow> bool" where
  "reliable s \<longleftrightarrow> pred_option (\<lambda>a. fileDescriptor a \<noteq> -1) (aof (processor s)) \<and>
     (\<forall>n. writes (os s) n \<notin> {WriteError, Wrote 0})"

lemma flush_loop_complete:
  assumes "flush_loop b w os0 = Some (ok, n, os1)" "\<forall>n. writes os0 n \<notin> {WriteError, Wrote 0}"
  shows "ok"
proof -
  have "(\<forall>n. writes os0 n \<notin> {WriteError, Wrote 0}) \<longrightarrow> fst (ok, n, os1)"
  proof (rule flush_loop.raw_induct [OF _ assms(1)], goal_cases)
    case (1 rec b w os0 r)
    show ?case
    proof (cases "w < length b")
      case True
      then show ?thesis
        using 1 by (cases "writes os0 (calls os0)") (auto simp: os_write_def Let_def min_def split: if_splits)
    qed (use 1 in auto)
  qed
  with assms(2) show ?thesis by simp
qed

lemma flush_loop_writes:
  assumes "flush_loop b w os0 = Some (ok, n, os1)"
  shows "writes os1 = writes os0"
proof -
  have "writes (snd (snd (ok, n, os1))) = writes os0"
  proof (rule flush_loop.raw_induct [OF _ assms(1)], goal_cases)
    case (1 rec b w os0 r)
    show ?case
    proof (cases "w < length b")
      case True
      then show ?thesis
        using 1 by (cases "writes os0 (calls os0)") (auto simp: os_write_def Let_def split: if_splits)
    qed (use 1 in auto)
  qed
  then show ?thesis by simp
qed

lemma aof_flush_grows:
  assumes "aof_flush a os0 = Some (ok, a', os1)"
  shows "writes os1 = writes os0" "fileDescriptor a' = fileDescriptor a" "prefix (disk_bytes os0) (disk_bytes os1)"
    "fileDescriptor a \<noteq> -1 \<Longrightarrow> \<forall>n. writes os0 n \<notin> {WriteError, Wrote 0} \<Longrightarrow> buffer a' = []"
proof -
  consider "a' = a" "os1 = os0" "buffer a = [] \<or> fileDescriptor a = -1"
    | n where "flush_loop (buffer a) 0 os0 = Some (ok, n, os1)" "fileDescriptor a' = fileDescriptor a" "ok \<longrightarrow> buffer a' = []"
    using assms by (auto simp: aof_flush_def split: if_splits option.splits bool.splits prod.splits)
  then have "writes os1 = writes os0 \<and> fileDescriptor a' = fileDescriptor a \<and> prefix (disk_bytes os0) (disk_bytes os1) \<and>
    (fileDescriptor a \<noteq> -1 \<longrightarrow> (\<forall>n. writes os0 n \<notin> {WriteError, Wrote 0}) \<longrightarrow> buffer a' = [])"
  proof cases
    case (2 n)
    with flush_loop_writes [OF 2(1)] flush_loop_written [OF 2(1)] flush_loop_complete [OF 2(1)] show ?thesis by auto
  qed auto
  then show "writes os1 = writes os0" "fileDescriptor a' = fileDescriptor a" "prefix (disk_bytes os0) (disk_bytes os1)"
    "fileDescriptor a \<noteq> -1 \<Longrightarrow> \<forall>n. writes os0 n \<notin> {WriteError, Wrote 0} \<Longrightarrow> buffer a' = []" by blast+
qed

section \<open>The log during a run\<close>

text \<open>What every step of the server does to the log: nothing that was logged or written is lost or moved.\<close>

definition grows :: "Server \<Rightarrow> Server \<Rightarrow> bool" where
  "grows s s' \<longleftrightarrow> prefix (ledger s) (ledger s') \<and> prefix (disk_bytes (os s)) (disk_bytes (os s')) \<and> (reliable s \<longrightarrow> reliable s') \<and>
     (aof (processor s') = None \<longleftrightarrow> aof (processor s) = None)"

lemma grows_trans [trans]: "grows s t \<Longrightarrow> grows t u \<Longrightarrow> grows s u"
  unfolding grows_def by (auto intro: prefix_order.trans)

lemma grows_same: "aof (processor s') = aof (processor s) \<Longrightarrow> os s' = os s \<Longrightarrow> grows s s'"
  by (simp add: grows_def ledger_def reliable_def split: option.split)

lemma grows_appending: "appending (processor s) (processor s') \<Longrightarrow> os s' = os s \<Longrightarrow> grows s s'"
  by (auto simp: grows_def ledger_def reliable_def stored_def appending_def appends_def option.pred_map split: option.split)

lemma grows_close: "grows s (close_client sock s)"
  by (rule grows_same) (simp_all add: close_client_def Let_def)

lemma grows_accept: "grows s (accept_client sock s)"
  by (rule grows_same) (simp_all add: accept_client_def Let_def)

lemma grows_cron: "server_cron b s = (n, s') \<Longrightarrow> grows s s'"
  by (rule grows_same) (auto simp: server_cron_def split: prod.splits)

lemma grows_sync: "grows s (server_sync ok s)"
  by (auto simp: grows_def ledger_def reliable_def server_sync_def Let_def stored_def aof_sync_def option.pred_map split: option.split)

lemma flush_and_write_grows:
  assumes "flush_and_write sd c s = Some (ok, sent, c', s')"
  shows "grows s s'" "reliable s \<Longrightarrow> sent \<noteq> [] \<Longrightarrow> aof (processor s) \<noteq> None \<Longrightarrow> disk_bytes (os s') = ledger s'"
proof -
  consider "processor s' = processor s" "os s' = os s" "sent = [] \<or> aof (processor s) = None"
    | a flushed a' where "aof (processor s) = Some a" "aof_flush a (os s) = Some (flushed, a', os s')" "aof (processor s') = Some a'"
    using assms by (auto simp: flush_and_write_def split: if_splits option.splits)
  then have "grows s s' \<and> (reliable s \<longrightarrow> sent \<noteq> [] \<longrightarrow> aof (processor s) \<noteq> None \<longrightarrow> disk_bytes (os s') = ledger s')"
  proof cases
    case (2 a flushed a')
    from aof_flush_grows [OF 2(2)] stored_flush(1) [OF 2(2)] 2 show ?thesis
      by (auto simp: grows_def ledger_def reliable_def stored_def)
  qed (auto simp: grows_same)
  then show "grows s s'" "reliable s \<Longrightarrow> sent \<noteq> [] \<Longrightarrow> aof (processor s) \<noteq> None \<Longrightarrow> disk_bytes (os s') = ledger s'" by blast+
qed

text \<open>What is sent leaves when the file is as it is at the end.\<close>

lemma flush_and_write_traffic:
  assumes "flush_and_write sd c s = Some (ok, sent, c', s')" "sent \<noteq> []"
  shows "traffic s' = traffic s @ [(sent, disk_bytes (os s'))]"
  using assms by (auto simp: flush_and_write_def record_traffic_def split: if_splits option.splits)

text \<open>
  One client's turn: the log grows, and when bytes of a reply went out and the system does not fail,
  all of the log is in the file.
\<close>

lemma turn_grows:
  assumes "appending (processor s) p1" "flush_and_write sd c1 (s\<lparr>processor := p1, clients := cs\<rparr>) = Some (ok, sent, c2, s2)"
    "aof (processor s') = aof (processor s2)" "os s' = os s2"
  shows "grows s s'" "reliable s \<Longrightarrow> sent \<noteq> [] \<Longrightarrow> prefix (ledger s') (disk_bytes (os s'))"
proof -
  let ?s1 = "s\<lparr>processor := p1, clients := cs\<rparr>"
  have g1: "grows s ?s1" by (rule grows_appending) (simp_all add: assms(1))
  have "grows s2 s'" by (rule grows_same) (simp_all add: assms(3,4))
  with grows_trans [OF g1 flush_and_write_grows(1) [OF assms(2)]] show "grows s s'" by (rule grows_trans)
  assume "reliable s" "sent \<noteq> []"
  show "prefix (ledger s') (disk_bytes (os s'))"
  proof (cases "aof (processor ?s1)")
    case None
    with assms(2) have "aof (processor s2) = None" by (auto simp: flush_and_write_def split: if_splits option.splits)
    with assms(3) show ?thesis by (simp add: ledger_def)
  next
    case (Some a)
    have "reliable ?s1" using g1 \<open>reliable s\<close> by (simp add: grows_def)
    with Some flush_and_write_grows(2) [OF assms(2)] \<open>sent \<noteq> []\<close> have "disk_bytes (os s2) = ledger s2" by simp
    moreover have "ledger s' = ledger s2" by (simp add: ledger_def assms(3,4) split: option.split)
    ultimately show ?thesis by (simp add: assms(4))
  qed
qed

lemma handleClientEvents_grows:
  assumes "handleClientEvents sock err inp rv sd s = Some (Inr (sent, s'))"
  shows "grows s s' \<and> (reliable s \<longrightarrow> sent \<noteq> [] \<longrightarrow> prefix (ledger s') (disk_bytes (os s')))"
proof (cases "map_of (clients s) sock")
  case None
  with assms show ?thesis by (simp add: handleClientEvents_def grows_same)
next
  case (Some c)
  show ?thesis
  proof (cases err)
    case True
    with Some assms show ?thesis by (auto simp: handleClientEvents_def grows_close)
  next
    case False
    let ?read = "if inp then readFromClient rv c (processor s) else (Inr True, c, processor s)"
    obtain keep c1 p1 where r: "?read = (Inr keep, c1, p1)"
      using Some False assms by (cases ?read) (auto simp: handleClientEvents_def split: sum.splits)
    have p1: "appending (processor s) p1" using r readFromClient_appends by (auto split: if_splits)
    let ?s1 = "s\<lparr>processor := p1, clients := AList.update sock c1 (clients s)\<rparr>"
    show ?thesis
    proof (cases keep)
      case False
      then have "sent = []" "s' = close_client sock ?s1"
        using r Some \<open>\<not> err\<close> assms by (simp_all add: handleClientEvents_def Let_def)
      moreover have "grows s ?s1" by (rule grows_appending) (simp_all add: p1)
      ultimately show ?thesis using grows_trans [OF _ grows_close] by simp
    next
      case True
      obtain res c2 s2 where w: "flush_and_write sd c1 ?s1 = Some (res, sent, c2, s2)"
        "s' = close_client sock (s2\<lparr>clients := AList.update sock c2 (clients s2)\<rparr>) \<or> s' = s2\<lparr>clients := AList.update sock c2 (clients s2)\<rparr>"
        using True r Some \<open>\<not> err\<close> assms
        by (auto simp: handleClientEvents_def Let_def split: option.splits if_splits)
      have "aof (processor s') = aof (processor s2)" "os s' = os s2" using w(2) by (auto simp: close_client_def Let_def)
      from turn_grows [OF p1 w(1) this] show ?thesis by simp
    qed
  qed
qed

lemma handleClientEvents_traffic:
  assumes "handleClientEvents sock err inp rv sd s = Some (Inr (sent, s'))" "sent \<noteq> []"
  shows "traffic s' = traffic s @ [(sent, disk_bytes (os s'))]"
  using assms
  by (auto simp: handleClientEvents_def close_client_def Let_def
      split: option.splits if_splits prod.splits sum.splits dest!: flush_and_write_traffic)

lemma acceptClients_grows:
  assumes "acceptClients ac i s = Some s'"
  shows "grows s s'"
proof (rule acceptClients.raw_induct [OF _ assms], goal_cases)
  case (1 rec ac i s s')
  have "grows s s'" if "rec ac (Suc i) (accept_client sock s) = Some s'" for sock
    using grows_trans [OF grows_accept 1(1) [OF that]] .
  with 1 show ?case by (auto simp: grows_same split: accept_result.splits if_splits)
qed

lemma background_grows:
  assumes "background_work config r l = Inr l'"
  shows "grows (server l) (server l')"
proof -
  have "\<exists>s. (s = server l \<or> (\<exists>n. server_cron (overBudget r) (server l) = (n, s))) \<and>
      (server l' = s \<or> server l' = server_sync (fsyncOk r) s)"
    using assms by (auto simp: background_work_def Let_def split: if_splits prod.splits sum.splits)
  then obtain s where s: "s = server l \<or> (\<exists>n. server_cron (overBudget r) (server l) = (n, s))"
    "server l' = s \<or> server l' = server_sync (fsyncOk r) s" by blast
  have "grows (server l) s" using s(1) by (auto simp: grows_same intro: grows_cron)
  with s(2) show ?thesis using grows_trans [OF _ grows_sync] by auto
qed

lemma handle_events_grows: "handle_events r ws s = Some (Inr (wire, s')) \<Longrightarrow> grows s s'"
proof (induction ws arbitrary: s wire)
  case (Cons w ws)
  obtain k rd wr where w: "w = (k, rd, wr)" by (metis surj_pair)
  obtain err inp sent s1 wire1 where h: "handleClientEvents k err inp (recvs r k) (sends r k) s = Some (Inr (sent, s1))"
    "handle_events r ws s1 = Some (Inr (wire1, s'))"
    using Cons.prems w by (auto split: option.splits sum.splits prod.splits elim!: map_sum_Inr)
  have "grows s s1" using handleClientEvents_grows [OF h(1)] by simp
  from this Cons.IH [OF h(2)] show ?case by (rule grows_trans)
qed (simp add: grows_same)

text \<open>
  Where in an iteration a client is served: after the new connections and the sockets that come
  before it in the list. The turn leads from \<open>s\<close> to \<open>s'\<close> and sends the bytes \<open>sent\<close>.
\<close>

definition turn :: "Round \<Rightarrow> EventLoop \<Rightarrow> int \<Rightarrow> bytes \<Rightarrow> Server \<Rightarrow> Server \<Rightarrow> bool" where
  "turn r l sock sent s s' \<longleftrightarrow>
     (\<exists>s0 before rd wr after wire.
        (if listenerReady r then acceptClients (accepts r) 0 (server l) else Some (server l)) = Some s0 \<and>
        watched r (server l) = before @ (sock, rd, wr) # after \<and>
        handle_events r before s0 = Some (Inr (wire, s)) \<and>
        handleClientEvents sock (pollErr (revents r sock)) (rd \<and> pollIn (revents r sock) \<or> pollHup (revents r sock))
          (recvs r sock) (sends r sock) s = Some (Inr (sent, s')))"

lemma handle_events_split:
  assumes "handle_events r ws s = Some (Inr (wire, s'))" "(sock, sent) \<in> set wire"
  shows "\<exists>before rd wr after w s1 s2. ws = before @ (sock, rd, wr) # after \<and> handle_events r before s = Some (Inr (w, s1)) \<and>
    handleClientEvents sock (pollErr (revents r sock)) (rd \<and> pollIn (revents r sock) \<or> pollHup (revents r sock))
      (recvs r sock) (sends r sock) s1 = Some (Inr (sent, s2)) \<and> grows s2 s'"
  using assms
proof (induction ws arbitrary: s wire)
  case (Cons w ws)
  obtain k rd wr where w: "w = (k, rd, wr)" by (metis surj_pair)
  let ?h = "\<lambda>k rd. handleClientEvents k (pollErr (revents r k)) (rd \<and> pollIn (revents r k) \<or> pollHup (revents r k)) (recvs r k) (sends r k)"
  obtain out s1 wire1 where h: "?h k rd s = Some (Inr (out, s1))"
    "handle_events r ws s1 = Some (Inr (wire1, s'))" "wire = (k, out) # wire1"
    using Cons.prems(1) w by (auto split: option.splits sum.splits prod.splits elim!: map_sum_Inr)
  show ?case
  proof (cases "(sock, sent) \<in> set wire1")
    case True
    from Cons.IH [OF h(2) True] obtain b rd' wr' a v s2 s3 where t: "ws = b @ (sock, rd', wr') # a" "handle_events r b s1 = Some (Inr (v, s2))"
      "?h sock rd' s2 = Some (Inr (sent, s3))" "grows s3 s'" by blast
    from t(1,2) w h(1) have "w # ws = (w # b) @ (sock, rd', wr') # a" "handle_events r (w # b) s = Some (Inr ((k, out) # v, s2))" by simp_all
    with t(3,4) show ?thesis by blast
  next
    case False
    with Cons.prems(2) h(3) have "sock = k" "sent = out" by auto
    with w h(1) handle_events_grows [OF h(2)] show ?thesis
      by (intro exI [of _ "[]"] exI [of _ rd] exI [of _ wr] exI [of _ ws] exI [of _ s] exI [of _ s1]) simp
  qed
qed simp

lemma iteration_grows:
  assumes "run_iteration config r l = Some (Running wire l')"
  shows "grows (server l) (server l')"
    "(sock, sent) \<in> set wire \<Longrightarrow> \<exists>s s'. turn r l sock sent s s' \<and> grows (server l) s \<and> grows s' (server l')"
proof -
  let ?a = "if listenerReady r then acceptClients (accepts r) 0 (server l) else Some (server l)"
  consider "wire = []" "l' = l"
    | s1 s2 where "?a = Some s1" "handle_events r (watched r (server l)) s1 = Some (Inr (wire, s2))"
      "background_work config r (l\<lparr>server := s2\<rparr>) = Inr l'"
    using assms by (auto simp: run_iteration_def split: poll_result.splits if_splits option.splits sum.splits prod.splits)
  then have "grows (server l) (server l') \<and> ((sock, sent) \<in> set wire \<longrightarrow>
    (\<exists>s s'. turn r l sock sent s s' \<and> grows (server l) s \<and> grows s' (server l')))"
  proof cases
    case 1
    then show ?thesis by (simp add: grows_same)
  next
    case (2 s1 s2)
    have a: "grows (server l) s1" using 2(1) acceptClients_grows grows_same by (auto split: if_splits)
    have b: "grows s2 (server l')" using background_grows [OF 2(3)] by simp
    have "\<exists>s s'. turn r l sock sent s s' \<and> grows (server l) s \<and> grows s' (server l')" if sent: "(sock, sent) \<in> set wire"
    proof -
      from handle_events_split [OF 2(2) sent] obtain before rd wr after w s s' where
        t: "watched r (server l) = before @ (sock, rd, wr) # after" "handle_events r before s1 = Some (Inr (w, s))"
        "handleClientEvents sock (pollErr (revents r sock)) (rd \<and> pollIn (revents r sock) \<or> pollHup (revents r sock))
          (recvs r sock) (sends r sock) s = Some (Inr (sent, s'))" "grows s' s2" by blast
      have "turn r l sock sent s s'" unfolding turn_def using 2(1) t(1-3) by blast
      moreover have "grows (server l) s" using grows_trans [OF a handle_events_grows [OF t(2)]] .
      moreover have "grows s' (server l')" using grows_trans [OF t(4) b] .
      ultimately show ?thesis by blast
    qed
    moreover have "grows (server l) (server l')" using grows_trans [OF a grows_trans [OF handle_events_grows [OF 2(2)] b]] .
    ultimately show ?thesis by blast
  qed
  then show "grows (server l) (server l')"
    "(sock, sent) \<in> set wire \<Longrightarrow> \<exists>s s'. turn r l sock sent s s' \<and> grows (server l) s \<and> grows s' (server l')"
    by blast+
qed

lemma run_grows: "(loop_step config)\<^sup>*\<^sup>* l l' \<Longrightarrow> grows (server l) (server l')"
proof (induction rule: rtranclp_induct)
  case (step l1 l2)
  from step.hyps(2) have "grows (server l1) (server l2)" by (auto elim!: loop_stepE intro: iteration_grows(1))
  with step.IH show ?case by (rule grows_trans)
qed (simp add: grows_same)

lemma turn_logged: "turn r l sock sent s s' \<Longrightarrow> prefix (ledger s) (ledger s')"
  unfolding turn_def by (auto dest!: handleClientEvents_grows simp: grows_def)

lemma turn_written: "turn r l sock sent s s' \<Longrightarrow> reliable s \<Longrightarrow> sent \<noteq> [] \<Longrightarrow> prefix (ledger s') (disk_bytes (os s'))"
  unfolding turn_def by (auto dest!: handleClientEvents_grows)

lemma turn_traffic: "turn r l sock sent s s' \<Longrightarrow> sent \<noteq> [] \<Longrightarrow> traffic s' = traffic s @ [(sent, disk_bytes (os s'))]"
  unfolding turn_def by (auto dest!: handleClientEvents_traffic)

lemma reply_logged:
  assumes "reliable (server l)" "run_iteration config r l = Some (Running wire l1)" "(sock, sent) \<in> set wire" "sent \<noteq> []"
    "(loop_step config)\<^sup>*\<^sup>* l1 l2"
  shows "\<exists>s s' d. turn r l sock sent s s' \<and> prefix (ledger (server l)) (ledger s) \<and> prefix (ledger s) (ledger s') \<and>
    traffic s' = traffic s @ [(sent, d)] \<and> prefix (ledger s') d \<and> prefix d (disk_bytes (os (server l2)))"
proof -
  obtain s s' where h: "turn r l sock sent s s'" "grows (server l) s" "grows s' (server l1)"
    using iteration_grows(2) [OF assms(2,3)] by blast
  have "prefix (ledger s') (disk_bytes (os s'))"
    using turn_written [OF h(1) _ assms(4)] h(2) assms(1) by (simp add: grows_def)
  moreover have "prefix (disk_bytes (os s')) (disk_bytes (os (server l2)))"
    using grows_trans [OF h(3) run_grows [OF assms(5)]] by (simp add: grows_def)
  moreover have "prefix (ledger (server l)) (ledger s)" using h(2) by (simp add: grows_def)
  ultimately show ?thesis using h(1) turn_logged [OF h(1)] turn_traffic [OF h(1) assms(4)] by blast
qed

section \<open>The end of a run\<close>

lemma run_returned_grows: "run config rs l = Some (Returned code s) \<Longrightarrow> grows (server l) s"
proof (induction rs arbitrary: l)
  case (Cons r rs)
  consider wire l1 where "run_iteration config r l = Some (Running wire l1)" "run config rs l1 = Some (Returned code s)"
    | "run_iteration config r l = Some (Stopped code s)"
    using Cons.prems by (auto split: option.splits loop_result.splits)
  then show ?case
  proof cases
    case 1
    from iteration_grows(1) [OF 1(1)] Cons.IH [OF 1(2)] show ?thesis by (rule grows_trans)
  next
    case 2
    then have "s = server l \<or> s = (server l)\<lparr>clients := []\<rparr>"
      by (auto simp: run_iteration_def split: if_splits poll_result.splits option.splits sum.splits prod.splits)
    then show ?thesis by (intro grows_same) auto
  qed
qed simp

text \<open>Leaving \<open>main\<close> writes out what is buffered, as far as the system lets it.\<close>

lemma leave_writes:
  assumes "leave ok code s = Some (Exited code os1)" "aof (processor s) \<noteq> None"
  shows "prefix (disk_bytes (os s)) (disk_bytes os1)" "prefix (disk_bytes os1) (ledger s)"
    "reliable s \<Longrightarrow> disk_bytes os1 = ledger s"
proof -
  obtain a where a: "aof (processor s) = Some a" using assms(2) by blast
  from leave_stores [OF a assms(1)] obtain flushed a' where f: "aof_flush a (os s) = Some (flushed, a', os1)"
    "prefix (disk_bytes os1) (stored a (os s))" by blast
  show "prefix (disk_bytes (os s)) (disk_bytes os1)" using aof_flush_grows(3) [OF f(1)] .
  show "prefix (disk_bytes os1) (ledger s)" using f(2) a by (simp add: ledger_def)
  show "disk_bytes os1 = ledger s" if "reliable s"
    using that aof_flush_grows(4) [OF f(1)] stored_flush(1) [OF f(1)] a by (simp add: reliable_def ledger_def stored_def)
qed

lemma run_shutdown:
  assumes "run config rs l = Some (Returned code s)" "\<forall>r \<in> set rs. responsive r" "writable (os (server l))"
    and "aof (processor (server l)) \<noteq> None"
  shows "\<exists>os1. leave ok code s = Some (Exited code os1) \<and> prefix (ledger (server l)) (ledger s) \<and>
    prefix (disk_bytes (os (server l))) (disk_bytes os1) \<and> prefix (disk_bytes os1) (ledger s) \<and>
    (reliable (server l) \<longrightarrow> disk_bytes os1 = ledger s)"
proof -
  have g: "grows (server l) s" using run_returned_grows [OF assms(1)] .
  have "writable (os s)" using run_total [OF assms(2,3), of config] assms(1) by simp
  then obtain os1 where os1: "leave ok code s = Some (Exited code os1)"
    using leave_returns [of s ok code] by (auto simp: writable_def)
  note w = leave_writes [OF os1]
  from g assms(4) w have "prefix (disk_bytes (os (server l))) (disk_bytes os1)" "prefix (disk_bytes os1) (ledger s)"
    "reliable (server l) \<longrightarrow> disk_bytes os1 = ledger s" "prefix (ledger (server l)) (ledger s)"
    unfolding grows_def by (blast intro: prefix_order.trans)+
  with os1 show ?thesis by blast
qed

end
