(* ===== verification/FKV_Timeless.thy ===== *)
theory FKV_Timeless
  imports FKV_Recovery
begin

text \<open>
  Time matters only through deadlines. As long as no key has one, what commands do, what they answer
  and what they log does not depend on the clock: two processors whose databases differ only in the
  clock, in the number of its readings, in the counters of connections, in the start time and in what
  their logs already hold stay so, step by step, and log the same. So what is shown for a clock that
  stands still holds for every clock when no command sets a deadline.
\<close>

section \<open>Databases without deadlines\<close>

definition retime :: "(nat \<Rightarrow> int) \<Rightarrow> nat \<Rightarrow> Database \<Rightarrow> Database" where
  "retime c r db = db\<lparr>clock := c, readings := r\<rparr>"

definition untimed :: "Database \<Rightarrow> bool" where
  "untimed db \<longleftrightarrow> (\<forall>k e. map_of (data db) k = Some e \<longrightarrow> expiresAtMs e = NO_EXPIRY)"

lemma retime_fields [simp]:
  "data (retime c r db) = data db" "lru (retime c r db) = lru db" "lruCells (retime c r db) = lruCells db"
  "volatileKeys (retime c r db) = volatileKeys db" "memoryUsed (retime c r db) = memoryUsed db"
  "memoryLimit (retime c r db) = memoryLimit db" "policy (retime c r db) = policy db"
  "statistics (retime c r db) = statistics db" "clock (retime c r db) = c" "readings (retime c r db) = r"
  "entry_of k (retime c r db) = entry_of k db" "untimed (retime c r db) = untimed db" "abs_db (retime c r db) = abs_db db"
  "retime c r (retime c' r' db) = retime c r db"
  by (simp_all add: retime_def entry_of_def untimed_def abs_db_def)

lemma retime_same [simp]: "retime (clock db) (readings db) db = db"
  by (simp add: retime_def)

lemma setClock_retime: "setClock c db = retime c 0 db"
  by (simp add: setClock_def retime_def)

lemma retime_modify [simp]: "modify_entry k f (retime c r db) = retime c r (modify_entry k f db)"
  by (simp add: modify_entry_def retime_def split: option.split)

lemma retime_helpers [simp]:
  "set_value k v (retime c r db) = retime c r (set_value k v db)"
  "addMemory k n (retime c r db) = retime c r (addMemory k n db)"
  "removeMemory k n (retime c r db) = retime c r (removeMemory k n db)"
  "touch k (retime c r db) = retime c r (touch k db)"
  "create k v (retime c r db) = retime c r (create k v db)"
  "count_stat u w (retime c r db) = retime c r (count_stat u w db)"
  "db_clear (retime c r db) = retime c r (db_clear db)"
  "setMaxMemory w (retime c r db) = retime c r (setMaxMemory w db)"
  "setEvictionPolicy pol (retime c r db) = retime c r (setEvictionPolicy pol db)"
  by (simp_all add: set_value_def addMemory_def removeMemory_def touch_def create_def count_stat_def db_clear_def
      setMaxMemory_def setEvictionPolicy_def Let_def) (simp_all add: retime_def)

lemma retime_clearExpiry [simp]: "clearExpiry k (retime c r db) = retime c r (clearExpiry k db)"
proof -
  have "(retime c r d)\<lparr>volatileKeys := v\<rparr> = retime c r (d\<lparr>volatileKeys := v\<rparr>)" for v d by (simp add: retime_def)
  then show ?thesis by (simp add: clearExpiry_def Let_def split: option.split)
qed

lemma retime_erase [simp]: "erase k (retime c r db) = retime c r (erase k db)"
  by (simp add: erase_def Let_def) (simp add: retime_def entry_of_def)

lemma retime_views [simp]:
  "valueAs_string k (retime c r db) = valueAs_string k db" "valueAs_list k (retime c r db) = valueAs_list k db"
  "valueAs_hash k (retime c r db) = valueAs_hash k db" "valueAs_set k (retime c r db) = valueAs_set k db"
  "list_ref k (retime c r db) = list_ref k db" "hash_ref k (retime c r db) = hash_ref k db" "set_ref k (retime c r db) = set_ref k db"
  by (simp_all add: valueAs_string_def valueAs_list_def valueAs_hash_def valueAs_set_def list_ref_def hash_ref_def set_ref_def)

lemma untimed_fields [simp]:
  "untimed (db\<lparr>readings := i\<rparr>) = untimed db" "untimed (db\<lparr>lru := l\<rparr>) = untimed db" "untimed (db\<lparr>memoryUsed := w\<rparr>) = untimed db"
  "untimed (db\<lparr>volatileKeys := v\<rparr>) = untimed db" "untimed (count_stat u w db) = untimed db" "untimed (touch k db) = untimed db"
  "untimed (db_clear db)" "untimed (setMaxMemory w db) = untimed db" "untimed (setEvictionPolicy pol db) = untimed db"
  by (simp_all add: untimed_def count_stat_def touch_def db_clear_def setMaxMemory_def setEvictionPolicy_def Let_def)

lemma untimed_modify:
  "untimed db \<Longrightarrow> (\<And>e. expiresAtMs e = NO_EXPIRY \<Longrightarrow> expiresAtMs (f e) = NO_EXPIRY) \<Longrightarrow> untimed (modify_entry k f db)"
  by (auto simp: untimed_def modify_entry_def update_conv' split: option.split if_splits)

lemma untimed_helpers [simp]:
  "untimed db \<Longrightarrow> untimed (set_value k v db)" "untimed db \<Longrightarrow> untimed (addMemory k n db)"
  "untimed db \<Longrightarrow> untimed (removeMemory k n db)" "untimed db \<Longrightarrow> untimed (clearExpiry k db)"
  by (auto simp: set_value_def addMemory_def removeMemory_def clearExpiry_def Let_def intro!: untimed_modify split: option.split)

lemma untimed_create [simp]: "untimed db \<Longrightarrow> untimed (create k v db)"
  by (auto simp: untimed_def create_def update_conv' Let_def split: if_splits)

lemma untimed_erase [simp]: "untimed db \<Longrightarrow> untimed (erase k db)"
  using untimed_helpers(4) [of db k] by (auto simp: untimed_def erase_def Let_def AList.delete_conv' split: if_splits)

lemma findLive_untimed: "untimed db \<Longrightarrow> findLive k db = (if map_of (data db) k = None then None else Some k, db)"
  by (auto simp: findLive_def untimed_def split: option.split)

lemma untimed_entry [simp]:
  "untimed db \<Longrightarrow> map_of (data db) k = Some e \<Longrightarrow> expiresAtMs e = NO_EXPIRY"
  "untimed db \<Longrightarrow> map_of (data db) k = Some e \<Longrightarrow> expiresAtMs (entry_of k db) = NO_EXPIRY"
  by (simp_all add: untimed_def entry_of_def)

text \<open>An operation that does not depend on the clock as long as there are no deadlines.\<close>

definition clockless :: "(Database \<Rightarrow> 'r \<times> Database) \<Rightarrow> bool" where
  "clockless f \<longleftrightarrow> (\<forall>db c r. untimed db \<longrightarrow>
     untimed (snd (f db)) \<and> (\<exists>r'. f (retime c r db) = (fst (f db), retime c r' (snd (f db)))))"

lemma clocklessI:
  "(\<And>db c r. untimed db \<Longrightarrow> untimed (snd (f db)) \<and> f (retime c r db) = (fst (f db), retime c r (snd (f db)))) \<Longrightarrow> clockless f"
  by (auto simp: clockless_def)

lemma clockless_key:
  "clockless (db_del k)" "clockless (db_exists k)" "clockless (db_type k)" "clockless (db_persist k)" "clockless (inspect k)"
  "clockless (ttlMs k)" "clockless (ttl k)" "clockless (db_get k)" "clockless (stringLength k)" "clockless (db_append k v)"
  "clockless (\<lambda>db. ((), db_set k v db))"
  unfolding db_del_def db_exists_def db_type_def db_persist_def inspect_def ttl_def ttlMs_def db_get_def stringLength_def
    db_append_def db_set_def Let_def
  by (auto intro!: clocklessI simp: findLive_untimed split: option.splits sum.splits)

lemma clockless_lists:
  "clockless (listPop k side)" "clockless (listRange k a b)" "clockless (listIndex k a)" "clockless (listLength k)"
  unfolding listPop_def listRange_def listIndex_def listLength_def Let_def
  by (auto intro!: clocklessI simp: findLive_untimed split: option.splits sum.splits)

lemma clockless_reads:
  "clockless (hashGet k x)" "clockless (hashGetAll k)" "clockless (hashLength k)" "clockless (hashExists k x)"
  "clockless (setMembers k)" "clockless (setIsMember k x)" "clockless (setCardinality k)"
  unfolding hashGet_def hashGetAll_def hashLength_def hashExists_def setMembers_def setIsMember_def setCardinality_def Let_def
  by (auto intro!: clocklessI simp: findLive_untimed split: option.splits sum.splits)

lemma retime_loops [simp]:
  "push_loop side k vs (retime c r db) = retime c r (push_loop side k vs db)"
  "hash_set_loop k fs n (retime c r db) = apsnd (retime c r) (hash_set_loop k fs n db)"
  "hash_delete_loop k ks n (retime c r db) = apsnd (retime c r) (hash_delete_loop k ks n db)"
  "set_add_loop k ks n (retime c r db) = apsnd (retime c r) (set_add_loop k ks n db)"
  "set_remove_loop k ks n (retime c r db) = apsnd (retime c r) (set_remove_loop k ks n db)"
proof -
  show "push_loop side k vs (retime c r db) = retime c r (push_loop side k vs db)"
    by (induction vs arbitrary: db) (simp_all add: Let_def)
  show "hash_set_loop k fs n (retime c r db) = apsnd (retime c r) (hash_set_loop k fs n db)"
    by (induction k fs n db rule: hash_set_loop.induct) (auto simp: Let_def split: option.split)
  show "hash_delete_loop k ks n (retime c r db) = apsnd (retime c r) (hash_delete_loop k ks n db)"
    by (induction k ks n db rule: hash_delete_loop.induct) (auto simp: Let_def split: option.split)
  show "set_add_loop k ks n (retime c r db) = apsnd (retime c r) (set_add_loop k ks n db)"
    by (induction k ks n db rule: set_add_loop.induct) (auto simp: Let_def)
  show "set_remove_loop k ks n (retime c r db) = apsnd (retime c r) (set_remove_loop k ks n db)"
    by (induction k ks n db rule: set_remove_loop.induct) (auto simp: Let_def)
qed

lemma untimed_loops [simp]:
  assumes "untimed db"
  shows "untimed (push_loop side k vs db)" "untimed (snd (hash_set_loop k fs n db))" "untimed (snd (hash_delete_loop k ks n db))"
    "untimed (snd (set_add_loop k ks n db))" "untimed (snd (set_remove_loop k ks n db))"
  using assms
proof -
  show "untimed db \<Longrightarrow> untimed (push_loop side k vs db)" by (induction vs arbitrary: db) (simp_all add: Let_def)
  show "untimed db \<Longrightarrow> untimed (snd (hash_set_loop k fs n db))"
    by (induction k fs n db rule: hash_set_loop.induct) (auto simp: Let_def split: option.split)
  show "untimed db \<Longrightarrow> untimed (snd (hash_delete_loop k ks n db))"
    by (induction k ks n db rule: hash_delete_loop.induct) (auto simp: Let_def split: option.split)
  show "untimed db \<Longrightarrow> untimed (snd (set_add_loop k ks n db))"
    by (induction k ks n db rule: set_add_loop.induct) (auto simp: Let_def)
  show "untimed db \<Longrightarrow> untimed (snd (set_remove_loop k ks n db))"
    by (induction k ks n db rule: set_remove_loop.induct) (auto simp: Let_def)
qed

lemma clockless_findLive:
  assumes "\<And>db c r x. untimed db \<Longrightarrow> findLive k db = (x, db) \<Longrightarrow> findLive k (retime c r db) = (x, retime c r db) \<Longrightarrow>
    untimed (snd (f db)) \<and> f (retime c r db) = (fst (f db), retime c r (snd (f db)))"
  shows "clockless f"
  using assms by (intro clocklessI) (simp add: findLive_untimed)

lemma clockless_updates:
  "clockless (incrementBy k n)" "clockless (listPush k vs side)" "clockless (hashSet k fs)" "clockless (hashDelete k ks)"
  "clockless (setAdd k ks)" "clockless (setRemove k ks)"
  by (rule clockless_findLive [of k],
      simp add: incrementBy_def listPush_def hashSet_def hashDelete_def setAdd_def setRemove_def add_overflow_def Let_def
        split_def split: option.split sum.split)+

lemma clockless_keys: "clockless (db_keys pat)"
proof -
  have "expiresAtMs (entry_of k db) = NO_EXPIRY" if "untimed db" "k \<in> fst ` set (data db)" for k db
    using that by (metis map_of_eq_None_iff option.exhaust untimed_entry(2))
  then have "filter (\<lambda>k. \<not> (expiresAtMs (entry_of k db) \<noteq> NO_EXPIRY \<and> expiresAtMs (entry_of k db) \<le> t) \<and> globMatch pat k) (map fst (data db)) =
      filter (globMatch pat) (map fst (data db))" if "untimed db" for db t
    using that by (intro filter_cong) auto
  then have "db_keys pat db = (sort (filter (globMatch pat) (map fst (data db))), db\<lparr>readings := Suc (readings db)\<rparr>)" if "untimed db" for db
    using that by (simp add: db_keys_def now_def Let_def entry_of_def)
  then show ?thesis by (auto simp: clockless_def) (auto simp: retime_def)
qed

lemma clockless_bind:
  assumes "clockless f" "\<And>x. clockless (g x)"
  shows "clockless (\<lambda>db. case f db of (x, db1) \<Rightarrow> g x db1)"
  unfolding clockless_def
proof (intro allI impI)
  fix db c r assume u: "untimed db"
  obtain x db1 where f: "f db = (x, db1)" by (cases "f db")
  then obtain r1 where "untimed db1" "f (retime c r db) = (x, retime c r1 db1)"
    using assms(1) u unfolding clockless_def by (metis fst_conv snd_conv)
  with assms(2) [of x] f
  show "untimed (snd (case f db of (x, db1) \<Rightarrow> g x db1)) \<and>
      (\<exists>r'. (case f (retime c r db) of (x, db1) \<Rightarrow> g x db1) =
        (fst (case f db of (x, db1) \<Rightarrow> g x db1), retime c r' (snd (case f db of (x, db1) \<Rightarrow> g x db1))))"
    by (auto simp: clockless_def)
qed

lemma clockless_return: "clockless (Pair x)"
  by (simp add: clocklessI)

lemma clockless_loops:
  "clockless (del_loop ks n)" "clockless (exists_loop ks n)" "clockless (mget_loop ks vs)" "clockless (\<lambda>db. ((), mset_loop ks db))"
proof -
  show "clockless (del_loop ks n)"
  proof (induction ks arbitrary: n)
    case (Cons k ks)
    with clockless_bind [OF clockless_key(1) [of k], of "\<lambda>g. del_loop ks (if g then Suc n else n)"] show ?case
      by (simp add: del_loop.simps(2) [abs_def] Let_def)
  qed (simp add: del_loop.simps(1) [abs_def] clockless_return)
  show "clockless (exists_loop ks n)"
  proof (induction ks arbitrary: n)
    case (Cons k ks)
    with clockless_bind [OF clockless_key(2) [of k], of "\<lambda>g. exists_loop ks (if g then Suc n else n)"] show ?case
      by (simp add: exists_loop.simps(2) [abs_def] Let_def)
  qed (simp add: exists_loop.simps(1) [abs_def] clockless_return)
  show "clockless (mget_loop ks vs)"
  proof (induction ks arbitrary: vs)
    case (Cons k ks)
    let ?g = "\<lambda>r. case r of Inr v \<Rightarrow> mget_loop ks (vs @ [nullableBulk v])
      | Inl e \<Rightarrow> if e = WrongTypeError then mget_loop ks (vs @ [respNull]) else Pair (Inl e)"
    have "mget_loop (k # ks) vs = (\<lambda>db. case db_get k db of (r, db1) \<Rightarrow> ?g r db1)"
      by (simp add: fun_eq_iff split: prod.split sum.split)
    moreover have "clockless (?g r)" for r using Cons by (cases r) (simp_all add: clockless_return)
    ultimately show ?case using clockless_bind [OF clockless_key(8) [of k], of ?g] by simp
  qed (simp add: mget_loop.simps(1) [abs_def] clockless_return)
  show "clockless (\<lambda>db. ((), mset_loop ks db))"
  proof (induction ks rule: induct_list012)
    case (3 k v rest)
    with clockless_bind [OF clockless_key(11) [of k v], of "\<lambda>_ db. ((), mset_loop rest db)"] show ?case by simp
  qed (simp_all add: clocklessI)
qed

lemmas clockless_ops = clockless_key clockless_lists clockless_reads clockless_updates clockless_keys clockless_loops

section \<open>Processors that agree\<close>

definition sets_deadline :: "bytes list \<Rightarrow> bool" where
  "sets_deadline args \<longleftrightarrow>
     uppercase (args ! 0) \<in> {''EXPIRE'', ''PEXPIRE'', ''EXPIREAT'', ''PEXPIREAT''} \<or>
     uppercase (args ! 0) = ''SET'' \<and> (\<exists>a \<in> set (drop 3 args). uppercase a \<in> {''EX'', ''PX''})"

definition agree :: "CommandProcessor \<Rightarrow> CommandProcessor \<Rightarrow> bool" where
  "agree p q \<longleftrightarrow> untimed (database p) \<and> (\<exists>c r. database q = retime c r (database p)) \<and>
     rel_option (\<lambda>a b. writeFailed b = writeFailed a) (aof p) (aof q) \<and>
     (\<exists>s c n. serverStats q = (serverStats p)\<lparr>startTimeMs := s, connectedClients := c, totalConnections := n\<rparr>)"

text \<open>Both do the same: the same result, the same entries appended to the logs, none with a deadline.\<close>

definition in_step :: "CommandProcessor \<Rightarrow> CommandProcessor \<Rightarrow> 'r \<times> CommandProcessor \<Rightarrow> 'r \<times> CommandProcessor \<Rightarrow> bool" where
  "in_step p q rp rq \<longleftrightarrow> fst rq = fst rp \<and> agree (snd rp) (snd rq) \<and>
     (\<exists>ls. aof (snd rp) = map_option (fold aof_append ls) (aof p) \<and> aof (snd rq) = map_option (fold aof_append ls) (aof q) \<and>
        (\<forall>l \<in> set ls. \<not> sets_deadline l))"

lemma agreeD:
  "agree p q \<Longrightarrow> data (database q) = data (database p)" "agree p q \<Longrightarrow> aof q = None \<longleftrightarrow> aof p = None"
  "agree p q \<Longrightarrow> memoryLimit (database q) = memoryLimit (database p)"
  "agree p q \<Longrightarrow> policy (database q) = policy (database p)"
  "agree p q \<Longrightarrow> port (serverStats q) = port (serverStats p)"
  "agree p q \<Longrightarrow> (case aof q of None \<Rightarrow> False | Some a \<Rightarrow> \<not> aof_healthy a) = (case aof p of None \<Rightarrow> False | Some a \<Rightarrow> \<not> aof_healthy a)"
  by (auto simp: agree_def aof_healthy_def elim: option.rel_cases)

lemma in_step_return: "agree p q \<Longrightarrow> in_step p q (r, p) (r, q)"
  by (auto simp: in_step_def option.map_id intro!: exI [of _ "[]"])

lemma in_step_call:
  assumes "clockless f" "agree p q"
  shows "in_step p q (db_call f p) (db_call f q)"
proof -
  obtain c r where q: "database q = retime c r (database p)" "untimed (database p)" using assms(2) by (auto simp: agree_def)
  then obtain r' where "untimed (snd (f (database p)))" "f (database q) = (fst (f (database p)), retime c r' (snd (f (database p))))"
    using assms(1) unfolding clockless_def by metis
  with assms(2) show ?thesis
    by (auto simp: in_step_def db_call_def agree_def split_def Let_def option.map_id intro!: exI [of _ "[]"])
qed

lemma in_step_trans:
  assumes "in_step p q rp rq" "in_step (snd rp) (snd rq) sp sq"
  shows "in_step p q sp sq"
proof -
  obtain as bs where as: "aof (snd rp) = map_option (fold aof_append as) (aof p)" "aof (snd rq) = map_option (fold aof_append as) (aof q)"
      "\<forall>l \<in> set as. \<not> sets_deadline l"
    and bs: "aof (snd sp) = map_option (fold aof_append bs) (aof (snd rp))" "aof (snd sq) = map_option (fold aof_append bs) (aof (snd rq))"
      "\<forall>l \<in> set bs. \<not> sets_deadline l"
    using assms by (auto simp: in_step_def)
  have "aof (snd sp) = map_option (fold aof_append (as @ bs)) (aof p)" "aof (snd sq) = map_option (fold aof_append (as @ bs)) (aof q)"
    using as(1,2) bs(1,2) by (simp_all add: option.map_comp o_def)
  moreover have "\<forall>l \<in> set (as @ bs). \<not> sets_deadline l" using as(3) bs(3) by auto
  ultimately show ?thesis using assms(2) unfolding in_step_def by blast
qed

lemma in_step_bind:
  assumes "in_step p q rp rq" "\<And>x p' q'. agree p' q' \<Longrightarrow> in_step p' q' (g x p') (g x q')"
  shows "in_step p q (case rp of (x, p') \<Rightarrow> g x p') (case rq of (x, q') \<Rightarrow> g x q')"
proof -
  have "fst rq = fst rp" "agree (snd rp) (snd rq)" using assms(1) by (simp_all add: in_step_def)
  with in_step_trans [OF assms(1) assms(2)] show ?thesis by (simp add: split_def)
qed

lemma in_step_then:
  assumes "in_step p q rp rq" "\<And>x p' q'. agree p' q' \<Longrightarrow> in_step p' q' (g x p') (g x q')"
  shows "in_step p q (and_then rp g) (and_then rq g)"
proof -
  have eq: "and_then rp g = (case rp of (x, p') \<Rightarrow> (case x of Inl e \<Rightarrow> (Inl e, p') | Inr y \<Rightarrow> g y p'))" for rp
    by (simp add: and_then_def split: prod.split sum.split)
  show ?thesis
    unfolding eq
  proof (rule in_step_bind [OF assms(1)])
    fix x p' q' assume "agree p' q'"
    then show "in_step p' q' (case x of Inl e \<Rightarrow> (Inl e, p') | Inr y \<Rightarrow> g y p') (case x of Inl e \<Rightarrow> (Inl e, q') | Inr y \<Rightarrow> g y q')"
      using assms(2) in_step_return by (cases x) simp_all
  qed
qed

lemma in_step_propagate:
  assumes "agree p q" "\<not> sets_deadline l"
  shows "in_step p q (r, propagate l p) (r, propagate l q)"
proof -
  have eq: "aof (propagate l p) = map_option (fold aof_append [l]) (aof p)" "database (propagate l p) = database p"
    "serverStats (propagate l p) = serverStats p" for p
    by (simp_all add: propagate_def split: option.split)
  have "rel_option (\<lambda>a b. writeFailed b = writeFailed a) (aof (propagate l p)) (aof (propagate l q))"
    using assms(1) by (auto simp: eq agree_def option.rel_map aof_append_def)
  with assms(1) have "agree (propagate l p) (propagate l q)" by (simp add: agree_def eq(2,3))
  with assms(2) eq(1) show ?thesis unfolding in_step_def by (auto intro!: exI [of _ "[l]"])
qed

lemma in_step_database:
  assumes "agree p q" "clockless (\<lambda>db. ((), f db))"
  shows "in_step p q ((), p\<lparr>database := f (database p)\<rparr>) ((), q\<lparr>database := f (database q)\<rparr>)"
  using in_step_call [OF assms(2,1)] by (simp add: db_call_def)

section \<open>The handlers\<close>

definition timeless :: "handler \<Rightarrow> bool" where
  "timeless h \<longleftrightarrow> (\<forall>args p q. \<not> sets_deadline args \<longrightarrow> agree p q \<longrightarrow> in_step p q (h args p) (h args q))"

lemma timelessI:
  "(\<And>args p q. \<not> sets_deadline args \<Longrightarrow> agree p q \<Longrightarrow> in_step p q (h args p) (h args q)) \<Longrightarrow> timeless h"
  by (simp add: timeless_def)

lemmas in_step_intros = in_step_then in_step_bind in_step_call in_step_return in_step_propagate clockless_ops

lemma timeless_server: "timeless cmd_ping" "timeless cmd_echo" "timeless cmd_select" "timeless cmd_commandInfo" "timeless cmd_dbsize"
  by (auto simp: timeless_def cmd_ping_def cmd_echo_def cmd_select_def cmd_commandInfo_def cmd_dbsize_def db_size_def
      agreeD intro!: in_step_return)

lemma timeless_reads:
  "timeless cmd_exists" "timeless cmd_type" "timeless cmd_keys" "timeless cmd_ttl" "timeless cmd_pttl" "timeless cmd_get"
  "timeless cmd_mget" "timeless cmd_strlen" "timeless cmd_llen" "timeless cmd_hget" "timeless cmd_hgetall" "timeless cmd_hlen"
  "timeless cmd_hexists" "timeless cmd_hkeys" "timeless cmd_hvals" "timeless cmd_smembers" "timeless cmd_sismember" "timeless cmd_scard"
  unfolding cmd_exists_def cmd_type_def cmd_keys_def cmd_ttl_def cmd_pttl_def cmd_get_def cmd_mget_def cmd_strlen_def cmd_llen_def
    cmd_hget_def cmd_hgetall_def cmd_hlen_def cmd_hexists_def cmd_hkeys_def cmd_hvals_def cmd_smembers_def cmd_sismember_def
    cmd_scard_def Let_def
  by (rule timelessI, (rule in_step_intros | assumption)+)+

lemma timeless_ranges: "timeless cmd_lrange" "timeless cmd_lindex" "timeless cmd_memory"
  unfolding cmd_lrange_def cmd_lindex_def cmd_memory_def Let_def
  by (auto intro!: timelessI in_step_intros split: option.split)

lemma timeless_writes:
  "timeless cmd_incr" "timeless cmd_decr" "timeless cmd_incrby" "timeless cmd_decrby" "timeless cmd_append" "timeless cmd_lpush"
  "timeless cmd_rpush" "timeless cmd_lpop" "timeless cmd_rpop" "timeless cmd_hset" "timeless cmd_hdel" "timeless cmd_sadd"
  "timeless cmd_srem" "timeless cmd_del" "timeless cmd_persist"
  unfolding cmd_incr_def cmd_decr_def cmd_incrby_def cmd_decrby_def cmd_append_def cmd_lpush_def cmd_rpush_def cmd_lpop_def
    cmd_rpop_def cmd_hset_def cmd_hdel_def cmd_sadd_def cmd_srem_def cmd_del_def cmd_persist_def Let_def
  by (auto intro!: timelessI in_step_intros split: option.split)

lemma plain_entries [simp]: "\<not> sets_deadline [''DEL'', k]" "\<not> sets_deadline [''FLUSHALL'']" "\<not> sets_deadline [''SET'', k, v]"
  by (simp_all add: sets_deadline_def uppercase_def to_upper_def byte_def)

lemma in_step_dels: "agree p q \<Longrightarrow> in_step p q (r, propagate_dels ks p) (r, propagate_dels ks q)"
proof (induction ks arbitrary: p q)
  case Nil
  then show ?case by (simp add: propagate_dels_def in_step_return)
next
  case (Cons k ks)
  have "in_step p q (r, propagate [''DEL'', k] p) (r, propagate [''DEL'', k] q)" using Cons.prems by (simp add: in_step_propagate)
  moreover from this have "agree (propagate [''DEL'', k] p) (propagate [''DEL'', k] q)" by (simp add: in_step_def)
  ultimately show ?case using Cons.IH in_step_trans unfolding propagate_dels_def by fastforce
qed

lemma retime_evict_loop: "evict_loop fuel ev (retime c r db) = (case evict_loop fuel ev db of (x, ev', db') \<Rightarrow> (x, ev', retime c r db'))"
  by (induction fuel arbitrary: ev db) (simp_all add: Let_def)

lemma untimed_evict_loop: "untimed db \<Longrightarrow> untimed (snd (snd (evict_loop fuel ev db)))"
  by (induction fuel arbitrary: ev db) (simp_all add: Let_def)

lemma clockless_evict: "clockless (\<lambda>db. case evictIfNeeded db of (x, ev, db1) \<Rightarrow> ((x, ev), db1))"
  by (rule clocklessI) (simp add: evictIfNeeded_def retime_evict_loop untimed_evict_loop split_def del: evict_loop.simps)

lemma in_step_evict:
  assumes "agree p q"
  shows "in_step p q (evict_and_log p) (evict_and_log q)"
proof -
  have "evict_and_log p = (case db_call (\<lambda>db. case evictIfNeeded db of (x, ev, db1) \<Rightarrow> ((x, ev), db1)) p of
      (r, p1) \<Rightarrow> (fst r, propagate_dels (snd r) p1))" for p
    by (simp add: evict_and_log_def db_call_def split_def Let_def)
  then show ?thesis using in_step_bind [OF in_step_call [OF clockless_evict assms] in_step_dels] by simp
qed

lemma in_step_map:
  assumes "in_step p q ((), p') ((), q')"
  shows "in_step p q (r, p') (r, q')"
  using assms by (simp add: in_step_def)

lemma in_step_next:
  assumes "in_step p q ((), p') ((), q')" "agree p' q' \<Longrightarrow> in_step p' q' rp rq"
  shows "in_step p q rp rq"
proof (rule in_step_trans [OF assms(1)])
  have "agree p' q'" using assms(1) by (simp add: in_step_def)
  then show "in_step (snd ((), p')) (snd ((), q')) rp rq" using assms(2) by simp
qed

lemma timeless_flushall: "timeless cmd_flushall"
proof (rule timelessI)
  fix args p q assume "agree p q"
  then have "in_step p q ((), p\<lparr>database := db_clear (database p)\<rparr>) ((), q\<lparr>database := db_clear (database q)\<rparr>)"
    by (rule in_step_database) (simp add: clocklessI)
  then show "in_step p q (cmd_flushall args p) (cmd_flushall args q)"
    unfolding cmd_flushall_def by (rule in_step_next) (simp add: in_step_propagate)
qed

lemma timeless_mset: "timeless cmd_mset"
proof (rule timelessI)
  fix args p q assume a: "\<not> sets_deadline args" "agree p q"
  have "in_step p q ((), p\<lparr>database := mset_loop (drop 1 args) (database p)\<rparr>) ((), q\<lparr>database := mset_loop (drop 1 args) (database q)\<rparr>)"
    using a(2) by (rule in_step_database) (rule clockless_loops)
  then have "in_step p q (r, propagate args (p\<lparr>database := mset_loop (drop 1 args) (database p)\<rparr>))
      (r, propagate args (q\<lparr>database := mset_loop (drop 1 args) (database q)\<rparr>))" for r :: "exn + bytes"
    by (rule in_step_next) (simp add: in_step_propagate a(1))
  with a(2) show "in_step p q (cmd_mset args p) (cmd_mset args q)" by (simp add: cmd_mset_def Let_def in_step_return)
qed

lemma timeless_config: "timeless cmd_config"
proof (rule timelessI)
  fix args p q assume a: "agree p q"
  have evict: "in_step p q (evict_and_log (p\<lparr>database := setMaxMemory n (database p)\<rparr>)) (evict_and_log (q\<lparr>database := setMaxMemory n (database q)\<rparr>))" for n
  proof (rule in_step_next)
    show "in_step p q ((), p\<lparr>database := setMaxMemory n (database p)\<rparr>) ((), q\<lparr>database := setMaxMemory n (database q)\<rparr>)"
      using a by (rule in_step_database) (simp add: clocklessI)
  qed (rule in_step_evict)
  have pol: "in_step p q (r, p\<lparr>database := setEvictionPolicy pol (database p)\<rparr>) (r, q\<lparr>database := setEvictionPolicy pol (database q)\<rparr>)" for r :: "exn + bytes" and pol
    by (rule in_step_map [OF in_step_database [OF a]]) (simp add: clocklessI)
  have "config_parameters q = config_parameters p" using a by (simp add: config_parameters_def agreeD)
  with a show "in_step p q (cmd_config args p) (cmd_config args q)"
    by (auto simp: cmd_config_def Let_def intro!: in_step_return in_step_then evict pol split: option.split)
qed

lemma set_options_plain:
  assumes "\<forall>a \<in> set as. uppercase a \<notin> {''EX'', ''PX''}" "deadline opts = None"
  shows "\<exists>x. (\<forall>p. set_options as opts p = (x, p)) \<and> (\<forall>o1. x = Inr o1 \<longrightarrow> deadline o1 = None)"
  using assms
proof (induction as arbitrary: opts)
  case (Cons a as)
  have "\<exists>x. (\<forall>p. set_options as (opts\<lparr>onlyIfMissing := True\<rparr>) p = (x, p)) \<and> (\<forall>o1. x = Inr o1 \<longrightarrow> deadline o1 = None)"
    "\<exists>x. (\<forall>p. set_options as (opts\<lparr>onlyIfPresent := True\<rparr>) p = (x, p)) \<and> (\<forall>o1. x = Inr o1 \<longrightarrow> deadline o1 = None)"
    using Cons by simp_all
  with Cons.prems show ?case
    by (cases "uppercase a = ''NX''"; cases "uppercase a = ''XX''") (auto simp: Let_def split: list.split)
qed simp

lemma set_in_step:
  assumes "uppercase (args ! 0) = ''SET''" "\<not> sets_deadline args" "agree p q"
  shows "in_step p q (cmd_set args p) (cmd_set args q)"
proof -
  let ?k = "args ! 1" and ?v = "args ! 2"
  obtain x where x: "\<And>p. set_options (drop 3 args) \<lparr>onlyIfMissing = False, onlyIfPresent = False, deadline = None\<rparr> p = (x, p)"
    "\<And>o1. x = Inr o1 \<Longrightarrow> deadline o1 = None"
    using set_options_plain [of "drop 3 args" "\<lparr>onlyIfMissing = False, onlyIfPresent = False, deadline = None\<rparr>"] assms(1,2)
    by (auto simp: sets_deadline_def)
  have store: "in_step p' q' (r, propagate [''SET'', ?k, ?v] (p'\<lparr>database := db_set ?k ?v (database p')\<rparr>))
      (r, propagate [''SET'', ?k, ?v] (q'\<lparr>database := db_set ?k ?v (database q')\<rparr>))" if "agree p' q'" for p' q' and r :: "exn + bytes"
    by (rule in_step_next [OF in_step_database [OF that clockless_key(11) [of ?k ?v]]]) (simp add: in_step_propagate)
  show ?thesis
  proof (cases x)
    case (Inl s)
    with x(1) assms(3) show ?thesis by (simp add: cmd_set_def Let_def in_step_return)
  next
    case (Inr o1)
    with x assms(3) show ?thesis
      by (auto simp: cmd_set_def Let_def intro!: in_step_return in_step_bind [OF in_step_call [OF clockless_key(2)]]
          store [unfolded One_nat_def])
  qed
qed

lemma info_in_step:
  assumes "agree p q"
  shows "in_step p q ((), snd (cmd_info args p)) ((), snd (cmd_info args q))"
proof -
  have "snd (cmd_info args p) = p\<lparr>database := (database p)\<lparr>readings := Suc (readings (database p))\<rparr>\<rparr>" for p
    by (simp add: cmd_info_def db_call_def now_def Let_def)
  moreover have "clockless (\<lambda>db. ((), db\<lparr>readings := Suc (readings db)\<rparr>))"
    by (auto simp: clockless_def) (auto simp: retime_def)
  ultimately show ?thesis using in_step_database [OF assms, of "\<lambda>db. db\<lparr>readings := Suc (readings db)\<rparr>"] by simp
qed

section \<open>Executing commands\<close>

lemmas timeless_handlers = timeless_server timeless_reads timeless_ranges timeless_writes timeless_flushall timeless_mset timeless_config

text \<open>The commands whose handlers look at the clock whatever the keys are.\<close>

definition timed :: "bytes \<Rightarrow> bool" where
  "timed name \<longleftrightarrow> name \<in> {''EXPIRE'', ''PEXPIRE'', ''EXPIREAT'', ''PEXPIREAT'', ''INFO'', ''SET''}"

lemma timed_names:
  "timed ''EXPIRE''" "timed ''PEXPIRE''" "timed ''EXPIREAT''" "timed ''PEXPIREAT''" "timed ''INFO''" "timed ''SET''"
  by (simp_all add: timed_def)

lemma table_timeless: "(name, spec) \<in> set commandTable \<Longrightarrow> timed name \<or> timeless (spec_handler spec)"
  by (auto simp: commandTable_def command_spec_def timeless_handlers timed_names)

lemma handler_in_step:
  assumes "map_of commandTable (uppercase (args ! 0)) = Some spec" "\<not> sets_deadline args" "agree p q"
  shows "in_step p q ((), snd (spec_handler spec args p)) ((), snd (spec_handler spec args q))"
    "uppercase (args ! 0) \<noteq> ''INFO'' \<Longrightarrow> in_step p q (spec_handler spec args p) (spec_handler spec args q)"
proof -
  show h: "in_step p q (spec_handler spec args p) (spec_handler spec args q)" if "uppercase (args ! 0) \<noteq> ''INFO''"
  proof (cases "uppercase (args ! 0) = ''SET''")
    case True
    with assms have "spec_handler spec = cmd_set" by (auto simp: commandTable_def command_spec_def)
    with set_in_step [OF True assms(2,3)] show ?thesis by simp
  next
    case False
    with table_timeless [OF map_of_SomeD [OF assms(1)]] that assms(2) have "timeless (spec_handler spec)"
      by (auto simp: sets_deadline_def timed_def)
    with assms(2,3) show ?thesis by (simp add: timeless_def)
  qed
  show "in_step p q ((), snd (spec_handler spec args p)) ((), snd (spec_handler spec args q))"
  proof (cases "uppercase (args ! 0) = ''INFO''")
    case True
    with assms have "spec_handler spec = cmd_info" by (auto simp: commandTable_def command_spec_def)
    with info_in_step [OF assms(3)] show ?thesis by simp
  next
    case False
    with h show ?thesis by (simp add: in_step_def)
  qed
qed

lemma write_in_step:
  assumes "map_of commandTable (uppercase (args ! 0)) = Some spec" "\<not> sets_deadline args" "agree p q"
    "uppercase (args ! 0) \<noteq> ''INFO''"
  shows "in_step p q (run_write spec args p) (run_write spec args q)"
proof -
  have call: "in_step p' q' (call_handler spec args p') (call_handler spec args q')" if "agree p' q'" for p' q'
    using handler_in_step(2) [OF assms(1,2) that assms(4)] by (simp add: call_handler_def in_step_def split_def Let_def)
  show ?thesis
    using assms(3) unfolding run_write_def agreeD(6) [OF assms(3)]
    by (auto intro!: in_step_return in_step_then in_step_evict call)
qed

lemma in_step_stats: "in_step (p\<lparr>serverStats := s\<rparr>) (q\<lparr>serverStats := s'\<rparr>) rp rq = in_step p q rp rq"
  by (simp add: in_step_def)

lemma execute_in_step:
  assumes "\<not> sets_deadline args" "agree p q"
  shows "in_step p q ((), snd (execute args p)) ((), snd (execute args q))"
    "uppercase (args ! 0) \<noteq> ''INFO'' \<Longrightarrow> fst (execute args q) = fst (execute args p)"
proof -
  let ?p = "p\<lparr>serverStats := (serverStats p)\<lparr>totalCommands := totalCommands (serverStats p) + 1\<rparr>\<rparr>"
  let ?q = "q\<lparr>serverStats := (serverStats q)\<lparr>totalCommands := totalCommands (serverStats q) + 1\<rparr>\<rparr>"
  have s: "agree ?p ?q" using assms(2) unfolding agree_def
    by (elim conjE exE, intro conjI exI [of _ "startTimeMs (serverStats q)"] exI [of _ "connectedClients (serverStats q)"]
        exI [of _ "totalConnections (serverStats q)"]) auto
  have stay: "in_step p q (r, p) (r, q)" "in_step p q (r, ?p) (r, ?q)" for r :: "exn + CommandReply"
    using in_step_return [OF assms(2)] in_step_return [OF s] by (simp_all add: in_step_stats)
  have *: "in_step p q ((), snd (execute args p)) ((), snd (execute args q)) \<and>
      (uppercase (args ! 0) \<noteq> ''INFO'' \<longrightarrow> fst (execute args q) = fst (execute args p))"
  proof (cases "args = [] \<or> uppercase (args ! 0) = ''QUIT'' \<or> map_of commandTable (uppercase (args ! 0)) = None")
    case True
    with stay show ?thesis by (auto simp: execute_def Let_def in_step_def)
  next
    case False
    then obtain spec where spec: "map_of commandTable (uppercase (args ! 0)) = Some spec" by auto
    have info: "\<not> write_cmd spec" if "uppercase (args ! 0) = ''INFO''"
      using spec that by (auto simp: commandTable_def command_spec_def)
    have "in_step ?p ?q ((), snd (call_handler spec args ?p)) ((), snd (call_handler spec args ?q)) \<and>
        (uppercase (args ! 0) \<noteq> ''INFO'' \<longrightarrow> fst (call_handler spec args ?q) = fst (call_handler spec args ?p))"
      using handler_in_step [OF spec assms(1) s] by (auto simp: call_handler_def in_step_def split_def Let_def)
    moreover have "in_step ?p ?q (run_write spec args ?p) (run_write spec args ?q)" if "write_cmd spec"
      using write_in_step [OF spec assms(1) s] info that by blast
    ultimately show ?thesis
      using False spec stay by (auto simp: execute_def Let_def in_step_stats) (auto simp: in_step_def)
  qed
  then show "in_step p q ((), snd (execute args p)) ((), snd (execute args q))"
    "uppercase (args ! 0) \<noteq> ''INFO'' \<Longrightarrow> fst (execute args q) = fst (execute args p)" by blast+
qed

lemma run_in_step:
  assumes "\<forall>args \<in> set cmds. \<not> sets_deadline args" "agree p q"
  shows "in_step p q ((), fold (\<lambda>args p. snd (execute args p)) cmds p) ((), fold (\<lambda>args p. snd (execute args p)) cmds q)"
  using assms
proof (induction cmds arbitrary: p q)
  case (Cons args cmds)
  then show ?case using execute_in_step(1) [of args p q] by (auto intro: in_step_next)
qed (simp add: in_step_return)

lemma new_agree:
  "agree (new_processor (new_database clk rnd) a) (new_processor (new_database clk' rnd) a)"
proof -
  have "database (new_processor (new_database clk' rnd) a) = retime clk' 1 (database (new_processor (new_database clk rnd) a))"
    by (simp add: new_processor_def now_def new_database_def retime_def)
  moreover have "untimed (database (new_processor (new_database clk rnd) a))"
    by (simp add: new_processor_def now_def new_database_def untimed_def)
  ultimately show ?thesis by (auto simp: agree_def new_processor_def now_def new_database_def intro: option.rel_refl)
qed

section \<open>Recovery at any time\<close>

lemma replay_in_step:
  assumes "\<not> sets_deadline args" "agree p q"
  shows "fst (replay_command args q) = fst (replay_command args p)"
    "agree (snd (replay_command args p)) (snd (replay_command args q))"
proof -
  have s: "snd (replay_command args p) = snd (execute args p)" for p
    by (simp add: replay_command_def split: prod.split sum.split)
  show "agree (snd (replay_command args p)) (snd (replay_command args q))"
    unfolding s using execute_in_step(1) [OF assms] by (simp add: in_step_def)
  have info: "fst (replay_command args p) = (True, [])" if "uppercase (args ! 0) = ''INFO''" "args \<noteq> []" for p
  proof -
    have "map_of commandTable ''INFO'' = Some (command_spec cmd_info (-1) False False)" by (simp add: commandTable_def)
    moreover have "\<not> arity_error (-1) args" using that(2) by (cases args) (auto simp: arity_error_def Let_def)
    ultimately show ?thesis
      using that by (simp add: replay_command_def execute_def command_spec_def call_handler_def cmd_info_def catch_reply_def
          reply_of_def respBulkString_def Let_def split_def)
  qed
  show "fst (replay_command args q) = fst (replay_command args p)"
  proof (cases "args = [] \<or> uppercase (args ! 0) = ''INFO''")
    case True
    then show ?thesis using info by (cases "args = []") (simp_all add: replay_command_def execute_def)
  next
    case False
    with execute_in_step(2) [OF assms] show ?thesis by (auto simp: replay_command_def split: prod.split sum.split)
  qed
qed

lemma replay_all_in_step:
  assumes "\<forall>l \<in> set ls. \<not> sets_deadline l" "agree p q" "replay_all replay_command ls p = Some p'"
  shows "\<exists>q'. replay_all replay_command ls q = Some q' \<and> agree p' q'"
  using assms
proof (induction ls arbitrary: p q)
  case (Cons l ls)
  obtain e p1 where p1: "replay_command l p = ((True, e), p1)" "replay_all replay_command ls p1 = Some p'"
    using Cons.prems(3) by (auto split: prod.splits bool.splits)
  obtain q1 where q1: "replay_command l q = ((True, e), q1)" "agree p1 q1"
    using replay_in_step [of l p q] Cons.prems(1,2) p1(1) by (cases "replay_command l q") auto
  from Cons.IH [OF _ q1(2) p1(2)] Cons.prems(1) q1(1) show ?case by auto
qed simp

lemma live_untimed: "untimed db \<Longrightarrow> live t (abs_db db) = abs_db db"
  by (auto simp: live_def abs_db_def abs_entry_def untimed_def expired_at_def deadline_of_def fun_eq_iff split: option.splits)

lemma agree_abs: "agree p q \<Longrightarrow> abs_db (database q) = abs_db (database p)"
  by (auto simp: agree_def)

text \<open>
  Recovery from the log of a run without deadlines. The run started in \<open>q\<close>, which agrees with a
  processor \<open>p\<close> that has nothing in it and whose clock stands still.
\<close>

lemma recover_agreeing:
  assumes cmds: "\<forall>args \<in> set cmds. loggable args \<and> \<not> sets_deadline args"
    and p: "frozen 0 (database p) Map.empty" "bounded_keys (database p)" "aof p = Some a" "buffer a = []"
    and q: "agree p q" "aof q = Some b" "buffer b = []"
    and q': "q' = fold (\<lambda>args p. snd (execute args p)) cmds q" "aof q' = Some b'" "prefix contents (buffer b')"
    and "appendOnly config" "fd \<noteq> -1"
  shows "\<exists>s ls whole. server_start config None fd msg (new_database clk rnd) (os0\<lparr>disk := Some contents\<rparr>) = Inr s \<and>
    buffer b' = concat (map respArray ls) \<and> cut_log ls contents whole \<and>
    disk (os s) = Some (concat (map respArray whole)) \<and>
    map_option (\<lambda>q. abs_db (database q)) (replay_all replay_command whole (new_processor (new_database clk rnd) None)) =
      Some (abs_db (database (processor s))) \<and>
    (contents = buffer b' \<longrightarrow> abs_db (database (processor s)) = abs_db (database q'))"
proof -
  let ?p' = "fold (\<lambda>args p. snd (execute args p)) cmds p"
  have l: "\<forall>args \<in> set cmds. loggable args" using cmds by blast
  obtain m ls a1 where run: "frozen 0 (database ?p') m" "aof ?p' = Some a1" "a1 = a\<lparr>buffer := buffer a @ concat (map respArray ls)\<rparr>"
    "replays 0 ls Map.empty m" "\<forall>l \<in> set ls. loggable l"
    by (rule run_log [OF p(1,3) l p(2) refl])
  have step: "in_step p q ((), ?p') ((), q')"
    unfolding q'(1) using cmds q(1) by (intro run_in_step) auto
  then have same: "agree ?p' q'" by (simp add: in_step_def)
  obtain ls' where ls': "aof ?p' = map_option (fold aof_append ls') (aof p)" "aof q' = map_option (fold aof_append ls') (aof q)"
    "\<forall>l \<in> set ls'. \<not> sets_deadline l"
    using step by (auto simp: in_step_def)
  have "concat (map respArray ls') = concat (map respArray ls)"
    using ls'(1) run(2,3) p(3,4) by (auto simp: fold_append_buffer dest: arg_cong [of _ _ buffer])
  then have "ls' = ls" by (rule log_inject)
  with ls' q(2,3) q'(2) have plain: "\<forall>l \<in> set ls. \<not> sets_deadline l" and buf: "buffer b' = concat (map respArray ls)"
    by (auto simp: fold_append_buffer)
  let ?q = "new_processor (new_database clk rnd) None"
  obtain qf where qf: "replay_all replay_command ls (new_processor (new_database (\<lambda>_. 0) rnd) None) = Some qf" "replayer 0 qf m"
    using run(4) new_replayer [of 0 rnd] by (auto simp: replays_def)
  obtain q2 where q2: "replay_all replay_command ls ?q = Some q2" "agree qf q2"
    using replay_all_in_step [OF plain new_agree qf(1)] by blast
  obtain whole where whole: "cut_log ls contents whole" using cut_log_exists [of contents ls] q'(3) buf by auto
  then obtain rest where rest: "ls = whole @ rest" by (auto simp: cut_log_def)
  obtain qw where qw: "replay_all replay_command whole ?q = Some qw"
    using replay_all_prefix [of replay_command whole rest] q2(1) rest by auto
  obtain s where s: "server_start config None fd msg (new_database clk rnd) (os0\<lparr>disk := Some contents\<rparr>) = Inr s"
    "abs_db (database (processor s)) = abs_db (database qw)" "disk (os s) = Some (concat (map respArray whole))"
    using server_start_loaded [OF assms(12,13) load_cut_log [OF whole run(5) qw]] by blast
  have "abs_db (database qw) = abs_db (database q')" if "contents = buffer b'"
  proof -
    have "whole = ls" using cut_log_whole [OF whole] that buf by simp
    then have "abs_db (database qw) = abs_db (database qf)" using qw q2 agree_abs [OF q2(2)] by simp
    also have "\<dots> = m" using qf(2) q2(2) by (simp add: replayer_def frozen_def agree_def live_untimed)
    also have "\<dots> = abs_db (database ?p')" using run(1) same by (simp add: frozen_def agree_def live_untimed)
    finally show ?thesis using agree_abs [OF same] by simp
  qed
  with s buf whole qw show ?thesis by (intro exI [of _ s] exI [of _ ls] exI [of _ whole]) simp
qed

text \<open>The empty processor of a server that just started, with its clock standing still.\<close>

lemma still_processor:
  assumes "p = new_processor (new_database (\<lambda>_. 0) rnd) a"
  shows "frozen 0 (database p) Map.empty" "bounded_keys (database p)" "aof p = a"
  using new_replayer [of 0 rnd]
  by (simp_all add: assms replayer_def bounded_keys_def dkeys_def new_processor_def now_def new_database_def Let_def split_def)

lemma restart_untimed:
  assumes "\<forall>args \<in> set cmds. loggable args \<and> \<not> sets_deadline args" "buffer a = []"
    and p': "p' = fold (\<lambda>args p. snd (execute args p)) cmds (new_processor (new_database clk rnd) (Some a))"
    and "aof p' = Some a'" "prefix contents (buffer a')" "appendOnly config" "fd \<noteq> -1"
  shows "\<exists>s ls whole. server_start config None fd msg (new_database clk' rnd') (os0\<lparr>disk := Some contents\<rparr>) = Inr s \<and>
    buffer a' = concat (map respArray ls) \<and> cut_log ls contents whole \<and>
    disk (os s) = Some (concat (map respArray whole)) \<and>
    map_option (\<lambda>q. abs_db (database q)) (replay_all replay_command whole (new_processor (new_database clk' rnd') None)) =
      Some (abs_db (database (processor s))) \<and>
    (contents = buffer a' \<longrightarrow> abs_db (database (processor s)) = abs_db (database p'))"
proof -
  have "aof (new_processor (new_database clk rnd) (Some a)) = Some a" by (simp add: new_processor_def Let_def split_def)
  from recover_agreeing [OF assms(1) still_processor [OF refl] assms(2) new_agree this assms(2) p' assms(4-7)]
  show ?thesis .
qed

end
