(* ===== verification/FKV_Session.thy ===== *)
theory FKV_Session
  imports FKV_Requests FKV_Journal FKV_Timeless
begin

text \<open>
  A run of the server as a sequence of turns, and what a crash leaves of it. In its turn a client is
  read from, its commands are executed, the log is flushed and replies are sent. Executing the
  commands of all turns one after the other gives the same keyspace and the same log as the
  run with its connections, expiration cycles and flushes in between, as long as no command
  sets a deadline. At every time the file holds the log of the commands of the first turns, up to one
  after the last that sent anything; so what was answered is there when the server starts again.
\<close>

section \<open>Turns\<close>

record Turn =
  turn_socket :: int
  turn_events :: "event list"
  turn_sent :: bytes

definition commands_of :: "Turn list \<Rightarrow> bytes list list" where
  "commands_of ts = concat (map (\<lambda>t. concat (map event_request (turn_events t))) ts)"

lemma commands_of_simps [simp]:
  "commands_of [] = []" "commands_of (ts @ us) = commands_of ts @ commands_of us"
  "commands_of [t] = concat (map event_request (turn_events t))"
  by (simp_all add: commands_of_def)

inductive session :: "Turn list \<Rightarrow> Server \<Rightarrow> Server \<Rightarrow> bool" where
  opened: "session [] s s"
| served: "session ts s t \<Longrightarrow> handleClientEvents sock err inp rv sd t = Some (Inr (sent, t')) \<Longrightarrow> only_from sock es \<Longrightarrow>
    \<forall>args \<in> set (concat (map event_request es)). loggable args \<Longrightarrow>
    settled (run_commands (concat (map event_request es)) (processor t)) t sent t' \<Longrightarrow>
    (case map_of (clients t) sock of
       None \<Rightarrow> sent = [] \<and> es = [] \<and> t' = t
     | Some c \<Rightarrow> dialogue sock (event_input err inp rv) sent es c (map_of (clients t') sock)) \<Longrightarrow>
    session (ts @ [\<lparr>turn_socket = sock, turn_events = es, turn_sent = sent\<rparr>]) s t'"
| accepted: "session ts s t \<Longrightarrow> session ts s (accept_client sock t)"
| expired: "session ts s t \<Longrightarrow> server_cron budget t = (Inr n, t') \<Longrightarrow> session ts s t'"
| synced: "session ts s t \<Longrightarrow> session ts s (server_sync ok t)"

text \<open>The bytes on the wire, by turn.\<close>

definition wire_of :: "Turn list \<Rightarrow> (int \<times> bytes) list" where
  "wire_of ts = map (\<lambda>t. (turn_socket t, turn_sent t)) ts"

lemma wire_of_simps [simp]:
  "wire_of [] = []" "wire_of (ts @ us) = wire_of ts @ wire_of us" "wire_of [t] = [(turn_socket t, turn_sent t)]"
  by (simp_all add: wire_of_def)

lemma session_loggable: "session ts s t \<Longrightarrow> \<forall>args \<in> set (commands_of ts). loggable args"
  by (induction rule: session.induct) auto

lemma session_accept:
  assumes "acceptClients ac i t = Some t'" "session ts s t"
  shows "session ts s t'"
proof -
  have "session ts s t \<longrightarrow> session ts s t'"
  proof (rule acceptClients.raw_induct [OF _ assms(1)], goal_cases)
    case (1 rec ac i t t')
    have "session ts s t \<longrightarrow> session ts s t'" if "rec ac (Suc i) (accept_client sock t) = Some t'" for sock
      using 1(1) [OF that] session.accepted by blast
    with 1 show ?case by (auto split: accept_result.splits if_splits)
  qed
  with assms(2) show ?thesis by blast
qed

lemma acceptClients_waits:
  assumes "acceptClients ac i t = Some t'" "all_waiting t"
  shows "all_waiting t'"
proof -
  have "all_waiting t \<longrightarrow> all_waiting t'"
  proof (rule acceptClients.raw_induct [OF _ assms(1)], goal_cases)
    case (1 rec ac i t t')
    have "all_waiting t \<longrightarrow> all_waiting t'" if "rec ac (Suc i) (accept_client sock t) = Some t'" for sock
      using 1(1) [OF that] all_waiting_accept by blast
    with 1 show ?case by (auto split: accept_result.splits if_splits)
  qed
  with assms(2) show ?thesis by blast
qed

lemma length_event_input: "length (event_input err inp rv) \<le> MAX_READS_PER_EVENT * READ_CHUNK_SIZE"
  using order_trans [OF length_delivered mult_le_mono1 [OF recv_count_le]] by (simp add: event_input_def)

lemma turn_loggable:
  assumes "waiting c" "length got \<le> MAX_READS_PER_EVENT * READ_CHUNK_SIZE" "dialogue sock got sent es c c'" "only_from sock es"
  shows "\<forall>args \<in> set (concat (map event_request es)). loggable args"
proof -
  obtain rest where d: "requests_in (input_buf c @ got) (requests_of sock es) rest" "closeAfterWrite c \<longrightarrow> events_of sock es = []"
    using assms(3) unfolding dialogue_def by blast
  have "\<forall>args \<in> set (requests_of sock es). loggable args"
  proof (cases "closeAfterWrite c")
    case True
    with d(2) show ?thesis by (simp add: requests_of_def)
  next
    case False
    with requests_loggable [OF d(1) _ assms(2)] assms(1) show ?thesis by (simp add: waiting_def)
  qed
  then show ?thesis by (simp add: requests_of_def only_fromD [OF assms(4)])
qed

lemma session_turn:
  assumes "handleClientEvents k err inp rv sd t = Some (Inr (sent, t'))" "server_inv t" "all_waiting t" "session ts s t"
  shows "\<exists>es. session (ts @ [\<lparr>turn_socket = k, turn_events = es, turn_sent = sent\<rparr>]) s t'"
proof -
  obtain es where es: "only_from k es" "settled (run_commands (concat (map event_request es)) (processor t)) t sent t'"
    "case map_of (clients t) k of None \<Rightarrow> sent = [] \<and> es = [] \<and> t' = t
     | Some c \<Rightarrow> dialogue k (event_input err inp rv) sent es c (map_of (clients t') k)"
    using handleClientEvents_dialogue [OF assms(2,1)] by blast
  have "\<forall>args \<in> set (concat (map event_request es)). loggable args"
  proof (cases "map_of (clients t) k")
    case None
    with es(3) show ?thesis by simp
  next
    case (Some c)
    with es(3) assms(3) show ?thesis
      by (intro turn_loggable [OF _ length_event_input _ es(1)]) (auto simp: all_waiting_def)
  qed
  then show ?thesis using session.served [OF assms(4,1) es(1) _ es(2,3)] by blast
qed

lemma session_events:
  assumes "handle_events r ws t = Some (Inr (wire, t'))" "server_inv t" "all_waiting t" "session ts s t"
  shows "\<exists>us. session (ts @ us) s t' \<and> wire = wire_of us \<and> all_waiting t'"
  using assms
proof (induction ws arbitrary: t wire ts)
  case Nil
  then show ?case by (auto intro: exI [of _ "[]"])
next
  case (Cons w ws)
  obtain k rd wr where w: "w = (k, rd, wr)" by (metis surj_pair)
  obtain err inp sent t1 wire1 where h: "handleClientEvents k err inp (recvs r k) (sends r k) t = Some (Inr (sent, t1))"
    "handle_events r ws t1 = Some (Inr (wire1, t'))" "wire = (k, sent) # wire1"
    using Cons.prems(1) w by (auto split: option.splits sum.splits prod.splits elim!: map_sum_Inr)
  obtain es where "session (ts @ [\<lparr>turn_socket = k, turn_events = es, turn_sent = sent\<rparr>]) s t1" (is "session (ts @ [?u]) s t1")
    using session_turn [OF h(1) Cons.prems(2-4)] by blast
  moreover have "server_inv t1" using handleClientEvents_inv [OF Cons.prems(2) h(1)] by auto
  moreover have "all_waiting t1" using handleClientEvents_waits [OF h(1) Cons.prems(3)] .
  ultimately obtain us where "session ((ts @ [?u]) @ us) s t'" "wire1 = wire_of us" "all_waiting t'"
    using Cons.IH [OF h(2)] by blast
  with h(3) show ?case by (intro exI [of _ "?u # us"]) (simp add: wire_of_def)
qed

lemma session_background:
  assumes "background_work config r l = Inr l'" "session ts s (server l)"
  shows "session ts s (server l')"
proof -
  have "\<exists>t. (t = server l \<or> (\<exists>n. server_cron (overBudget r) (server l) = (Inr n, t))) \<and>
      (server l' = t \<or> server l' = server_sync (fsyncOk r) t)"
    using assms(1) by (auto simp: background_work_def Let_def split: if_splits prod.splits sum.splits)
  then obtain t where t: "t = server l \<or> (\<exists>n. server_cron (overBudget r) (server l) = (Inr n, t))"
    "server l' = t \<or> server l' = server_sync (fsyncOk r) t" by blast
  have "session ts s t" using t(1) assms(2) session.expired by blast
  with t(2) show ?thesis using session.synced by auto
qed

lemma session_iteration:
  assumes "run_iteration config r l = Some (Running wire l')" "server_inv (server l)" "all_waiting (server l)" "session ts s (server l)"
  shows "\<exists>us. session (ts @ us) s (server l') \<and> wire = wire_of us \<and> all_waiting (server l')"
proof -
  let ?a = "if listenerReady r then acceptClients (accepts r) 0 (server l) else Some (server l)"
  consider "wire = []" "l' = l"
    | s1 s2 where "?a = Some s1" "handle_events r (watched r (server l)) s1 = Some (Inr (wire, s2))"
      "background_work config r (l\<lparr>server := s2\<rparr>) = Inr l'"
    using assms(1) by (auto simp: run_iteration_def split: poll_result.splits if_splits option.splits sum.splits prod.splits)
  then show ?thesis
  proof cases
    case 1
    with assms(3,4) show ?thesis by (auto intro: exI [of _ "[]"])
  next
    case (2 s1 s2)
    have "session ts s s1" "server_inv s1" "all_waiting s1"
      using 2(1) assms(2-4) session_accept acceptClients_inv acceptClients_waits by (auto split: if_splits)
    with session_events [OF 2(2)] obtain us where "session (ts @ us) s s2" "wire = wire_of us" "all_waiting s2" by blast
    with session_background [OF 2(3)] background_clients [OF 2(3)] show ?thesis by (auto simp: all_waiting_def)
  qed
qed

lemma serving_session:
  assumes "serving config rs ls ws l l'" "server_inv (server l)" "all_waiting (server l)"
  shows "\<exists>ts. session ts (server l) (server l') \<and> concat ws = wire_of ts \<and> (\<forall>t \<in> set (ls @ [l']). all_waiting (server t))"
  using assms
proof (induction rule: serving.induct)
  case (idle l)
  then show ?case by (auto intro: session.opened exI [of _ "[]"])
next
  case (round rs ls ws l l1 r w l2)
  then obtain ts where ts: "session ts (server l) (server l1)" "concat ws = wire_of ts" "\<forall>t \<in> set (ls @ [l1]). all_waiting (server t)" by blast
  have "server_inv (server l1)" using event_loop.reach_inv [OF serving_steps [OF round.hyps(1)] round.prems(1)] .
  with session_iteration [OF round.hyps(2) _ _ ts(1)] ts(3) obtain us
    where "session (ts @ us) (server l) (server l2)" "w = wire_of us" "all_waiting (server l2)" by auto
  with ts(2,3) show ?case by (intro exI [of _ "ts @ us"]) auto
qed

section \<open>The commands of a run\<close>

lemma run_appends: "appending p (run_commands cmds p)"
proof (induction cmds arbitrary: p)
  case (Cons args cmds)
  show ?case using appending_trans [OF execute_appends Cons.IH] by simp
qed simp

lemma agree_refl: "untimed (database p) \<Longrightarrow> agree p p"
  unfolding agree_def
  by (intro conjI exI [of _ "clock (database p)"] exI [of _ "readings (database p)"] exI [of _ "startTimeMs (serverStats p)"]
      exI [of _ "connectedClients (serverStats p)"] exI [of _ "totalConnections (serverStats p)"]) (auto intro: option.rel_refl)

text \<open>Agreement looks at the database, the health of the log and some of the counters.\<close>

lemma agree_upkeep:
  assumes "agree p q" "database q' = retime c r (database q)" "rel_option (\<lambda>a b. writeFailed b = writeFailed a) (aof q) (aof q')"
    "\<exists>n m. serverStats q' = (serverStats q)\<lparr>connectedClients := n, totalConnections := m\<rparr>"
  shows "agree p q'"
proof -
  have "rel_option (\<lambda>a b. writeFailed b = writeFailed a) (aof p) (aof q')"
    using assms(1,3) unfolding agree_def by (cases "aof p"; cases "aof q"; cases "aof q'") auto
  moreover have "\<exists>c r. database q' = retime c r (database p)" using assms(1,2) by (auto simp: agree_def intro!: exI [of _ c] exI [of _ r])
  moreover obtain x n' m' where x: "serverStats q = (serverStats p)\<lparr>startTimeMs := x, connectedClients := n', totalConnections := m'\<rparr>"
    using assms(1) unfolding agree_def by blast
  obtain n m where "serverStats q' = (serverStats q)\<lparr>connectedClients := n, totalConnections := m\<rparr>" using assms(4) by blast
  with x have "serverStats q' = (serverStats p)\<lparr>startTimeMs := x, connectedClients := n, totalConnections := m\<rparr>" by simp
  then have "\<exists>x n m. serverStats q' = (serverStats p)\<lparr>startTimeMs := x, connectedClients := n, totalConnections := m\<rparr>" by blast
  ultimately show ?thesis using assms(1) by (simp add: agree_def)
qed

lemma stats_same: "\<exists>n m. s = s\<lparr>connectedClients := n, totalConnections := m\<rparr>"
  "\<exists>n m. s\<lparr>totalConnections := x, connectedClients := y\<rparr> = s\<lparr>connectedClients := n, totalConnections := m\<rparr>" for s :: ServerStats
  by (rule exI [of _ "connectedClients s"], rule exI [of _ "totalConnections s"], simp)
    (rule exI [of _ y], rule exI [of _ x], simp)

lemma untimed_not_volatile:
  assumes "db_inv db" "untimed db"
  shows "volatileKeys db = []"
proof (rule ccontr)
  assume "volatileKeys db \<noteq> []"
  moreover have "volatile_ok db" using assms(1) by (simp add: db_inv_def db_struct_def)
  ultimately obtain e where "map_of (data db) (volatileKeys db ! 0) = Some e" "volatileIndex e = Some 0"
    "volatile_entry_ok (volatileKeys db) (volatileKeys db ! 0) e"
    unfolding volatile_ok_def by (metis length_greater_0_conv)
  with assms(2) show False by (auto simp: untimed_def volatile_entry_ok_def NO_EXPIRY_def)
qed

lemma agree_cron:
  assumes "agree p (processor t)" "db_inv (database p)" "server_cron budget t = (n, t')"
  shows "agree p (processor t')" "os t' = os t" "aof (processor t') = aof (processor t)"
proof -
  have "untimed (database p)" "volatileKeys (database (processor t)) = volatileKeys (database p)"
    using assms(1) by (auto simp: agree_def)
  then have "volatileKeys (database (processor t)) = []" using untimed_not_volatile [OF assms(2)] by simp
  then have "activeExpireCycle 20 budget (database (processor t)) =
      (Inr 0, retime (clock (database (processor t))) (Suc (readings (database (processor t)))) (database (processor t)))"
    by (simp add: activeExpireCycle_def now_def retime_def)
  then have t': "t' = t\<lparr>processor := (processor t)\<lparr>database :=
      retime (clock (database (processor t))) (Suc (readings (database (processor t)))) (database (processor t))\<rparr>\<rparr>"
    using assms(3) by (simp add: server_cron_def)
  show "agree p (processor t')"
    by (rule agree_upkeep [OF assms(1)]) (auto simp: t' stats_same intro: option.rel_refl)
  show "os t' = os t" "aof (processor t') = aof (processor t)" by (simp_all add: t')
qed

lemma agree_accept: "agree p (processor t) \<Longrightarrow> agree p (processor (accept_client sock t))"
  by (erule agree_upkeep [where c = "clock (database (processor t))" and r = "readings (database (processor t))"])
    (auto simp: accept_client_def Let_def stats_same intro: option.rel_refl)

lemma agree_sync: "agree p (processor t) \<Longrightarrow> agree p (processor (server_sync ok t))"
  by (erule agree_upkeep [where c = "clock (database (processor t))" and r = "readings (database (processor t))"])
    (auto simp: server_sync_def Let_def stats_same aof_sync_def option.rel_map intro!: option.rel_refl)

section \<open>The log of a run\<close>

text \<open>Flushing a healthy log on a system that does not fail empties the buffer and keeps the log healthy.\<close>

lemma flush_healthy:
  assumes "aof_flush a os0 = Some (ok, a', os1)" "fileDescriptor a \<noteq> -1" "\<forall>n. writes os0 n \<notin> {WriteError, Wrote 0}" "\<not> writeFailed a"
  shows "\<not> writeFailed a'" "buffer a' = []"
proof -
  show "buffer a' = []" using aof_flush_grows(4) [OF assms(1-3)] .
  show "\<not> writeFailed a'"
  proof (cases "buffer a = []")
    case True
    with assms(1,4) show ?thesis by (auto simp: aof_flush_def)
  next
    case False
    then obtain ok1 w os2 where l: "flush_loop (buffer a) 0 os0 = Some (ok1, w, os2)"
      using assms(1,2) by (auto simp: aof_flush_def split: option.splits)
    have "ok1" using flush_loop_complete [OF l assms(3)] .
    with l False assms(1,2) show ?thesis by (auto simp: aof_flush_def)
  qed
qed

lemma turn_log:
  assumes "agree p (processor t)" "aof p = Some a" "\<not> writeFailed a" "reliable t" "\<forall>args \<in> set cmds. \<not> sets_deadline args"
    and "settled (run_commands cmds (processor t)) t sent t'"
  shows "agree (run_commands cmds p) (processor t')"
    "\<exists>ls. aof (run_commands cmds p) = Some (fold aof_append ls a) \<and> ledger t' = ledger t @ concat (map respArray ls)"
    "disk_bytes (os t') = ledger t' \<or> sent = [] \<and> disk_bytes (os t') = disk_bytes (os t)"
proof -
  let ?q = "run_commands cmds (processor t)"
  have step: "in_step p (processor t) ((), run_commands cmds p) ((), ?q)" using assms(1,5) by (intro run_in_step)
  then have ag: "agree (run_commands cmds p) ?q" by (simp add: in_step_def)
  obtain b where b: "aof (processor t) = Some b" "\<not> writeFailed b"
    using assms(1-3) by (auto simp: agree_def option_rel_Some1)
  obtain ls where ls: "aof (run_commands cmds p) = Some (fold aof_append ls a)" "aof ?q = Some (fold aof_append ls b)"
    using step assms(2) b(1) by (auto simp: in_step_def)
  let ?b = "fold aof_append ls b"
  have bb: "buffer ?b = buffer b @ concat (map respArray ls)" "\<not> writeFailed ?b" "fileDescriptor ?b \<noteq> -1"
    using b assms(4) by (simp_all add: fold_append_buffer reliable_def)
  have w: "\<forall>n. writes (os t) n \<notin> {WriteError, Wrote 0}" using assms(4) by (simp add: reliable_def)
  obtain b' where b': "aof (processor t') = Some b'" "\<not> writeFailed b'" "stored b' (os t') = stored ?b (os t)"
    "buffer b' = [] \<or> sent = [] \<and> os t' = os t"
  proof (cases "aof (processor t') = aof ?q \<and> os t' = os t \<and> sent = []")
    case True
    with ls(2) bb that show thesis by simp
  next
    case False
    with assms(6) ls(2) obtain ok a' where "aof_flush ?b (os t) = Some (ok, a', os t')" "aof (processor t') = Some a'"
      unfolding settled_def by auto
    with flush_healthy [OF _ bb(3) w bb(2)] stored_flush(1) that show thesis by blast
  qed
  have db: "database (processor t') = retime (clock (database ?q)) (readings (database ?q)) (database ?q)"
    "\<exists>n. serverStats (processor t') = (serverStats ?q)\<lparr>connectedClients := n\<rparr>"
    using assms(6) by (simp_all add: settled_def)
  show "agree (run_commands cmds p) (processor t')"
  proof (rule agree_upkeep [OF ag db(1)])
    show "rel_option (\<lambda>a b. writeFailed b = writeFailed a) (aof ?q) (aof (processor t'))" using ls(2) b' bb by simp
    obtain n where "serverStats (processor t') = (serverStats ?q)\<lparr>connectedClients := n\<rparr>" using db(2) by blast
    then show "\<exists>n m. serverStats (processor t') = (serverStats ?q)\<lparr>connectedClients := n, totalConnections := m\<rparr>"
      by (intro exI [of _ n] exI [of _ "totalConnections (serverStats ?q)"]) simp
  qed
  show "\<exists>ls. aof (run_commands cmds p) = Some (fold aof_append ls a) \<and> ledger t' = ledger t @ concat (map respArray ls)"
    using ls(1) b(1) b'(1,3) bb(1) by (intro exI [of _ ls]) (simp add: ledger_def stored_def)
  show "disk_bytes (os t') = ledger t' \<or> sent = [] \<and> disk_bytes (os t') = disk_bytes (os t)"
    using b'(1,4) by (auto simp: ledger_def stored_def)
qed

lemma quiet_steps:
  "ledger (accept_client sock t) = ledger t" "os (accept_client sock t) = os t"
  "ledger (server_sync ok t) = ledger t" "os (server_sync ok t) = os t"
  "server_cron budget t = (n, t') \<Longrightarrow> ledger t' = ledger t" "server_cron budget t = (n, t') \<Longrightarrow> os t' = os t"
  by (auto simp: ledger_def stored_def accept_client_def server_sync_def server_cron_def aof_sync_def Let_def split: option.splits prod.splits)

text \<open>
  Where the run is: its log is that of its commands, and the file has the log of the commands of the
  first \<open>k\<close> turns, all turns that sent anything among them.
\<close>

definition written :: "CommandProcessor \<Rightarrow> Turn list \<Rightarrow> nat \<Rightarrow> bytes \<Rightarrow> bool" where
  "written p ts k contents \<longleftrightarrow> k \<le> length ts \<and> (\<forall>i < length ts. turn_sent (ts ! i) \<noteq> [] \<longrightarrow> i < k) \<and>
     map_option buffer (aof (run_commands (commands_of (take k ts)) p)) = Some contents"

lemma written_all:
  "map_option buffer (aof (run_commands (commands_of ts) p)) = Some contents \<Longrightarrow> written p ts (length ts) contents"
  by (simp add: written_def)

lemma written_silent: "written p ts k contents \<Longrightarrow> turn_sent u = [] \<Longrightarrow> written p (ts @ [u]) k contents"
  by (auto simp: written_def nth_append less_Suc_eq)

definition logged_run :: "CommandProcessor \<Rightarrow> Turn list \<Rightarrow> Server \<Rightarrow> bool" where
  "logged_run p ts t \<longleftrightarrow> agree (run_commands (commands_of ts) p) (processor t) \<and> reliable t \<and>
     map_option buffer (aof (run_commands (commands_of ts) p)) = Some (ledger t) \<and> (\<exists>k. written p ts k (disk_bytes (os t)))"

lemma logged_run_quiet:
  assumes "logged_run p ts t" "agree (run_commands (commands_of ts) p) (processor t')" "grows t t'" "ledger t' = ledger t" "os t' = os t"
  shows "logged_run p ts t'"
  using assms by (simp add: logged_run_def grows_def)

lemma logged_run_turn:
  assumes run: "logged_run p ts t" and u: "\<forall>args \<in> set (commands_of [u]). \<not> sets_deadline args"
    and p: "aof p = Some a" "\<not> writeFailed a"
    and "settled (run_commands (commands_of [u]) (processor t)) t (turn_sent u) t'" "grows t t'"
  shows "logged_run p (ts @ [u]) t'"
proof -
  let ?p = "run_commands (commands_of ts) p"
  obtain b where b: "aof ?p = Some b" "\<not> writeFailed b" "buffer b = ledger t"
    using run_appends [of p "commands_of ts"] p run by (auto simp: appending_def appends_def logged_run_def)
  have ag: "agree ?p (processor t)" "reliable t" using run by (simp_all add: logged_run_def)
  note step = turn_log [OF ag(1) b(1,2) ag(2) u assms(5)]
  obtain ls where ls: "aof (run_commands (commands_of [u]) ?p) = Some (fold aof_append ls b)" "ledger t' = ledger t @ concat (map respArray ls)"
    using step(2) by blast
  then have log: "map_option buffer (aof (run_commands (commands_of (ts @ [u])) p)) = Some (ledger t')"
    using b(3) by (simp add: fold_append_buffer)
  have "\<exists>k. written p (ts @ [u]) k (disk_bytes (os t'))"
    using step(3)
  proof
    assume "disk_bytes (os t') = ledger t'"
    with written_all [OF log] show ?thesis by auto
  next
    assume "turn_sent u = [] \<and> disk_bytes (os t') = disk_bytes (os t)"
    with run written_silent show ?thesis unfolding logged_run_def by fastforce
  qed
  with step(1) log ag(2) assms(6) show ?thesis by (simp add: logged_run_def grows_def)
qed

lemma session_logged:
  assumes "session ts s t" "logged_run (processor s) [] s" "db_inv (database (processor s))" "aof (processor s) = Some a" "\<not> writeFailed a"
    "\<forall>args \<in> set (commands_of ts). \<not> sets_deadline args"
  shows "logged_run (processor s) ts t"
  using assms
proof (induction rule: session.induct)
  case (opened s)
  then show ?case by simp
next
  case (served ts s t sock err inp rv sd sent t' es)
  then have "logged_run (processor s) ts t" by auto
  then show ?case
    by (rule logged_run_turn)
      (use served.prems served.hyps(5) handleClientEvents_grows [OF served.hyps(2)] in auto)
next
  case (accepted ts s t sock)
  then have "logged_run (processor s) ts t" by auto
  then show ?case
    by (rule logged_run_quiet) (use \<open>logged_run (processor s) ts t\<close> in \<open>auto simp: logged_run_def quiet_steps grows_accept intro: agree_accept\<close>)
next
  case (expired ts s t budget n t')
  then have run: "logged_run (processor s) ts t" by auto
  moreover have "agree (run_commands (commands_of ts) (processor s)) (processor t')"
    using agree_cron(1) [OF _ processor.run_inv [OF expired.prems(2)] expired.hyps(2)] run by (simp add: logged_run_def)
  ultimately show ?case
    using grows_cron [OF expired.hyps(2)] quiet_steps(5,6) [OF expired.hyps(2)] by (rule logged_run_quiet)
next
  case (synced ts s t ok)
  then have "logged_run (processor s) ts t" by auto
  then show ?case
    by (rule logged_run_quiet) (use \<open>logged_run (processor s) ts t\<close> in \<open>auto simp: logged_run_def quiet_steps grows_sync intro: agree_sync\<close>)
qed

section \<open>Starting again\<close>

text \<open>A server that starts with an empty file; with its clock standing still it would start in \<open>p\<close>.\<close>

lemma fresh_start:
  assumes "server_start config None fd msg (new_database clk rnd) (os0\<lparr>disk := Some []\<rparr>) = Inr s" "appendOnly config" "fd \<noteq> -1"
    and "\<And>i. 0 \<le> clk i"
  obtains p a where "frozen 0 (database p) Map.empty" "bounded_keys (database p)" "aof p = Some a" "agree p (processor s)"
    "aof (processor s) = Some a" "buffer a = []" "\<not> writeFailed a" "fileDescriptor a \<noteq> -1" "os s = os0\<lparr>disk := Some []\<rparr>" "server_inv s" "clients s = []"
proof -
  let ?a = "(new_aof (aofPath config))\<lparr>fileDescriptor := fd\<rparr>"
  let ?start = "\<lambda>clk. new_server config (setEvictionPolicy (config_evictionPolicy config) (setMaxMemory (config_maxMemory config)
    (database (new_processor (new_database clk rnd) None)))) (Some ?a) (os0\<lparr>disk := Some []\<rparr>)"
  let ?p = "processor (?start (\<lambda>_. 0))"
  have load: "aof_load replay_command None (Some []) q = (Inr (), q, Some [])" for q
    by (simp add: aof_load_def load_loop.simps)
  have s: "s = ?start clk" using assms(1-3) by (simp add: server_start_def load aof_open_def Let_def)
  have "db_inv (database ?p)"
    using new_database_inv [of "\<lambda>_. 0" rnd] by (simp add: new_server_def new_processor_def now_def Let_def settings_inv)
  then have f: "frozen 0 (database ?p) Map.empty"
    by (simp add: frozen_def new_server_def new_processor_def now_def new_database_def setMaxMemory_def setEvictionPolicy_def
        abs_db_def live_def Let_def)
  have b: "bounded_keys (database ?p)"
    by (simp add: bounded_keys_def dkeys_def new_server_def new_processor_def now_def new_database_def setMaxMemory_def
        setEvictionPolicy_def Let_def)
  have a: "aof ?p = Some ?a" "aof (processor s) = Some ?a" and o: "os s = os0\<lparr>disk := Some []\<rparr>"
    by (simp_all add: s new_server_def new_processor_def Let_def split_def)
  have db: "database (processor s) = retime clk 2 (database ?p)" "untimed (database ?p)"
    and st: "serverStats (processor s) = (serverStats ?p)\<lparr>startTimeMs := startTimeMs (serverStats (processor s)), connectedClients := 0, totalConnections := 0\<rparr>"
    by (simp_all add: s retime_def untimed_def new_server_def new_processor_def now_def new_database_def setMaxMemory_def
        setEvictionPolicy_def Let_def)
  have ag: "agree ?p (processor s)"
    unfolding agree_def
  proof (intro conjI)
    show "rel_option (\<lambda>a b. writeFailed b = writeFailed a) (aof ?p) (aof (processor s))" using a by simp
  qed (rule db(2), rule exI, rule exI, rule db(1), rule exI, rule exI, rule exI, rule st)
  have inv: "server_inv s" using server_start_inv [OF new_database_inv [OF assms(4)] assms(1)] .
  have "clients s = []" by (simp add: s new_server_def Let_def)
  then show thesis by (intro that [OF f b a(1) ag a(2) _ _ _ o inv]) (simp_all add: new_aof_def assms(3))
qed

lemma answered_commands_survive:
  assumes start: "server_start config None fd msg (new_database clk rnd) (os0\<lparr>disk := Some []\<rparr>) = Inr s0" "appendOnly config" "fd \<noteq> -1"
    and env: "\<And>i. 0 \<le> clk i" "\<forall>n. writes os0 n \<notin> {WriteError, Wrote 0}"
    and run: "session ts s0 t" "\<forall>args \<in> set (commands_of ts). \<not> sets_deadline args"
    and again: "appendOnly config'" "fd' \<noteq> -1"
  shows "abs_db (database (processor t)) = abs_db (database (run_commands (commands_of ts) (processor s0))) \<and>
    (\<exists>k s. k \<le> length ts \<and> (\<forall>i < length ts. turn_sent (ts ! i) \<noteq> [] \<longrightarrow> i < k) \<and>
       server_start config' None fd' msg' (new_database clk' rnd') (os1\<lparr>disk := Some (disk_bytes (os t))\<rparr>) = Inr s \<and>
       abs_db (database (processor s)) = abs_db (database (run_commands (commands_of (take k ts)) (processor s0))))"
proof -
  obtain p a where p: "frozen 0 (database p) Map.empty" "bounded_keys (database p)" "aof p = Some a" "agree p (processor s0)"
    "aof (processor s0) = Some a" "buffer a = []" "\<not> writeFailed a" "fileDescriptor a \<noteq> -1" "os s0 = os0\<lparr>disk := Some []\<rparr>" "server_inv s0" "clients s0 = []"
    using fresh_start [OF start env(1)] .
  have "untimed (database (processor s0))" using p(4) by (auto simp: agree_def)
  then have "logged_run (processor s0) [] s0"
    using p env(2) by (simp add: logged_run_def agree_refl reliable_def ledger_def stored_def written_def)
  then have l: "logged_run (processor s0) ts t"
    using session_logged [OF run(1) _ _ p(5,7)] p(10) run(2) by (auto simp: server_inv_def)
  then obtain k where k: "written (processor s0) ts k (disk_bytes (os t))" by (auto simp: logged_run_def)
  then obtain b where b: "aof (run_commands (commands_of (take k ts)) (processor s0)) = Some b" "buffer b = disk_bytes (os t)"
    by (auto simp: written_def)
  have "set (commands_of (take k ts)) \<subseteq> set (commands_of ts)"
    by (auto simp: commands_of_def dest: in_set_takeD)
  with run(2) session_loggable [OF run(1)] have plain: "\<forall>args \<in> set (commands_of (take k ts)). loggable args \<and> \<not> sets_deadline args" by blast
  have "prefix (disk_bytes (os t)) (buffer b)" by (simp add: b(2))
  from recover_agreeing [OF plain p(1-3,6,4,5,6) refl b(1) this again] b(2)
  obtain s where "server_start config' None fd' msg' (new_database clk' rnd') (os1\<lparr>disk := Some (disk_bytes (os t))\<rparr>) = Inr s"
    "abs_db (database (processor s)) = abs_db (database (run_commands (commands_of (take k ts)) (processor s0)))"
    by fastforce
  moreover have "abs_db (database (processor t)) = abs_db (database (run_commands (commands_of ts) (processor s0)))"
    using l agree_abs by (auto simp: logged_run_def)
  ultimately show ?thesis using k unfolding written_def by blast
qed

end
