(* ===== verification/Spec2Isabelle.thy ===== *)
theory Spec2Isabelle
  imports FKV_Findings FKV_Command_Laws FKV_Shell FKV_Linear FKV_Load FKV_Session
begin

text \<open>
  FlashKV is a Redis-compatible key-value server in C++20: a storage engine with lazy and active
  expiration and LRU eviction, a command layer of 52 commands, the RESP protocol, an append-only log
  with crash recovery, a single-threaded event loop over \<open>poll\<close>, and three further programs around
  the same engine: a local shell, WebAssembly bindings for a demo page, and a load generator. This
  development models all of these, function by function, and proves what they promise. Definitions keep the names of the source; \<open>db_\<close>, \<open>cmd_\<close>, \<open>aof_\<close> and \<open>server_\<close> prefixes
  distinguish methods of different classes that have one name.

  \<^bold>\<open>How the parts interact.\<close> Bytes from a socket go through \<open>processInput\<close> and \<open>parseRespCommand\<close> to
  \<open>execute\<close>, which looks the command up in \<open>commandTable\<close>, checks arity, log health and memory,
  evicts, and calls a handler; the handler works on the \<open>Database\<close> and hands what must be replayed to
  the \<open>AppendOnlyFile\<close>. Replies collect in the client's output buffer; the log is flushed before they
  are sent. At start-up \<open>main\<close> replays the log through the same \<open>execute\<close>.

  \<^bold>\<open>The model, by theory.\<close>
  \<^item> \<open>FKV_Prelude\<close>: bytes, generic lemmas on lists, association lists and words, the named collections.
  \<^item> \<open>FKV_Cstd\<close>: what the code uses of the C++ library: \<open>to_string\<close>, \<open>from_chars\<close>, \<open>stoi\<close>, \<open>stoll\<close>,
    checked 64-bit arithmetic, character classes.
  \<^item> \<open>FKV_Resp\<close> (\<open>src/src/resp.cpp\<close>): request parser, inline tokenizer, reply encoders.
  \<^item> \<open>FKV_Glob\<close> (\<open>globMatch\<close> of \<open>src/src/database.cpp\<close>) with its declarative meaning.
  \<^item> \<open>FKV_Database\<close> (\<open>src/src/database.cpp\<close>): the table as an association list, the LRU list, the vector
    of volatile keys with the index kept in each entry, the memory counter as a 64-bit word, every
    public and private method. The clock and the random generator are sequences of values; \<open>now()\<close>
    takes the next reading. \<open>FKV_Database_Inv\<close> has the representation invariant \<open>db_inv\<close>,
    \<open>FKV_Database_Abs\<close> the abstract keyspace, \<open>FKV_Database_Ops\<close>, \<open>FKV_Database_Aggr\<close>,
    \<open>FKV_Database_Expiry\<close> and \<open>FKV_Database_Evict\<close> the refinement of every operation.
  \<^item> \<open>FKV_Aof\<close> (\<open>src/src/aof.cpp\<close>): buffer, flush with partial writes, sync, load and truncation. The
    interface to the wire format is the locale \<open>framed_codec\<close>, interpreted on the parser.
  \<^item> \<open>FKV_Commands\<close> (\<open>src/src/commands.cpp\<close>): all handlers, the table, \<open>execute\<close>; \<open>FKV_Commands_Inv\<close>
    has the safety of every handler, \<open>FKV_Command_Laws\<close> laws over whole commands, \<open>FKV_Guards\<close> what
    is refused and the bounds of numbers, options and deadlines, \<open>FKV_Replies\<close> the shape of replies.
  \<^item> \<open>FKV_Server\<close> and \<open>FKV_Main\<close> (\<open>src/src/tcp_server.cpp\<close>): options, clients, reading, writing,
    accepting, one iteration of the loop as a function of what the system calls return (a \<open>Round\<close>),
    start-up, \<open>main\<close>. The field \<open>traffic\<close> of \<open>Server\<close> is not in the code: it records every sending
    with the contents of the log file at that moment, and nothing reads it but the theorems. \<open>FKV_Wire\<close> has the behaviour of one connection, \<open>FKV_Loop\<close> the loop as a
    step relation with its invariant, \<open>FKV_Linear\<close> the sequence of commands behind a whole run.
  \<^item> \<open>FKV_Live\<close>, \<open>FKV_Replay\<close>, \<open>FKV_Replay_Log\<close>, \<open>FKV_Replay_Run\<close>, \<open>FKV_Log_Limits\<close>, \<open>FKV_Recovery\<close>:
    from \<open>every command logs what reproduces its effect\<close> to \<open>a server restarted on any prefix of its
    log recovers\<close>; \<open>FKV_Timeless\<close> shows that without deadlines the clock does not matter, \<open>FKV_Journal\<close>
    that whatever the server does only adds to the log and that no reply overtakes it, \<open>FKV_Requests\<close>
    that every request a connection can deliver fits into the log again, and \<open>FKV_Session\<close> puts it all
    together: a run as a sequence of turns, its log and its file, and what a restart finds.
  \<^item> \<open>FKV_Format\<close> (\<open>src/src/reply_format.cpp\<close>), \<open>FKV_Shell\<close> (\<open>src/src/main.cpp\<close>,
    \<open>src/web/flashkv_wasm.cpp\<close>): the front ends.
  \<^item> \<open>FKV_Benchmark\<close> and \<open>FKV_Load\<close> (\<open>src/benchmarks/benchmark.cpp\<close>): the load generator; the first has
    options, commands, the search for complete replies and one batch, the second the threads that
    share the counter of requests, \<open>main\<close>, and a batch against the server.
  \<^item> \<open>FKV_Findings\<close>: concrete runs on which the code does not do what it means to.

  \<^bold>\<open>Errors, loops and bounds.\<close> Exceptions are the values of \<open>exn\<close>, on the left of a sum; undefined
  behaviour (\<open>front()\<close> of an empty deque) and a loop that would not end are values of it too, so that
  C1 excludes them. Recursion over a buffer is a \<open>function\<close> with its measure. Loops that wait for the
  system (\<open>flush_loop\<close>, \<open>send_loop\<close>, \<open>acceptClients\<close>) are partial functions, \<open>None\<close> when they do not
  return, and are shown to return when calls are not interrupted for ever. The sampling and eviction loops take a
  number of rounds that the number of keys bounds; running out is the value \<open>Diverged\<close>, which is
  shown not to occur. \<open>format_value\<close> takes fuel of twice the length of the reply plus two, shown
  to be enough, and so is the same number of steps for \<open>completeReplyLength\<close>. \<open>size_t\<close> counters are 64-bit words, \<open>long long\<close> values are integers with every overflow
  check written out; lengths of buffers are natural numbers.

  \<^bold>\<open>Interfaces.\<close> \<open>framing\<close> is a wire format whose messages are recognised exactly when they have
  arrived completely, with \<open>framed_codec\<close> on top of it for one that is decoded; the requests in the
  log and the replies the load generator reads are its instances. \<open>step_system\<close> is a step relation with
  an invariant; its instances are the event loop and the threads of the load generator.

  \<^bold>\<open>What is shown\<close> is C1 to C40: the command layer and the whole server (C1 to C6), the
  connection (C7 to C12), persistence (C13 to C16), the storage engine (C17 to C27), errors and bounds
  (C28 to C31), replies and front ends (C32 to C37), the load generator (C38, C39), and one run that
  goes wrong (C40, in \<open>FKV_Findings\<close>).

  \<^bold>\<open>Limits.\<close> Replay is shown for arbitrary clocks when no command sets a deadline (C2, C13), and with
  deadlines for a clock that stands still (C13); entries that expire between writing and replaying
  can make replay fail (\<open>FKV_Findings\<close>). The order in which a hash
  table lists its elements is that of an association list; the code sorts wherever it shows. \<open>char\<close> is
  signed in the ranges of a pattern. \<open>ttlMs\<close> reads the clock twice; C22 gives the answer for one
  instant, the last reading, unless the deadline lies between the two (\<open>FKV_Findings\<close>). The size limit of an
  inline command depends on how it arrives (\<open>FKV_Findings\<close>), so C7 is about connections that
  are not about to close. A batch of the load generator is one step of its thread.

  \<^bold>\<open>Not modelled:\<close> the texts on the terminal of the server (usage, diagnostics), socket options, signal
  handlers (a shutdown request is part of a \<open>Round\<close>), connecting, latencies, percentiles and tables of the load generator
  (floating-point measurements), a log file that exists but cannot be read, exceptions for lack of memory, the tests, and the page \<open>src/web/index.html\<close>.
\<close>

section \<open>Concrete states for the witnesses\<close>

definition start_db :: Database where
  "start_db = new_database (\<lambda>_. 1000) (\<lambda>_. 0)"

definition sample_db :: Database where
  "sample_db = snd (listPush ''l'' [''a'', ''b'', ''c''] Right (db_set ''k'' ''10'' start_db))"

definition sample_aof :: AppendOnlyFile where
  "sample_aof = (new_aof ''flashkv.aof'')\<lparr>fileDescriptor := 3\<rparr>"

definition sample_processor :: CommandProcessor where
  "sample_processor = new_processor sample_db (Some sample_aof)"

definition sample_os :: OS where
  "sample_os = \<lparr>disk = None, writes = (\<lambda>_. Wrote 7), calls = 0\<rparr>"

definition sample_commands :: "bytes list list" where
  "sample_commands = [[''SET'', ''k'', ''v''], [''RPUSH'', ''l'', ''a'', ''b''], [''INCR'', ''n'']]"

definition sample_log :: bytes where
  "sample_log = concat (map respArray sample_commands)"

definition sample_listen :: ListenCalls where
  "sample_listen = \<lparr>socketResult = 5, ptonResult = 1, bindResult = 0, listenResult = 0, getFlags = 0, setFlags = 0\<rparr>"

definition sample_startup :: Startup where
  "sample_startup = \<lparr>start_database = start_db, start_os = sample_os, truncateResult = None, openResult = 3,
     openMessage = [], listenCalls = sample_listen, steadyStart = (0, 0), exitFsync = True\<rparr>"

definition sample_round :: Round where
  "sample_round = \<lparr>shutdownRequested = False, poll_outcome = PollReady, descriptors = [], listenerReady = False,
     accepts = (\<lambda>_. AcceptWouldBlock), revents = (\<lambda>_. \<lparr>pollErr = False, pollIn = True, pollHup = False\<rparr>),
     recvs = (\<lambda>_ _. RecvWouldBlock), sends = (\<lambda>_ _. SendWouldBlock), steadyNow = 0, overBudget = (\<lambda>_. True),
     fsyncOk = True\<rparr>"

definition sample_client :: Client where
  "sample_client = new_client\<lparr>output_buf := respSimpleString ''OK'', closeAfterWrite := True\<rparr>"

definition sample_server :: Server where
  "sample_server =
     \<lparr>processor = (new_processor start_db None)\<lparr>serverStats := (serverStats (new_processor start_db None))\<lparr>connectedClients := 1\<rparr>\<rparr>,
      clients = [(7, sample_client)], os = sample_os, traffic = []\<rparr>"

definition sample_events :: EventLoop where
  "sample_events = \<lparr>server = sample_server, nextCron = 1, nextSync = 1\<rparr>"

definition slow_socket :: "nat \<Rightarrow> send_result" where
  "slow_socket i = (if i = 0 then Sent 1 else SendWouldBlock)"

definition slow_round :: Round where
  "slow_round = sample_round\<lparr>descriptors := [7], sends := (\<lambda>_. slow_socket)\<rparr>"

definition connect_round :: Round where
  "connect_round = sample_round\<lparr>listenerReady := True, accepts := (\<lambda>i. if i = 0 then Accepted 7 True else AcceptWouldBlock)\<rparr>"

definition logged_events :: EventLoop where
  "logged_events = sample_events\<lparr>server := sample_server\<lparr>processor := (processor sample_server)
     \<lparr>aof := Some (sample_aof\<lparr>buffer := sample_log\<rparr>)\<rparr>\<rparr>\<rparr>"

lemma start_db_inv: "db_inv start_db"
  unfolding start_db_def by (rule new_database_inv) simp

lemma sample_db_inv: "db_inv sample_db"
  unfolding sample_db_def
  by (rule refines_inv [OF listPush_refines]) (simp_all add: db_set_refines start_db_inv)

lemma new_processor_inv: "db_inv db \<Longrightarrow> db_inv (database (new_processor db a))"
  by (simp add: new_processor_def now_def Let_def)

lemma sample_processor_inv: "db_inv (database sample_processor)"
  unfolding sample_processor_def by (rule new_processor_inv [OF sample_db_inv])

lemma sample_loggable: "\<forall>args \<in> set sample_commands. loggable args"
  by (simp add: sample_commands_def loggable_def MAX_ARGUMENTS_def MAX_BULK_SIZE_def)

lemma sample_stays: "\<forall>args \<in> set sample_commands. \<not> quits args"
  by code_simp

lemma sample_responsive: "responsive sample_round" "writable sample_os"
  by (auto simp: responsive_def writable_def sample_round_def sample_os_def)

lemma slow_send:
  "pendingOutput sample_client = 5"
  "writeToClient slow_socket sample_client = Some (True, ''+'', sample_client\<lparr>outputOffset := 1\<rparr>)"
proof -
  have c: "output_buf sample_client = ''+OK'' @ [CR, LF]" "outputOffset sample_client = 0"
    by (simp_all add: sample_client_def new_client_def respSimpleString_def CRLF_def)
  then show "pendingOutput sample_client = 5" by (simp add: pendingOutput_def)
  have "send_loop slow_socket 0 [] sample_client = send_loop slow_socket 1 ''+'' (sample_client\<lparr>outputOffset := 1\<rparr>)"
    by (subst send_loop.simps) (simp add: pendingOutput_def c slow_socket_def)
  also have "\<dots> = Some (True, ''+'', sample_client\<lparr>outputOffset := 1\<rparr>)"
    by (subst send_loop.simps) (simp add: pendingOutput_def c slow_socket_def)
  finally show "writeToClient slow_socket sample_client = Some (True, ''+'', sample_client\<lparr>outputOffset := 1\<rparr>)"
    by (simp add: writeToClient_def compact_output_def c)
qed

lemma slow_iteration:
  "\<exists>l'. run_iteration default_config slow_round sample_events = Some (Running [(7, ''+'')] l') \<and>
     map_of (clients (server l')) 7 = Some (sample_client\<lparr>outputOffset := 1\<rparr>)"
proof -
  have c: "closeAfterWrite sample_client" "pendingOutput (sample_client\<lparr>outputOffset := 1\<rparr>) \<noteq> 0"
    by (simp_all add: sample_client_def new_client_def pendingOutput_def respSimpleString_def)
  have s: "clients sample_server = [(7, sample_client)]" "aof (processor sample_server) = None"
    by (simp_all add: sample_server_def new_processor_def Let_def split_def)
  have "watched slow_round sample_server = [(7, False, True)]"
    by (simp add: watched_def List.map_filter_def slow_round_def s poll_events_def c slow_send)
  moreover obtain s' where "handleClientEvents 7 False False (\<lambda>_. RecvWouldBlock) slow_socket sample_server = Some (Inr (''+'', s'))"
      "clients s' = [(7, sample_client\<lparr>outputOffset := 1\<rparr>)]" "aof (processor s') = None"
    using c by (simp add: handleClientEvents_def flush_and_write_def slow_send s Let_def)
  ultimately show ?thesis
    by (simp add: run_iteration_def slow_round_def sample_round_def sample_events_def background_work_def Let_def)
qed

lemma logged_iteration: "\<exists>l'. run_iteration default_config slow_round logged_events = Some (Running [(7, ''+'')] l')"
proof -
  let ?s = "server logged_events"
  let ?a = "sample_aof\<lparr>buffer := sample_log\<rparr>"
  have c: "closeAfterWrite sample_client" "pendingOutput (sample_client\<lparr>outputOffset := 1\<rparr>) \<noteq> 0"
    by (simp_all add: sample_client_def new_client_def pendingOutput_def respSimpleString_def)
  have s: "clients ?s = [(7, sample_client)]" "aof (processor ?s) = Some ?a" "os ?s = sample_os" "nextCron logged_events = 1" "nextSync logged_events = 1"
    by (simp_all add: logged_events_def sample_events_def sample_server_def Let_def)
  obtain ok a' os' where f: "aof_flush ?a sample_os = Some (ok, a', os')"
    using aof_flush_returns [of sample_os ?a] by (auto simp: sample_os_def)
  have "watched slow_round ?s = [(7, False, True)]"
    by (simp add: watched_def List.map_filter_def slow_round_def s poll_events_def c slow_send)
  moreover obtain s' where "handleClientEvents 7 False False (\<lambda>_. RecvWouldBlock) slow_socket ?s = Some (Inr (''+'', s'))"
    using c f by (simp add: handleClientEvents_def flush_and_write_def slow_send s Let_def)
  ultimately show ?thesis
    by (simp add: run_iteration_def slow_round_def sample_round_def background_work_def Let_def s(4,5))
qed

lemma sample_server_inv: "server_inv sample_server"
  using new_processor_inv [OF start_db_inv, of None]
  by (simp add: server_inv_def sample_server_def Let_def client_ok_def sample_client_def new_client_def)

text \<open>A client connects, sends one command and gets its reply.\<close>

definition request_round :: Round where
  "request_round = sample_round\<lparr>descriptors := [7],
     recvs := (\<lambda>_ i. if i = 0 then Received (respArray [''SET'', ''k'', ''v'']) else RecvWouldBlock), sends := (\<lambda>_ _. Sent 5)\<rparr>"

lemma request_bytes: "recv_count (recvs request_round 7) = 1" "delivered (recvs request_round 7) 1 = respArray [''SET'', ''k'', ''v'']"
proof -
  have l: "length (respArray [''SET'', ''k'', ''v'']) = 27" by code_simp
  then have "\<not> keeps_reading (recvs request_round 7 0)"
    by (simp add: keeps_reading_def chunk_of_def request_round_def READ_CHUNK_SIZE_def)
  then show "recv_count (recvs request_round 7) = 1"
    by (simp add: recv_count_def MAX_READS_PER_EVENT_def upt_conv_Cons)
  show "delivered (recvs request_round 7) 1 = respArray [''SET'', ''k'', ''v'']"
    using l by (simp add: delivered_def chunk_of_def request_round_def READ_CHUNK_SIZE_def)
qed

lemma request_heard: "clients (server l) = [(7, new_client)] \<Longrightarrow> heard_in 7 request_round l = respArray [''SET'', ''k'', ''v'']"
  using request_bytes
  by (simp add: heard_in_def event_input_def poll_events_def new_client_def OUTPUT_HIGH_WATERMARK_def pendingOutput_def)
    (simp add: request_round_def sample_round_def)

lemma start_loop_server [simp]: "server (start_loop config now1 now2 s) = s"
  by (simp add: start_loop_def)

lemma request_write:
  "writeToClient (\<lambda>_. Sent 5) (new_client\<lparr>output_buf := respSimpleString ''OK''\<rparr>) = Some (True, respSimpleString ''OK'', new_client)"
proof -
  let ?c = "new_client\<lparr>output_buf := respSimpleString ''OK''\<rparr>"
  have "send_loop (\<lambda>_. Sent 5) 0 [] ?c = send_loop (\<lambda>_. Sent 5) 1 (respSimpleString ''OK'') (?c\<lparr>outputOffset := 5\<rparr>)"
    by (subst send_loop.simps) (simp add: pendingOutput_def new_client_def respSimpleString_def CRLF_def eval_nat_numeral)
  also have "\<dots> = Some (True, respSimpleString ''OK'', ?c\<lparr>outputOffset := 5\<rparr>)"
    by (subst send_loop.simps) (simp add: pendingOutput_def respSimpleString_def CRLF_def)
  finally show ?thesis by (simp add: writeToClient_def compact_output_def respSimpleString_def CRLF_def new_client_def)
qed

lemma request_read:
  assumes "db_inv (database p)" "fst (execute [''SET'', ''k'', ''v''] p) = Inr (reply_of (respSimpleString ''OK''))"
  shows "\<exists>q. readFromClient (recvs request_round 7) new_client p = (Inr True, new_client\<lparr>output_buf := respSimpleString ''OK''\<rparr>, q)"
proof -
  let ?b = "respArray [''SET'', ''k'', ''v'']"
  have l: "length ?b = 27" "?b \<noteq> []" by code_simp+
  have r: "read_loop MAX_READS_PER_EVENT (recvs request_round 7) 0 new_client = (ReadDone, new_client\<lparr>input_buf := ?b\<rparr>)"
  proof -
    have m: "MAX_READS_PER_EVENT = Suc 15" by (simp add: MAX_READS_PER_EVENT_def)
    show ?thesis unfolding m read_loop.simps using l by (simp add: request_round_def READ_CHUNK_SIZE_def new_client_def Let_def)
  qed
  have "\<not> quits [''SET'', ''k'', ''v'']" by code_simp
  moreover have "loggable [''SET'', ''k'', ''v'']" "parseRespCommand [] = incompleteResult"
    by (simp_all add: loggable_def MAX_ARGUMENTS_def MAX_BULK_SIZE_def parseRespCommand_def)
  ultimately have "processInput (new_client\<lparr>input_buf := ?b\<rparr>) p =
      (Inr (), new_client\<lparr>output_buf := fst (serve [[''SET'', ''k'', ''v'']] p)\<rparr>, snd (serve [[''SET'', ''k'', ''v'']] p))"
    using processInput_pipeline [of "[[''SET'', ''k'', ''v'']]" "[]" "new_client\<lparr>input_buf := ?b\<rparr>" p] assms(1)
    by (simp add: new_client_def)
  moreover have "fst (serve [[''SET'', ''k'', ''v'']] p) = respSimpleString ''OK''"
    using assms(2) by (cases "execute [''SET'', ''k'', ''v''] p") (simp add: reply_of_def)
  ultimately show ?thesis using r l(1) by (simp add: readFromClient_def MAX_QUERY_BUFFER_def)
qed

lemma request_turn:
  assumes "clients s = [(7, new_client)]" "db_inv (database (processor s))" "writes (os s) = (\<lambda>_. Wrote 7)"
    "fst (execute [''SET'', ''k'', ''v''] (processor s)) = Inr (reply_of (respSimpleString ''OK''))"
  shows "\<exists>s'. handleClientEvents 7 False True (recvs request_round 7) (\<lambda>_. Sent 5) s = Some (Inr (respSimpleString ''OK'', s')) \<and>
    clients s' = [(7, new_client)]"
proof -
  let ?c = "new_client\<lparr>output_buf := respSimpleString ''OK''\<rparr>"
  obtain q where q: "readFromClient (recvs request_round 7) new_client (processor s) = (Inr True, ?c, q)"
    using request_read [OF assms(2,4)] by blast
  let ?s = "s\<lparr>processor := q, clients := [(7, ?c)]\<rparr>"
  have "writable (os ?s)" "\<exists>m \<ge> n. Sent 5 \<noteq> SendInterrupted" for n :: nat using assms(3) by (auto simp: writable_def)
  from flush_and_write_returns [OF this, of ?c] obtain ok sent c' s2 where
    f: "flush_and_write (\<lambda>_. Sent 5) ?c ?s = Some (ok, sent, c', s2)" by (metis prod_cases4)
  have "pendingOutput ?c > 0" by (simp add: pendingOutput_def new_client_def respSimpleString_def)
  with f request_write have "ok \<and> sent = respSimpleString ''OK'' \<and> c' = new_client"
    by (simp add: flush_and_write_def split: option.splits)
  with f flush_and_write_clients [OF f] have
    "flush_and_write (\<lambda>_. Sent 5) ?c ?s = Some (True, respSimpleString ''OK'', new_client, s2)" "clients s2 = [(7, ?c)]" by simp_all
  with q assms(1) show ?thesis by (simp add: handleClientEvents_def Let_def new_client_def)
qed

lemma request_run:
  "\<exists>s0 l1 l2. server_start default_config None 3 [] (new_database int (\<lambda>_. 0)) (sample_os\<lparr>disk := Some []\<rparr>) = Inr s0 \<and>
     serving default_config [connect_round, request_round] [start_loop default_config 0 0 s0, l1] [[], [(7, respSimpleString ''OK'')]]
       (start_loop default_config 0 0 s0) l2 \<and>
     server_inv s0 \<and> clients s0 = [] \<and> clients (server l1) = [(7, new_client)] \<and> clients (server l2) = [(7, new_client)]"
proof -
  let ?p = "new_processor (new_database int (\<lambda>_. 0)) None"
  let ?s0 = "new_server default_config (setEvictionPolicy (config_evictionPolicy default_config)
    (setMaxMemory (config_maxMemory default_config) (database ?p))) (Some ((new_aof (aofPath default_config))\<lparr>fileDescriptor := 3\<rparr>))
    (sample_os\<lparr>disk := Some []\<rparr>)"
  let ?l0 = "start_loop default_config 0 0 ?s0"
  have s0: "server_start default_config None 3 [] (new_database int (\<lambda>_. 0)) (sample_os\<lparr>disk := Some []\<rparr>) = Inr ?s0"
    by (simp add: server_start_def aof_load_def load_loop.simps aof_open_def Let_def default_config_def)
  have inv: "server_inv ?s0" using server_start_inv [OF new_database_inv s0] by simp
  have c0: "clients ?s0 = []" by (simp add: new_server_def Let_def)
  let ?s1 = "accept_client 7 ?s0"
  have ac: "acceptClients (accepts connect_round) 0 ?s0 = Some ?s1"
    by (subst acceptClients.simps, simp add: connect_round_def, subst acceptClients.simps, simp)
  have c1: "clients ?s1 = [(7, new_client)]" by (simp add: accept_client_def c0 Let_def)
  let ?l1 = "?l0\<lparr>server := ?s1\<rparr>"
  note loop = run_iteration_def start_loop_def background_work_def cronInterval_def SYNC_INTERVAL_def sample_round_def default_config_def
  have r1: "run_iteration default_config connect_round ?l0 = Some (Running [] ?l1)"
    using ac c0 by (simp add: loop connect_round_def watched_def List.map_filter_def del: new_client_def)
  have "server_inv ?s1" using acceptClients_inv [OF ac] inv by simp
  moreover have "fst (execute [''SET'', ''k'', ''v''] (processor ?s1)) = Inr (reply_of (respSimpleString ''OK''))" by code_simp
  moreover have "writes (os ?s1) = (\<lambda>_. Wrote 7)" by (simp add: accept_client_def new_server_def sample_os_def Let_def)
  ultimately obtain s2 where s2: "handleClientEvents 7 False True (recvs request_round 7) (\<lambda>_. Sent 5) ?s1 = Some (Inr (respSimpleString ''OK'', s2))"
    "clients s2 = [(7, new_client)]"
    using request_turn [OF c1] by (auto simp: server_inv_def)
  have "watched request_round ?s1 = [(7, True, False)]"
    using c1 by (simp add: watched_def List.map_filter_def request_round_def poll_events_def new_client_def pendingOutput_def OUTPUT_HIGH_WATERMARK_def)
  then obtain l2 where r2: "run_iteration default_config request_round ?l1 = Some (Running [(7, respSimpleString ''OK'')] l2)"
    "server l2 = s2"
    using s2(1) by (simp add: loop request_round_def)
  have "serving default_config ([] @ [connect_round]) ([] @ [?l0]) ([] @ [[]]) ?l0 ?l1"
    by (rule serving.round [OF serving.idle r1]) (simp_all add: c0 connect_round_def sample_round_def start_loop_def)
  from serving.round [OF this r2(1)] c1 have
    "serving default_config [connect_round, request_round] [?l0, ?l1] [[], [(7, respSimpleString ''OK'')]] ?l0 l2"
    by (simp add: request_round_def)
  with s0 inv c0 c1 s2(2) r2(2) show ?thesis
    by (intro exI [of _ ?s0] exI [of _ ?l1] exI [of _ l2]) simp
qed

section \<open>The command layer\<close>

text \<open>
  C1. Whatever argument vector a client sends, \<open>execute\<close> answers: no command runs into undefined
  behaviour (\<open>front()\<close> of an empty deque), none loops for ever, no exception escapes, and the
  database satisfies its representation invariant afterwards.
\<close>

theorem execute_answers:
  assumes "db_inv (database p)"
  shows "\<exists>reply p'. execute args p = (Inr reply, p') \<and> db_inv (database p')"
  using assms by (rule execute_total)

theorem execute_answers_witness:
  "\<exists>reply p'. execute [''LPOP'', ''l''] sample_processor = (Inr reply, p') \<and> db_inv (database p')"
  using execute_answers [OF sample_processor_inv] .

section \<open>The whole server\<close>

text \<open>
  C2. What was answered survives. A server starts with an empty log file on a system whose writes do not
  fail and serves clients, whatever they send and however the network behaves. Its run is a sequence of
  turns that sent the bytes on the wire, and when none of the commands in them sets a deadline, the
  keyspace is that of executing these commands one after the other. When the process is
  killed at any iteration, \<open>main\<close> starts again from the file that is there, with any clock, and has the keyspace after
  the commands of the first \<open>k\<close> turns, where no turn after these sent a byte: no client
  has seen an answer to a command that is lost, and no command is there in part.
\<close>

theorem acknowledged_writes_survive:
  assumes "server_start config None fd msg (new_database clk rnd) (os0\<lparr>disk := Some []\<rparr>) = Inr s0" "appendOnly config" "fd \<noteq> -1"
    and "\<And>i. 0 \<le> clk i" "\<forall>n. writes os0 n \<notin> {WriteError, Wrote 0}"
    and "serving config rs ls ws (start_loop config now1 now2 s0) l"
    and "appendOnly config'" "fd' \<noteq> -1"
  shows "\<exists>ts. session ts s0 (server l) \<and> concat ws = wire_of ts \<and>
    ((\<forall>args \<in> set (commands_of ts). \<not> sets_deadline args) \<longrightarrow>
       abs_db (database (processor (server l))) = abs_db (database (run_commands (commands_of ts) (processor s0))) \<and>
       (\<exists>k s. k \<le> length ts \<and> (\<forall>i < length ts. turn_sent (ts ! i) \<noteq> [] \<longrightarrow> i < k) \<and>
          server_start config' None fd' msg' (new_database clk' rnd') (os1\<lparr>disk := Some (disk_bytes (os (server l)))\<rparr>) = Inr s \<and>
          abs_db (database (processor s)) = abs_db (database (run_commands (commands_of (take k ts)) (processor s0)))))"
proof -
  have "server_inv s0" "clients s0 = []" using fresh_start [OF assms(1-4)] by blast+
  then obtain ts where ts: "session ts s0 (server l)" "concat ws = wire_of ts"
    using serving_session [OF assms(6)] by (auto simp: start_loop_def all_waiting_def)
  with answered_commands_survive [OF assms(1-5) ts(1) _ assms(7,8)] show ?thesis by blast
qed

theorem acknowledged_writes_survive_witness:
  "\<exists>s0 l1 s. server_start default_config None 3 [] (new_database int (\<lambda>_. 0)) (sample_os\<lparr>disk := Some []\<rparr>) = Inr s0 \<and>
     serving default_config [connect_round] [start_loop default_config 0 0 s0] [[]] (start_loop default_config 0 0 s0) l1 \<and>
     server_start default_config None 4 [] (new_database (\<lambda>i. 500 + int i) (\<lambda>_. 1))
       (sample_os\<lparr>disk := Some (disk_bytes (os (server l1)))\<rparr>) = Inr s \<and>
     abs_db (database (processor s)) = abs_db (database (processor s0))"
proof -
  let ?db = "new_database int (\<lambda>_. 0)"
  obtain s0 where s0: "server_start default_config None 3 [] ?db (sample_os\<lparr>disk := Some []\<rparr>) = Inr s0"
    using server_start_loaded [of default_config 3 "[]" ?db "new_processor ?db None" "[]" "[]" sample_os]
    by (auto simp: default_config_def aof_load_def load_loop.simps)
  let ?l = "start_loop default_config 0 0 s0"
  have c: "clients s0 = []" using fresh_start [OF s0] by (auto simp: default_config_def)
  have a: "acceptClients (accepts connect_round) 0 s0 = Some (accept_client 7 s0)"
    by (subst acceptClients.simps, simp add: connect_round_def, subst acceptClients.simps, simp)
  have "\<exists>l1. run_iteration default_config connect_round ?l = Some (Running [] l1)"
    using a c by (simp add: run_iteration_def connect_round_def sample_round_def start_loop_def watched_def List.map_filter_def
        background_work_def cronInterval_def default_config_def SYNC_INTERVAL_def)
  then obtain l1 where l1: "run_iteration default_config connect_round ?l = Some (Running [] l1)" ..
  have "serving default_config ([] @ [connect_round]) ([] @ [?l]) ([] @ [[]]) ?l l1"
    by (rule serving.round [OF serving.idle l1]) (simp_all add: c connect_round_def sample_round_def start_loop_def)
  then have run: "serving default_config [connect_round] [?l] [[]] ?l l1" by simp
  have "appendOnly default_config" "(3::int) \<noteq> -1" "\<And>i. 0 \<le> int i" "\<forall>n. writes sample_os n \<notin> {WriteError, Wrote 0}" "(4::int) \<noteq> -1"
    by (simp_all add: default_config_def sample_os_def)
  from acknowledged_writes_survive [OF s0 this(1-4) run this(1,5), of "[]" "\<lambda>i. 500 + int i" "\<lambda>_. 1" sample_os]
  obtain ts k s where t: "concat [[]] = wire_of ts" "(\<forall>args \<in> set (commands_of ts). \<not> sets_deadline args) \<longrightarrow>
      server_start default_config None 4 [] (new_database (\<lambda>i. 500 + int i) (\<lambda>_. 1))
        (sample_os\<lparr>disk := Some (disk_bytes (os (server l1)))\<rparr>) = Inr s \<and>
      abs_db (database (processor s)) = abs_db (database (run_commands (commands_of (take k ts)) (processor s0)))"
    by blast
  have "ts = []" using t(1) by (simp add: wire_of_def)
  with t(2) s0 run show ?thesis by auto
qed

text \<open>
  C3. The server program always gets somewhere and nothing escapes from it: for every command line,
  every content of the log file, every result of the start-up calls and every sequence of rounds of
  the event loop in which system calls are not interrupted for ever, \<open>main\<close> either is still
  serving, in a consistent state, or ends with status 0 or 1.
\<close>

theorem server_runs:
  assumes "db_inv (start_database e)" "\<forall>r \<in> set rounds. responsive r" "writable (start_os e)"
  shows "\<exists>x. server_main argv e rounds = Some x \<and>
    ((\<exists>l. x = Serving l \<and> server_inv (server l)) \<or>
     (\<exists>code \<in> {0, 1}. x = Refused code \<or> (\<exists>os1. x = Exited code os1)))"
  using server_main_returns [OF assms(2,3), of argv] server_main_ends [OF assms(1)] by blast

theorem server_runs_witness:
  "\<exists>x. server_main [''--port'', ''7000''] sample_startup [sample_round, sample_round\<lparr>shutdownRequested := True\<rparr>] = Some x \<and>
    ((\<exists>l. x = Serving l \<and> server_inv (server l)) \<or>
     (\<exists>code \<in> {0, 1}. x = Refused code \<or> (\<exists>os1. x = Exited code os1)))"
  by (rule server_runs) (use start_db_inv sample_responsive in \<open>auto simp: sample_startup_def responsive_def\<close>)



text \<open>
  C5. Time matters only through deadlines: a sequence of commands none of which sets one leaves the same
  keyspace, the same recency order, the same memory account and the same log whatever the clock
  shows, and every further such command gets the same reply, except \<open>INFO\<close>, which reports the uptime.
\<close>

theorem time_only_through_deadlines:
  assumes "\<forall>args \<in> set cmds. \<not> sets_deadline args"
    and "p = fold (\<lambda>args p. snd (execute args p)) cmds (new_processor (new_database clk rnd) log)"
    and "q = fold (\<lambda>args p. snd (execute args p)) cmds (new_processor (new_database clk' rnd) log)"
  shows "abs_db (database q) = abs_db (database p) \<and> keysByRecency (database q) = keysByRecency (database p) \<and>
    memoryUsed (database q) = memoryUsed (database p) \<and> aof q = aof p \<and>
    (\<not> sets_deadline args \<and> uppercase (args ! 0) \<noteq> ''INFO'' \<longrightarrow> fst (execute args q) = fst (execute args p))"
proof -
  have step: "in_step (new_processor (new_database clk rnd) log) (new_processor (new_database clk' rnd) log) ((), p) ((), q)"
    unfolding assms(2,3) using assms(1) new_agree by (rule run_in_step)
  then have "agree p q" by (simp add: in_step_def)
  moreover have "aof q = aof p" using step by (auto simp: in_step_def new_processor_def Let_def split_def)
  ultimately show ?thesis using execute_in_step(2) [of args p q] by (auto simp: agree_def keysByRecency_def)
qed

theorem time_only_through_deadlines_witness:
  "\<exists>p q. p = fold (\<lambda>args p. snd (execute args p)) sample_commands (new_processor (new_database int (\<lambda>_. 0)) None) \<and>
     q = fold (\<lambda>args p. snd (execute args p)) sample_commands (new_processor (new_database (\<lambda>_. 7) (\<lambda>_. 0)) None) \<and>
     abs_db (database q) = abs_db (database p) \<and> fst (execute [''TTL'', ''k''] q) = fst (execute [''TTL'', ''k''] p)"
proof -
  let ?p = "\<lambda>clk. fold (\<lambda>args p. snd (execute args p)) sample_commands (new_processor (new_database clk (\<lambda>_. 0)) None)"
  have plain: "\<forall>args \<in> set sample_commands. \<not> sets_deadline args" "\<not> sets_deadline [''TTL'', ''k'']"
    "uppercase ([''TTL'', ''k''] ! 0) \<noteq> ''INFO''"
    by code_simp+
  have "abs_db (database (?p (\<lambda>_. 7))) = abs_db (database (?p int)) \<and>
      fst (execute [''TTL'', ''k''] (?p (\<lambda>_. 7))) = fst (execute [''TTL'', ''k''] (?p int))"
    using time_only_through_deadlines [OF plain(1) refl refl, of int "\<lambda>_. 0" None "\<lambda>_. 7" "[''TTL'', ''k'']"] plain(2,3) by argo
  then show ?thesis by (intro exI [of _ "?p int"] exI [of _ "?p (\<lambda>_. 7)"] conjI refl) argo+
qed

text \<open>
  C6. Every state the event loop reaches from a consistent one is consistent: the database invariant
  holds, no socket has two clients, no client's output offset is beyond its buffer, and the number of
  connected clients that \<open>INFO\<close> reports is the number of clients.
\<close>

theorem event_loop_invariant:
  assumes "(loop_step config)\<^sup>*\<^sup>* l l'" "server_inv (server l)"
  shows "server_inv (server l')"
  using assms by (rule event_loop.reach_inv)

theorem event_loop_invariant_witness:
  "\<exists>l l'. (loop_step default_config)\<^sup>*\<^sup>* l l' \<and> clients (server l) = [] \<and> clients (server l') = [(7, new_client)] \<and> server_inv (server l')"
proof -
  obtain s0 l1 l2 where r: "serving default_config [connect_round, request_round] [start_loop default_config 0 0 s0, l1]
      [[], [(7, respSimpleString ''OK'')]] (start_loop default_config 0 0 s0) l2"
    "server_inv s0" "clients s0 = []" "clients (server l2) = [(7, new_client)]"
    using request_run by blast
  note steps = serving_steps [OF r(1)]
  from event_loop_invariant [OF steps] steps r(2-4) show ?thesis by (intro exI [of _ "start_loop default_config 0 0 s0"] exI [of _ l2]) simp
qed

section \<open>Clients\<close>

text \<open>
  C7. How the network cuts the byte stream does not matter: as long as the first part of the input does not make
  the server close the connection, processing it and then, with what is left of it, the rest gives the client,
  the database and the log that processing everything at once gives. The condition is needed: more than
  64 KiB without a line feed are refused as too big an inline request, while the same line is executed when its
  line feed arrives with it (\<open>FKV_Findings.inline_limit_depends_on_chunks\<close>).
\<close>

theorem chunks_do_not_matter:
  assumes "db_inv (database p)" "processInput (c\<lparr>input_buf := first\<rparr>) p = (r, c1, p1)" "\<not> closeAfterWrite c1"
  shows "processInput (c1\<lparr>input_buf := input_buf c1 @ more_bytes\<rparr>) p1 = processInput (c\<lparr>input_buf := first @ more_bytes\<rparr>) p"
  using assms by (rule processInput_chunks)

theorem chunks_do_not_matter_witness:
  "\<exists>c1 p1. processInput (new_client\<lparr>input_buf := ''*1''\<rparr>) sample_processor = (Inr (), c1, p1) \<and>
     processInput (c1\<lparr>input_buf := input_buf c1 @ [CR, LF]\<rparr>) p1 = processInput (new_client\<lparr>input_buf := ''*1'' @ [CR, LF]\<rparr>) sample_processor"
proof -
  have "parseRespCommand ''*1'' = incompleteResult"
    by code_simp
  then have p: "processInput (new_client\<lparr>input_buf := ''*1''\<rparr>) sample_processor = (Inr (), new_client\<lparr>input_buf := ''*1''\<rparr>, sample_processor)"
    by (simp add: processInput_def process_loop.simps new_client_def incompleteResult_def)
  moreover have "\<not> closeAfterWrite (new_client\<lparr>input_buf := ''*1''\<rparr>)" by (simp add: new_client_def)
  ultimately show ?thesis using chunks_do_not_matter [OF sample_processor_inv p] by blast
qed

text \<open>
  C8. Pipelining: when the input of a client is the encodings of any number of commands and the
  beginning of another, all of them are executed in order, their replies are appended to the output
  in that order, and the incomplete rest stays.
\<close>

theorem pipelined_commands:
  assumes "\<forall>args \<in> set cmds. loggable args \<and> \<not> quits args"
    and "parseRespCommand tail = incompleteResult" "\<not> closeAfterWrite c" "db_inv (database p)"
    and "input_buf c = concat (map respArray cmds) @ tail"
  shows "processInput c p =
    (Inr (), c\<lparr>input_buf := tail, output_buf := output_buf c @ fst (serve cmds p)\<rparr>, snd (serve cmds p))"
  using assms by (rule processInput_pipeline)

theorem pipelined_commands_witness:
  "processInput (new_client\<lparr>input_buf := sample_log\<rparr>) sample_processor =
    (Inr (), new_client\<lparr>input_buf := [], output_buf := fst (serve sample_commands sample_processor)\<rparr>, snd (serve sample_commands sample_processor))"
proof -
  have "\<forall>args \<in> set sample_commands. loggable args \<and> \<not> quits args"
    using sample_loggable sample_stays by simp
  moreover have "parseRespCommand [] = incompleteResult" by (simp add: parseRespCommand_def)
  ultimately show ?thesis
    using pipelined_commands [OF _ _ _ sample_processor_inv, of sample_commands "[]" "new_client\<lparr>input_buf := sample_log\<rparr>"]
    by (simp add: new_client_def sample_log_def)
qed

text \<open>
  C9. Requests survive the wire: the parser reads the encoding of a command back, whatever follows it,
  and consumes exactly the encoding; and a request that has not arrived completely is waited for, so
  no proper prefix of an encoded command is taken for a command or rejected as malformed.
\<close>

theorem request_framing:
  assumes "length args \<le> MAX_ARGUMENTS" "\<forall>a \<in> set args. length a \<le> MAX_BULK_SIZE"
  shows "parseRespCommand (respArray args @ rest) = completeResult args (length (respArray args)) \<and>
    (strict_prefix part (respArray args) \<longrightarrow> parseRespCommand part = incompleteResult)"
  using parse_encoded_command [OF assms] parse_prefix_incomplete [OF assms] by (auto simp: strict_prefix_def prefix_def)

theorem request_framing_witness:
  "parseRespCommand (respArray [''SET'', ''k'', [CR, LF]] @ ''*'') =
     completeResult [''SET'', ''k'', [CR, LF]] (length (respArray [''SET'', ''k'', [CR, LF]])) \<and>
   parseRespCommand (take 9 (respArray [''SET'', ''k'', [CR, LF]])) = incompleteResult"
proof -
  have "strict_prefix (take 9 (respArray [''SET'', ''k'', [CR, LF]])) (respArray [''SET'', ''k'', [CR, LF]])" by code_simp
  with request_framing [of "[''SET'', ''k'', [CR, LF]]" "''*''"] show ?thesis
    by (simp add: MAX_ARGUMENTS_def MAX_BULK_SIZE_def)
qed

text \<open>
  C10. The parser makes progress, stays inside its buffer, and does not change its mind: a complete
  request consumes at least one byte and no more than there are, and more input does not change it.
\<close>

theorem parser_consumption:
  assumes "status (parseRespCommand buf) = Complete"
  shows "0 < consumedBytes (parseRespCommand buf) \<and> consumedBytes (parseRespCommand buf) \<le> length buf \<and>
    parseRespCommand (buf @ ext) = parseRespCommand buf"
  using parse_consumed [OF assms] parse_complete_append [OF assms] by blast

theorem parser_consumption_witness:
  "0 < consumedBytes (parseRespCommand (respArray [''PING''])) \<and>
   consumedBytes (parseRespCommand (respArray [''PING''])) \<le> length (respArray [''PING'']) \<and>
   parseRespCommand (respArray [''PING''] @ ''junk'') = parseRespCommand (respArray [''PING''])"
proof (rule parser_consumption)
  have "parseRespCommand (respArray [''PING''] @ []) = completeResult [''PING''] (length (respArray [''PING'']))"
    by (rule parse_encoded_command) (simp_all add: MAX_ARGUMENTS_def MAX_BULK_SIZE_def)
  then show "status (parseRespCommand (respArray [''PING''])) = Complete" by (simp add: completeResult_def)
qed

text \<open>
  C11. Replies are neither lost nor repeated nor reordered: what a write hands to the socket is a prefix
  of what was pending, and what is pending afterwards is the rest, with every outcome of \<open>send\<close>
  (short, interrupted, refused, failed) and through the compaction of the buffer. The write returns
  unless \<open>send\<close> is interrupted for ever.
\<close>

theorem replies_conserved:
  assumes "\<And>n. \<exists>m \<ge> n. sd m \<noteq> SendInterrupted"
  shows "\<exists>ok sent c'. writeToClient sd c = Some (ok, sent, c') \<and> sent @ pending c' = pending c \<and>
    input_buf c' = input_buf c \<and> closeAfterWrite c' = closeAfterWrite c"
proof -
  obtain ok sent c' where w: "writeToClient sd c = Some (ok, sent, c')" using writeToClient_returns [OF assms, of c] by auto
  with writeToClient_conserves [OF w] show ?thesis by (simp add: conserves_def)
qed

theorem replies_conserved_witness:
  "\<exists>ok sent c'. writeToClient (\<lambda>i. if even i then SendInterrupted else Sent 2) sample_client = Some (ok, sent, c') \<and>
    sent @ pending c' = pending sample_client \<and> input_buf c' = input_buf sample_client \<and>
    closeAfterWrite c' = closeAfterWrite sample_client"
proof (rule replies_conserved)
  fix n :: nat
  show "\<exists>m \<ge> n. (if even m then SendInterrupted else Sent 2) \<noteq> SendInterrupted"
    by (rule exI [of _ "2 * n + 1"]) simp
qed

text \<open>
  C12. Backpressure: in an iteration of the event loop, a client whose unread replies have reached the
  high watermark, or that is being closed, is not read from unless its peer hung up. Its input stays
  as it is and nothing is added to its replies; they are at most sent.
\<close>

theorem backpressure:
  assumes "run_iteration config r l = Some (Running wire l')" "map_of (clients (server l)) sock = Some c"
    "OUTPUT_HIGH_WATERMARK \<le> pendingOutput c \<or> closeAfterWrite c" "\<not> pollHup (revents r sock)"
    "map_of (clients (server l')) sock = Some c'"
  shows "input_buf c' = input_buf c \<and> suffix (pending c') (pending c)"
  using iteration_drained [OF assms(1-4)] assms(5) by (simp add: drained_def)

theorem backpressure_witness:
  "\<exists>wire l' c'. run_iteration default_config slow_round sample_events = Some (Running wire l') \<and>
     map_of (clients (server l')) 7 = Some c' \<and> outputOffset c' = 1 \<and>
     input_buf c' = input_buf sample_client \<and> suffix (pending c') (pending sample_client)"
proof -
  obtain l' where l': "run_iteration default_config slow_round sample_events = Some (Running [(7, ''+'')] l')"
    "map_of (clients (server l')) 7 = Some (sample_client\<lparr>outputOffset := 1\<rparr>)"
    using slow_iteration by blast
  have "map_of (clients (server sample_events)) 7 = Some sample_client" "closeAfterWrite sample_client" "\<not> pollHup (revents slow_round 7)"
    by (simp_all add: sample_events_def sample_server_def sample_client_def slow_round_def sample_round_def)
  with backpressure [OF l'(1) _ _ _ l'(2), of sample_client] l' show ?thesis by auto
qed

section \<open>Persistence\<close>

text \<open>
  C13. Crash recovery. A server that starts with an empty log and executes any sequence of commands
  that its parser accepts leaves in its log the encodings of a list of commands. When a crash leaves
  any prefix of that log on disk, \<open>main\<close> starts: it replays the commands that are whole in the
  file, in order, and cuts the file after them; when the file is complete, the live keyspace is the
  one at the time of the crash. Either none of the commands sets a deadline, and then the clocks of
  both runs are arbitrary, or the clock stands at \<open>t\<close> in both.
\<close>

theorem crash_recovery:
  assumes "(\<forall>args \<in> set cmds. \<not> sets_deadline args) \<or> 0 \<le> t \<and> clk = (\<lambda>_. t) \<and> clk' = (\<lambda>_. t)"
    and "\<forall>args \<in> set cmds. loggable args" "buffer a = []"
    and "p' = fold (\<lambda>args p. snd (execute args p)) cmds (new_processor (new_database clk rnd) (Some a))"
    and "aof p' = Some a'" "prefix contents (buffer a')" "appendOnly config" "fd \<noteq> -1"
  shows "\<exists>s ls whole. server_start config None fd msg (new_database clk' rnd') (os0\<lparr>disk := Some contents\<rparr>) = Inr s \<and>
    buffer a' = concat (map respArray ls) \<and> cut_log ls contents whole \<and>
    disk (os s) = Some (concat (map respArray whole)) \<and>
    map_option (\<lambda>q. abs_db (database q)) (replay_all replay_command whole (new_processor (new_database clk' rnd') None)) =
      Some (abs_db (database (processor s))) \<and>
    (contents = buffer a' \<longrightarrow> live t (abs_db (database (processor s))) = live t (abs_db (database p')))"
  using assms(1)
proof
  assume "\<forall>args \<in> set cmds. \<not> sets_deadline args"
  with assms(2) have "\<forall>args \<in> set cmds. loggable args \<and> \<not> sets_deadline args" by blast
  from restart_untimed [OF this assms(3-8), of msg clk' rnd' os0] show ?thesis by metis
next
  assume "0 \<le> t \<and> clk = (\<lambda>_. t) \<and> clk' = (\<lambda>_. t)"
  with restart [OF _ assms(2,3) _ assms(5-8), of t rnd msg rnd' os0] assms(4) show ?thesis by blast
qed

theorem crash_recovery_witness:
  "\<exists>s ls whole. server_start default_config None 3 [] (new_database (\<lambda>i. 500 + int i) (\<lambda>_. 1)) (sample_os\<lparr>disk := Some (take 40 sample_log)\<rparr>) = Inr s \<and>
    sample_log = concat (map respArray ls) \<and> cut_log ls (take 40 sample_log) whole \<and>
    disk (os s) = Some (concat (map respArray whole))"
proof -
  have "aof (fold (\<lambda>args p. snd (execute args p)) sample_commands (new_processor (new_database int (\<lambda>_. 0)) (Some sample_aof))) =
      Some (sample_aof\<lparr>buffer := sample_log\<rparr>)"
    by code_simp
  moreover have "buffer sample_aof = []" "appendOnly default_config" "prefix (take 40 sample_log) (buffer (sample_aof\<lparr>buffer := sample_log\<rparr>))"
    by (simp_all add: sample_aof_def new_aof_def default_config_def take_is_prefix)
  moreover have "\<forall>args \<in> set sample_commands. \<not> sets_deadline args" by code_simp
  ultimately show ?thesis
    using crash_recovery [OF _ sample_loggable _ refl, of 0 int "\<lambda>i. 500 + int i" sample_aof "\<lambda>_. 0" "sample_aof\<lparr>buffer := sample_log\<rparr>"
        "take 40 sample_log" default_config 3 "[]" "\<lambda>_. 1" sample_os]
    by auto
qed

text \<open>
  C14. \<open>flush\<close> loses nothing: whatever \<open>write\<close> does, the bytes of the file followed by the bytes of
  the buffer are the same before and after, and after a successful flush the buffer is empty. The
  call returns unless \<open>write\<close> is interrupted for ever.
\<close>

theorem flush_keeps_log:
  assumes "\<And>n. \<exists>m \<ge> n. writes os0 m \<noteq> Interrupted"
  shows "\<exists>ok a' os'. aof_flush a os0 = Some (ok, a', os') \<and> disk_bytes os' @ buffer a' = disk_bytes os0 @ buffer a \<and>
    (ok \<longrightarrow> buffer a' = [])"
proof -
  obtain ok a' os' where f: "aof_flush a os0 = Some (ok, a', os')" using aof_flush_returns [OF assms, of a] by auto
  with stored_flush [OF f] show ?thesis by (auto simp: stored_def)
qed

theorem flush_keeps_log_witness:
  "\<exists>ok a' os'. aof_flush (sample_aof\<lparr>buffer := sample_log\<rparr>) sample_os = Some (ok, a', os') \<and>
    disk_bytes os' @ buffer a' = disk_bytes sample_os @ sample_log"
  using flush_keeps_log [of sample_os "sample_aof\<lparr>buffer := sample_log\<rparr>"] by (auto simp: sample_os_def)

text \<open>
  C15. Replies wait for the log, and the log lasts: with an open file on a system whose writes do not
  fail, whenever an iteration sends bytes to a client, there is the turn of the client that sends them, from \<open>s\<close> to
  \<open>s'\<close>; at the moment they leave, the file holds everything that was logged up to the end of
  that turn, by the commands answered in it too; and these contents stay at the front of the file, in
  every state the loop reaches later.
\<close>

theorem log_before_reply:
  assumes "reliable (server l)" "run_iteration config r l = Some (Running wire l1)" "(sock, sent) \<in> set wire" "sent \<noteq> []"
    "(loop_step config)\<^sup>*\<^sup>* l1 l2"
  shows "\<exists>s s' d. turn r l sock sent s s' \<and> prefix (ledger (server l)) (ledger s) \<and> prefix (ledger s) (ledger s') \<and>
    traffic s' = traffic s @ [(sent, d)] \<and> prefix (ledger s') d \<and> prefix d (disk_bytes (os (server l2)))"
  using assms by (rule reply_logged)

theorem log_before_reply_witness:
  "\<exists>l1 s s' d. run_iteration default_config slow_round logged_events = Some (Running [(7, ''+'')] l1) \<and>
     turn slow_round logged_events 7 ''+'' s s' \<and> traffic s' = traffic s @ [(''+'', d)] \<and> prefix sample_log d \<and>
     prefix d (disk_bytes (os (server l1)))"
proof -
  obtain l1 where l1: "run_iteration default_config slow_round logged_events = Some (Running [(7, ''+'')] l1)"
    using logged_iteration by blast
  have "reliable (server logged_events)" and log: "ledger (server logged_events) = sample_log"
    by (simp_all add: reliable_def ledger_def stored_def logged_events_def sample_server_def sample_aof_def new_aof_def sample_os_def)
  with log_before_reply [OF _ l1, of 7 "''+''" l1] obtain s s' d where
    t: "turn slow_round logged_events 7 ''+'' s s'" "prefix sample_log (ledger s)" "prefix (ledger s) (ledger s')"
      "traffic s' = traffic s @ [(''+'', d)]" "prefix (ledger s') d" "prefix d (disk_bytes (os (server l1)))"
    by auto
  have "prefix sample_log d" using prefix_order.trans [OF prefix_order.trans [OF t(2,3)] t(5)] .
  with l1 t(1,4,6) show ?thesis by blast
qed

text \<open>
  C16. Nothing that was logged is lost by a shutdown. When \<open>run\<close> returns after any rounds (on request or because
  \<open>poll\<close> failed), \<open>main\<close> leaves and ends, as long as system calls are not interrupted for ever; what the log held at any
  earlier time is still at its front; the file has grown and holds a prefix of the log; and on
  a system whose writes do not fail it holds the whole log.
\<close>

theorem shutdown_writes_log:
  assumes "run config rounds l = Some (Returned code s)" "\<forall>r \<in> set rounds. responsive r" "writable (os (server l))"
    and "aof (processor (server l)) \<noteq> None"
  shows "\<exists>os1. leave ok code s = Some (Exited code os1) \<and> prefix (ledger (server l)) (ledger s) \<and>
    prefix (disk_bytes (os (server l))) (disk_bytes os1) \<and> prefix (disk_bytes os1) (ledger s) \<and>
    (reliable (server l) \<longrightarrow> disk_bytes os1 = ledger s)"
  using assms by (rule run_shutdown)

theorem shutdown_writes_log_witness:
  "\<exists>os1. run default_config [sample_round\<lparr>shutdownRequested := True\<rparr>] logged_events = Some (Returned 0 ((server logged_events)\<lparr>clients := []\<rparr>)) \<and>
     leave True 0 ((server logged_events)\<lparr>clients := []\<rparr>) = Some (Exited 0 os1) \<and> disk_bytes os1 = sample_log"
proof -
  let ?s = "(server logged_events)\<lparr>clients := []\<rparr>"
  have r: "run default_config [sample_round\<lparr>shutdownRequested := True\<rparr>] logged_events = Some (Returned 0 ?s)"
    by (simp add: run_iteration_def)
  have l: "reliable (server logged_events)" "ledger ?s = sample_log" "aof (processor (server logged_events)) \<noteq> None"
    "writable (os (server logged_events))" "responsive (sample_round\<lparr>shutdownRequested := True\<rparr>)"
    using sample_responsive
    by (simp_all add: reliable_def ledger_def stored_def logged_events_def sample_events_def sample_server_def sample_aof_def new_aof_def
        sample_os_def responsive_def)
  from shutdown_writes_log [OF r _ l(4,3), of True] l(1,2,5) r show ?thesis by auto
qed

section \<open>The storage engine\<close>

text \<open>
  C17. Strings: over the abstract keyspace, a finite map from keys to typed values with an optional
  deadline, \<open>SET\<close> binds the key and drops its deadline, \<open>GET\<close>, \<open>APPEND\<close>, \<open>STRLEN\<close> and \<open>INCR\<close>
  compute what they should on the live entry (the increment within the range of a \<open>long long\<close>,
  with errors for other types and for text that is no number), and all keep the invariant.
\<close>

theorem string_operations_refine:
  assumes "db_inv db"
  shows "db_inv (db_set k v db) \<and> abs_db (db_set k v db) = spec_set k v (abs_db db) \<and>
    refines (db_get k db) (spec_get (time_now db) k (abs_db db)) \<and>
    refines (db_append k v db) (spec_append v (time_now db) k (abs_db db)) \<and>
    refines (incrementBy k delta db) (spec_incr delta (time_now db) k (abs_db db)) \<and>
    refines (stringLength k db) (spec_strlen (time_now db) k (abs_db db))"
  by (simp only: db_set_refines [OF assms] db_get_refines [OF assms] db_append_refines [OF assms]
      incrementBy_refines [OF assms] stringLength_refines [OF assms] simp_thms)

theorem string_operations_refine_witness:
  "refines (incrementBy ''k'' 5 sample_db) (spec_incr 5 (time_now sample_db) ''k'' (abs_db sample_db))"
  using string_operations_refine [OF sample_db_inv] by blast

text \<open>
  C18. Lists: pushes at either end (in the order the elements are given), pops at either end (removing
  the key with the last element), ranges and indexing with negative offsets from the end, and the
  length are those of a list; keys of other types are refused.
\<close>

theorem list_operations_refine:
  assumes "db_inv db" "vs \<noteq> []"
  shows "refines (listPush k vs side db) (spec_push vs side (time_now db) k (abs_db db)) \<and>
    refines (listPop k side db) (spec_pop side (time_now db) k (abs_db db)) \<and>
    refines (listRange k start stop db) (spec_range start stop (time_now db) k (abs_db db)) \<and>
    refines (listIndex k i db) (spec_index i (time_now db) k (abs_db db)) \<and>
    refines (listLength k db) (spec_llen (time_now db) k (abs_db db))"
  by (simp only: listPush_refines [OF assms] listPop_refines [OF assms(1)] listRange_refines [OF assms(1)]
      listIndex_refines [OF assms(1)] listLength_refines [OF assms(1)] simp_thms)

theorem list_operations_refine_witness:
  "refines (listPush ''l'' [''x'', ''y''] Left sample_db) (spec_push [''x'', ''y''] Left (time_now sample_db) ''l'' (abs_db sample_db)) \<and>
   refines (listRange ''l'' (-2) (-1) sample_db) (spec_range (-2) (-1) (time_now sample_db) ''l'' (abs_db sample_db))"
  using list_operations_refine [OF sample_db_inv, of "[''x'', ''y'']"] by blast

text \<open>
  C19. Hashes: setting fields (the last of equal fields wins, the result counts the new ones), reading,
  deleting (removing the key with the last field), listing in field order, counting and testing
  fields are those of a finite map.
\<close>

theorem hash_operations_refine:
  assumes "db_inv db" "fs \<noteq> []"
  shows "refines (hashSet k fs db) (spec_hset fs (time_now db) k (abs_db db)) \<and>
    refines (hashGet k f db) (spec_hget f (time_now db) k (abs_db db)) \<and>
    refines (hashDelete k ds db) (spec_hdel ds (time_now db) k (abs_db db)) \<and>
    refines (hashGetAll k db) (spec_hgetall (time_now db) k (abs_db db)) \<and>
    refines (hashLength k db) (spec_hlen (time_now db) k (abs_db db)) \<and>
    refines (hashExists k f db) (spec_hexists f (time_now db) k (abs_db db))"
  by (simp only: hashSet_refines [OF assms] hashGet_refines [OF assms(1)] hashDelete_refines [OF assms(1)]
      hashGetAll_refines [OF assms(1)] hashLength_refines [OF assms(1)] hashExists_refines [OF assms(1)] simp_thms)

theorem hash_operations_refine_witness:
  "refines (hashSet ''h'' [(''f'', ''1''), (''f'', ''2'')] sample_db)
     (spec_hset [(''f'', ''1''), (''f'', ''2'')] (time_now sample_db) ''h'' (abs_db sample_db))"
  using hash_operations_refine [OF sample_db_inv, of "[(''f'', ''1''), (''f'', ''2'')]"] by blast

text \<open>
  C20. Sets: adding and removing members with the number of changes, listing in order, membership and
  cardinality are those of a finite set.
\<close>

theorem set_operations_refine:
  assumes "db_inv db" "ms \<noteq> []"
  shows "refines (setAdd k ms db) (spec_sadd ms (time_now db) k (abs_db db)) \<and>
    refines (setRemove k ds db) (spec_srem ds (time_now db) k (abs_db db)) \<and>
    refines (setMembers k db) (spec_smembers (time_now db) k (abs_db db)) \<and>
    refines (setIsMember k x db) (spec_sismember x (time_now db) k (abs_db db)) \<and>
    refines (setCardinality k db) (spec_scard (time_now db) k (abs_db db))"
  by (simp only: setAdd_refines [OF assms] setRemove_refines [OF assms(1)] setMembers_refines [OF assms(1)]
      setIsMember_refines [OF assms(1)] setCardinality_refines [OF assms(1)] simp_thms)

theorem set_operations_refine_witness:
  "refines (setAdd ''k'' [''m''] sample_db) (spec_sadd [''m''] (time_now sample_db) ''k'' (abs_db sample_db))"
  using set_operations_refine [OF sample_db_inv, of "[''m'']"] by blast

text \<open>
  C21. The keyspace: deletion, existence and type look at the live entry of the key, and \<open>KEYS\<close> lists
  the live keys that match the pattern, each once and in order, without removing anything.
\<close>

theorem keyspace_operations_refine:
  assumes "db_inv db"
  shows "refines (db_del k db) (spec_del (time_now db) k (abs_db db)) \<and>
    refines (db_exists k db) (spec_exists (time_now db) k (abs_db db)) \<and>
    refines (db_type k db) (spec_type (time_now db) k (abs_db db)) \<and>
    refines (db_keys pattern db) (sorted_list_of_set (spec_keys (time_now db) pattern (abs_db db)), abs_db db)"
  by (simp only: db_del_refines [OF assms] db_exists_refines [OF assms] db_type_refines [OF assms]
      db_keys_spec [OF assms] simp_thms)

theorem keyspace_operations_refine_witness:
  "refines (db_keys ''*'' sample_db) (sorted_list_of_set (spec_keys (time_now sample_db) ''*'' (abs_db sample_db)), abs_db sample_db)"
  using keyspace_operations_refine [OF sample_db_inv] by blast

text \<open>
  C22. Deadlines: \<open>expireAtMs\<close> sets the deadline of a live key or, when it has passed, deletes the key;
  \<open>expire\<close> does so for the current time plus the seconds, saturating at the largest \<open>long long\<close>;
  \<open>persist\<close> removes the deadline. \<open>ttlMs\<close> returns what is documented: -2 for a missing key, -1 for one without
  a deadline, otherwise the milliseconds left, which are then positive. It reads the clock twice, and this holds at
  the second reading when the clock has not run backwards and the key's deadline has not passed since the first; a
  deadline that passes in between is the finding \<open>FKV_Findings.ttl_reads_no_expiry\<close>. In every case the
  key is removed if it had expired at the first reading and nothing else changes.
\<close>

theorem expiry_operations_refine:
  assumes "db_inv db"
  shows "refines (expireAtMs_op k d db) (spec_expire_at d (time_now db) (time_after k db) k (abs_db db)) \<and>
    (\<exists>n. db_expire k s db = expireAtMs_op k (if s \<le> 0 then time_now db else min LLONG_MAX (time_now db + 1000 * s)) (db\<lparr>readings := n\<rparr>)) \<and>
    refines (db_persist k db) (spec_persist (time_now db) k (abs_db db)) \<and>
    (time_now db \<le> time_after k db \<and> \<not> passes_deadline (time_now db) (time_after k db) k (abs_db db) \<longrightarrow>
       refines (ttlMs k db) (spec_ttl (time_after k db) k (abs_db db)) \<and> (fst (ttlMs k db) \<in> {-2, -1} \<or> 0 < fst (ttlMs k db))) \<and>
    db_inv (snd (ttlMs k db)) \<and> abs_db (snd (ttlMs k db)) = purge (time_now db) k (abs_db db)"
proof -
  have "fst (ttlMs k db) \<in> {-2, -1} \<or> 0 < fst (ttlMs k db)" if "refines (ttlMs k db) (spec_ttl (time_after k db) k (abs_db db))"
  proof -
    from that have "fst (ttlMs k db) = fst (spec_ttl (time_after k db) k (abs_db db))" by (simp add: refines_def)
    with spec_ttl_range [of "time_after k db" k "abs_db db"] show ?thesis by simp
  qed
  moreover have "db_inv (snd (ttlMs k db))" "abs_db (snd (ttlMs k db)) = purge (time_now db) k (abs_db db)"
    using ttlMs_value [OF assms, of k] by (simp_all add: refines_def)
  moreover note expireAtMs_refines [OF assms] db_expire_deadline [OF assms, unfolded expire_deadline_def] db_persist_refines [OF assms]
    ttlMs_refines [OF assms]
  ultimately show ?thesis by blast
qed

theorem expiry_operations_refine_witness:
  "(\<exists>n. db_expire ''k'' 9223372036854775807 sample_db = expireAtMs_op ''k'' LLONG_MAX (sample_db\<lparr>readings := n\<rparr>)) \<and>
   refines (ttlMs ''k'' sample_db) (spec_ttl (time_after ''k'' sample_db) ''k'' (abs_db sample_db))"
proof -
  have "time_now sample_db \<ge> 0" using sample_db_inv by (rule time_nonneg)
  then have m: "min LLONG_MAX (time_now sample_db + 1000 * 9223372036854775807) = LLONG_MAX" by (simp add: LLONG_MAX_def)
  have "time_now sample_db \<le> time_after ''k'' sample_db" by code_simp
  moreover have "\<not> passes_deadline (time_now sample_db) (time_after ''k'' sample_db) ''k'' (abs_db sample_db)" by code_simp
  ultimately show ?thesis
    using expiry_operations_refine [OF sample_db_inv, of "''k''" _ 9223372036854775807] m by auto
qed

text \<open>
  C23. What an accepted \<open>SET\<close> stored is what the next \<open>GET\<close> of the key returns, and a key that \<open>DEL\<close>
  removed reads as missing, whatever was evicted or expired before, for every clock.
\<close>

theorem set_get_del:
  assumes "db_inv (database p)"
  shows "(execute [''SET'', k, v] p = (Inr reply, p') \<longrightarrow> \<not> is_error (payload reply) \<longrightarrow>
      fst (execute [''GET'', k] p') = Inr (reply_of (respBulkString v))) \<and>
    (execute [''DEL'', k] p = (Inr reply, p') \<longrightarrow> \<not> is_error (payload reply) \<longrightarrow>
      fst (execute [''GET'', k] p') = Inr (reply_of respNull))"
  using set_get [OF assms] del_get [OF assms] by blast

theorem set_get_del_witness:
  "fst (execute [''GET'', ''k''] (snd (execute [''SET'', ''k'', ''x''] sample_processor))) = Inr (reply_of (respBulkString ''x''))"
proof -
  have "fst (execute [''SET'', ''k'', ''x''] sample_processor) = Inr (reply_of (respSimpleString ''OK''))" by code_simp
  then have "execute [''SET'', ''k'', ''x''] sample_processor =
      (Inr (reply_of (respSimpleString ''OK'')), snd (execute [''SET'', ''k'', ''x''] sample_processor))"
    by (metis prod.collapse)
  moreover have "\<not> is_error (payload (reply_of (respSimpleString ''OK'')))"
    by (simp add: is_error_def reply_of_def respSimpleString_def)
  ultimately show ?thesis using set_get_del [OF sample_processor_inv] by blast
qed

text \<open>
  C24. Eviction by recency: with \<open>allkeys-lru\<close> and a limit, \<open>evictIfNeeded\<close> succeeds, removes the least
  recently used keys, exactly as many as the limit needs, reports them, keeps every other key, and
  leaves the used memory within the limit.
\<close>

theorem lru_eviction:
  assumes "db_inv db" "policy db = AllKeysLru" "memoryLimit db \<noteq> 0"
  shows "\<exists>keep gone db'. evictIfNeeded db = (Inr True, rev gone, db') \<and> db_inv db' \<and>
    keysByRecency db = keep @ gone \<and> keysByRecency db' = keep \<and> abs_db db' = abs_db db |` set keep \<and>
    memoryUsed db' \<le> memoryLimit db \<and>
    (\<forall>i < length gone. memoryLimit db < keys_cost db (keep @ take (Suc i) gone))"
  using evictIfNeeded_spec [OF assms] by (auto simp: evicts_def)

theorem lru_eviction_witness:
  "\<exists>keep gone db'. evictIfNeeded (setEvictionPolicy AllKeysLru (setMaxMemory 1 sample_db)) = (Inr True, rev gone, db') \<and>
    keysByRecency sample_db = keep @ gone \<and> memoryUsed db' \<le> 1"
proof -
  let ?db = "setEvictionPolicy AllKeysLru (setMaxMemory 1 sample_db)"
  have "db_inv ?db" "policy ?db = AllKeysLru" "memoryLimit ?db = 1" "keysByRecency ?db = keysByRecency sample_db"
    using sample_db_inv by (simp_all add: settings_inv) (simp_all add: setMaxMemory_def setEvictionPolicy_def keysByRecency_def)
  with lru_eviction [of ?db] show ?thesis by (simp del: split_paired_Ex) blast
qed

text \<open>
  C25. The memory counter is exact, whatever has happened: a server that starts, with any log file to replay, and
  runs through any iterations of its event loop, with all the commands, evictions and expirations in them, has
  in its counter the sum, over the keys it holds, each once, of what the entry costs by its key and its
  current payload, modulo the width of \<open>size_t\<close>.
\<close>

theorem memory_accounting:
  assumes "server_start config trunc fd msg (new_database clk rnd) os0 = Inr s0" "\<And>i. 0 \<le> clk i"
    and "(loop_step config)\<^sup>*\<^sup>* (start_loop config now1 now2 s0) l" "db = database (processor (server l))"
  shows "memoryUsed db = sum_list (map (\<lambda>k. ENTRY_OVERHEAD + string_size k + payloadMemory (value (entry_of k db))) (keysByRecency db)) \<and>
    distinct (keysByRecency db) \<and> set (keysByRecency db) = dom (abs_db db)"
proof -
  have "server_inv s0" using server_start_inv [OF new_database_inv [OF assms(2)] assms(1)] .
  then have "server_inv (server l)" using event_loop.reach_inv [OF assms(3)] by (simp add: start_loop_def)
  then have st: "db_struct db" using assms(4) by (simp add: server_inv_def db_invD)
  have "k \<in> set (keysByRecency db) \<longleftrightarrow> k \<in> dom (abs_db db)" for k
    using keysByRecency_props(3) [OF st, of k] by (auto simp: abs_db_def)
  with memoryUsed_sum [OF st] keysByRecency_props(1) [OF st] show ?thesis by (auto simp: keys_cost_def entry_cost_def)
qed

theorem memory_accounting_witness:
  "\<exists>s0 l db. server_start default_config None 3 [] (new_database int (\<lambda>_. 0)) (sample_os\<lparr>disk := Some []\<rparr>) = Inr s0 \<and>
     (loop_step default_config)\<^sup>*\<^sup>* (start_loop default_config 0 0 s0) l \<and> clients (server l) = [(7, new_client)] \<and>
     db = database (processor (server l)) \<and>
     memoryUsed db = sum_list (map (\<lambda>k. ENTRY_OVERHEAD + string_size k + payloadMemory (value (entry_of k db))) (keysByRecency db))"
proof -
  obtain s0 l1 l2 where r: "server_start default_config None 3 [] (new_database int (\<lambda>_. 0)) (sample_os\<lparr>disk := Some []\<rparr>) = Inr s0"
    "serving default_config [connect_round, request_round] [start_loop default_config 0 0 s0, l1]
      [[], [(7, respSimpleString ''OK'')]] (start_loop default_config 0 0 s0) l2" "clients (server l2) = [(7, new_client)]"
    using request_run by blast
  note steps = serving_steps [OF r(2)]
  from memory_accounting [OF r(1) _ steps refl] r(1,3) steps show ?thesis
    by (intro exI [of _ s0] exI [of _ l2] exI [of _ "database (processor (server l2))"]) simp
qed

text \<open>
  C26. The active expiration cycle ends for every random sequence and every time budget; it removes only
  keys whose deadline had passed when it began, and returns their number.
\<close>

theorem expiration_cycle:
  assumes "db_inv db"
  shows "\<exists>n db'. activeExpireCycle samples budget db = (Inr n, db') \<and> db_inv db' \<and> db_size db = db_size db' + n \<and>
    volatileKeyCount db = volatileKeyCount db' + n \<and>
    (\<forall>k. abs_db db' k = abs_db db k \<or>
       abs_db db' k = None \<and> (\<exists>v d. abs_db db k = Some (v, Some d) \<and> d \<le> time_now db))"
proof -
  obtain n db' where r: "activeExpireCycle samples budget db = (Inr n, db')" "reaps (time_now db) n db db'"
    using activeExpireCycle_reaps [OF assms] by blast
  have "\<exists>v d. abs_db db k = Some (v, Some d) \<and> d \<le> time_now db" if "abs_db db k = Some x" "expired_at (time_now db) x" for k x
    using that by (cases x) (auto simp: expired_at_def split: option.splits)
  with r show ?thesis unfolding reaps_def by (metis (no_types, lifting))
qed

theorem expiration_cycle_witness:
  "\<exists>n db'. activeExpireCycle 20 (\<lambda>_. False) sample_db = (Inr n, db') \<and> db_inv db' \<and> db_size sample_db = db_size db' + n"
  using expiration_cycle [OF sample_db_inv, of 20 "\<lambda>_. False"] by blast

text \<open>
  C27. The backtracking glob matcher decides the declarative meaning of patterns: \<open>*\<close> is any sequence,
  \<open>?\<close> any character, a backslash quotes, a bracket stands for one character of its class, or one outside it
  after \<open>^\<close>, everything else for itself. The members of a class are read by \<open>class_members\<close>: characters, quoted
  characters and ranges in either direction, up to the closing bracket or the end of the pattern. Ranges
  are in the order of \<open>char\<close>, taken to be signed.
\<close>

theorem glob_matches_meaning: "globMatch p t \<longleftrightarrow> glob_spec p t"
  by (rule globMatch_spec)

section \<open>Errors and bounds\<close>

text \<open>
  C28. A refused command changes nothing: an empty, unknown or malformed command, a write while the log
  cannot be written, and a growing write over the memory limit without eviction all get an error
  reply and leave the database and the log exactly as they were.
\<close>

theorem refused_commands:
  assumes "refused args p"
  shows "\<exists>reply p'. execute args p = (Inr reply, p') \<and> is_error (payload reply) \<and>
    database p' = database p \<and> aof p' = aof p"
  using assms by (rule refused_unchanged)

theorem refused_commands_witness:
  "\<exists>reply p'. execute [''set'', ''k'', ''v''] (sample_processor\<lparr>aof := Some (sample_aof\<lparr>writeFailed := True\<rparr>)\<rparr>) = (Inr reply, p') \<and>
    is_error (payload reply) \<and> database p' = database sample_processor"
proof -
  have "uppercase ''set'' = ''SET''" by code_simp
  then have "refused [''set'', ''k'', ''v''] (sample_processor\<lparr>aof := Some (sample_aof\<lparr>writeFailed := True\<rparr>)\<rparr>)"
    using lookup_commands(1) by (simp add: refused_def command_spec_def aof_healthy_def)
  from refused_commands [OF this] show ?thesis by auto
qed

text \<open>
  C29. Expiry commands do not overflow. \<open>EXPIRE\<close>, \<open>PEXPIRE\<close>, \<open>EXPIREAT\<close> and \<open>PEXPIREAT\<close> with a number ask for a
  deadline: the amount in milliseconds, plus the current time for the relative ones. When the product or the sum
  is not a \<open>long long\<close>, the command gets an error reply and changes neither the keyspace nor the
  log (only the clock may have been read). Otherwise a live key gets exactly this deadline, or is
  deleted when it has come, and the log gets the same; a missing key stays missing. This is with a log that can be
  written and within the memory limit; otherwise the command is refused or evicts first (C24, C28).
\<close>

theorem deadline_overflow:
  assumes "expiry_command (uppercase cmd) = Some (unitMs, absolute)" "cmd_parseInteger num = Some amount"
    and "ms = amount * unitMs" "due = (if absolute then ms else ms + time_now (database p))"
    and "db_inv (database p)" "pred_option aof_healthy (aof p)"
    and "memoryLimit (database p) = 0 \<or> memoryUsed (database p) \<le> memoryLimit (database p)"
  shows "if in_llong ms \<and> in_llong due
    then \<exists>reply p' i j. execute [cmd, key, num] p = (Inr (reply_of reply), p') \<and>
      deadline_effect key due (clock (database p) i) (clock (database p) j) p reply p'
    else \<exists>p' n. execute [cmd, key, num] p =
        (Inr (reply_of (respError (''invalid expire time in '' @ [SQUOTE] @ lowercase cmd @ [SQUOTE] @ '' command''))), p') \<and>
      database p' = (database p)\<lparr>readings := n\<rparr> \<and> aof p' = aof p"
proof (cases "in_llong ms \<and> in_llong due")
  case True
  then have "wanted_deadline amount unitMs absolute (time_now (database p)) = Some due"
    unfolding assms(3,4) wanted_deadline_def Let_def by simp
  then show ?thesis unfolding if_P [OF True] by (rule expiry_accepted [OF assms(1,6,7,2) _ assms(5)])
next
  case False
  then have "wanted_deadline amount unitMs absolute (time_now (database p)) = None"
    unfolding assms(3,4) wanted_deadline_def Let_def by simp
  then show ?thesis unfolding if_not_P [OF False] by (rule expiry_refused [OF assms(1,6,7,2)])
qed

theorem deadline_overflow_witness:
  "(\<exists>p' n. execute [''expire'', ''k'', to_string LLONG_MAX] sample_processor =
      (Inr (reply_of (respError (''invalid expire time in '' @ [SQUOTE] @ ''expire'' @ [SQUOTE] @ '' command''))), p') \<and>
    database p' = (database sample_processor)\<lparr>readings := n\<rparr> \<and> aof p' = aof sample_processor) \<and>
   (\<exists>reply p' i j. execute [''PEXPIREAT'', ''k'', to_string 5000] sample_processor = (Inr (reply_of reply), p') \<and>
    deadline_effect ''k'' 5000 (clock (database sample_processor) i) (clock (database sample_processor) j) sample_processor reply p')"
proof -
  let ?p = sample_processor
  have "map_option aof_healthy (aof ?p) = Some True" "memoryLimit (database ?p) = 0" by code_simp+
  then have p: "pred_option aof_healthy (aof ?p)" "memoryLimit (database ?p) = 0 \<or> memoryUsed (database ?p) \<le> memoryLimit (database ?p)"
    by (auto simp: option.pred_set)
  have c: "expiry_command (uppercase ''expire'') = Some (1000, False)" "expiry_command (uppercase ''PEXPIREAT'') = Some (1, True)"
    "lowercase ''expire'' = ''expire''"
    by code_simp+
  have n: "cmd_parseInteger (to_string LLONG_MAX) = Some LLONG_MAX" "cmd_parseInteger (to_string 5000) = Some 5000"
    by (simp_all add: parse_to_string in_llong_def LLONG_MIN_def LLONG_MAX_def)
  have no: "\<not> (in_llong (LLONG_MAX * 1000) \<and>
      in_llong (if False then LLONG_MAX * 1000 else LLONG_MAX * 1000 + time_now (database ?p)))"
    and yes: "in_llong (5000 * 1) \<and> in_llong (if True then 5000 * 1 else 5000 * 1 + time_now (database ?p))"
    by (simp_all add: in_llong_def LLONG_MIN_def LLONG_MAX_def)
  note d = deadline_overflow [OF c(1) n(1) refl refl sample_processor_inv p, of "''k''", unfolded if_not_P [OF no] c(3)]
    deadline_overflow [OF c(2) n(2) refl refl sample_processor_inv p, of "''k''", unfolded if_P [OF yes], unfolded if_True mult_1_right]
  show ?thesis by (rule conjI [OF d])
qed

text \<open>
  C30. A memory size that is accepted is the number of the digits times the unit of the suffix, computed
  without wrap-around.
\<close>

theorem memory_size_exact:
  assumes "parseMemorySize s = Some w"
  shows "\<exists>digits suffix k. s = digits @ suffix \<and> digits \<noteq> [] \<and> (\<forall>c \<in> set digits. is_digit c) \<and>
    unit_multiplier (lowercase suffix) = Some k \<and> unat w = digits_value digits * k"
  using assms by (rule parseMemorySize_exact)

theorem memory_size_exact_witness:
  "\<exists>digits suffix k. ''12b'' = digits @ suffix \<and> digits \<noteq> [] \<and> unit_multiplier (lowercase suffix) = Some k \<and>
    unat (12 :: size_t) = digits_value digits * k"
proof -
  have "map is_digit ''12b'' = [True, True, False]" "lowercase ''b'' = ''b''" "digits_value ''12'' = 12" by code_simp+
  then have "parseMemorySize ''12b'' = Some 12"
    by (simp add: parseMemorySize_def from_chars_ull_def unit_multiplier_def)
  from memory_size_exact [OF this] show ?thesis by blast
qed

text \<open>
  C31. Options that are accepted are usable: from the default settings, whatever is on the command line,
  the port fits sixteen bits and the frequency is between 1 and 500, so the interval of the background
  work is between two milliseconds and a second; and \<open>poll\<close> is asked to wait for the whole milliseconds
  that are left of an interval that began at \<open>start\<close>, at most a second, with nothing lost in the conversion to \<open>int\<close>.
\<close>

theorem options_usable:
  assumes "parseArguments argv default_config = Parsed config"
  shows "1 \<le> config_port config \<and> config_port config \<le> 65535 \<and> 2000000 \<le> cronInterval config \<and>
    cronInterval config \<le> 1000000000 \<and>
    (start \<le> current \<and> nextCron l = start + cronInterval config \<longrightarrow>
       pollTimeout l current = max 0 ((nextCron l - current) div 1000000) \<and> pollTimeout l current \<le> 1000)"
proof -
  have "config_ok default_config" by (simp add: config_ok_def default_config_def)
  then have ok: "config_ok config" using assms parseArguments_ok by blast
  with cronInterval_bounds [OF ok] pollTimeout_exact [OF ok] show ?thesis by (auto simp: config_ok_def)
qed

theorem options_usable_witness:
  "1 \<le> config_port (default_config\<lparr>appendOnly := False\<rparr>) \<and> 2000000 \<le> cronInterval (default_config\<lparr>appendOnly := False\<rparr>) \<and>
   pollTimeout (start_loop (default_config\<lparr>appendOnly := False\<rparr>) 0 0 sample_server) 500000 = 99"
proof -
  let ?c = "default_config\<lparr>appendOnly := False\<rparr>"
  have "parseArguments [''--appendonly'', ''no''] default_config = Parsed ?c" by (simp add: parse_option_def)
  from options_usable [OF this, of 0 500000 "start_loop ?c 0 0 sample_server"] show ?thesis
    by (simp add: start_loop_def cronInterval_def default_config_def)
qed

section \<open>Replies and front ends\<close>

text \<open>
  C32. Every reply is one well-formed value of the protocol, for every command and every state, as long
  as no argument contains a carriage return.
\<close>

theorem replies_well_formed:
  assumes "\<forall>a \<in> set args. CR \<notin> set a" "execute args p = (Inr reply, p')"
  shows "\<exists>r. well_formed r \<and> payload reply = encode r"
  using execute_is_reply [OF assms] by (simp add: is_reply_def)

theorem replies_well_formed_witness:
  "\<exists>reply p' r. execute [''LRANGE'', ''l'', ''0'', ''-1''] sample_processor = (Inr reply, p') \<and>
     well_formed r \<and> payload reply = encode r"
proof -
  obtain reply p' where "execute [''LRANGE'', ''l'', ''0'', ''-1''] sample_processor = (Inr reply, p')"
    using execute_total [OF sample_processor_inv] by blast
  with replies_well_formed [OF _ this] show ?thesis by simp
qed

text \<open>
  C33. The terminal rendering of a reply is the one its structure prescribes, for every well-formed
  reply, however deeply nested: strings quoted unless raw, rows of an array numbered, aligned and
  indented under their parent.
\<close>

theorem reply_rendering:
  assumes "well_formed r" "in_llong (int (length (encode r)))"
  shows "formatReply (encode r @ rest) raw = render raw 0 r"
  using assms by (rule formatReply_render)

theorem reply_rendering_witness:
  "formatReply (encode (Array [Bulk ''a'', Array [Integer 7, Null]])) False = render False 0 (Array [Bulk ''a'', Array [Integer 7, Null]])"
proof -
  have "length (encode (Array [Bulk ''a'', Array [Integer 7, Null]])) = 24" by code_simp
  then show ?thesis
    using reply_rendering [of "Array [Bulk ''a'', Array [Integer 7, Null]]" "[]" False]
    by (simp add: in_llong_def LLONG_MIN_def LLONG_MAX_def)
qed

text \<open>
  C34. The inline tokenizer reads back what the formatter quotes: a line of quoted arguments, with any
  bytes in them, is split into exactly these arguments.
\<close>

theorem quoting_roundtrip:
  "tokenizeCommandLine (concat (map (\<lambda>v. '' '' @ quote v) args)) = Some args"
  using tokenize_quoted [of args] by (simp add: quoted_line_def)

text \<open>
  C35. The shell serves its input: over a consistent database, for every list of input lines, it ends, and its
  output is the banner, for every line up to the first \<open>EXIT\<close> or \<open>QUIT\<close> a prompt with the answer (none for a blank line, a
  complaint about unbalanced quotes, the formatted reply of a command), a last prompt and the closing
  message; the replies and the final processor are those of executing the commands of these lines in order, each
  after an expiration cycle.
\<close>

theorem shell_serves:
  assumes "db_inv db"
  shows "\<exists>rs p. shell_main budget lines db =
      (Inr (shell_banner @ transcript (served_lines lines) rs @ prompt @ ''FlashKV stopped'' @ [LF]), p) \<and>
    works_through (commands_in (served_lines lines)) (new_processor db None) rs p \<and> db_inv (database p)"
proof -
  obtain rs p where "shell_loop budget 0 lines shell_banner (new_processor db None) =
      (Inr (shell_banner @ transcript (served_lines lines) rs @ prompt), p)"
    "works_through (commands_in (served_lines lines)) (new_processor db None) rs p" "db_inv (database p)"
    using shell_loop_serves [OF new_processor_inv [OF assms]] by blast
  then show ?thesis by (intro exI [of _ rs] exI [of _ p]) (simp add: shell_main_def)
qed

theorem shell_serves_witness:
  "\<exists>r p. shell_main (\<lambda>_ _. False) [''SET k 1'', [DQUOTE], ''quit'', ''GET k''] start_db =
     (Inr (shell_banner @ prompt @ formatReply (payload r) False @ [LF] @ prompt @ ''Invalid argument(s): unbalanced quotes'' @ [LF] @
        prompt @ ''FlashKV stopped'' @ [LF]), p) \<and>
     works_through [[''SET'', ''k'', ''1'']] (new_processor start_db None) [r] p"
proof -
  have t: "tokenizeCommandLine ''SET k 1'' = Some [''SET'', ''k'', ''1'']" "tokenizeCommandLine [DQUOTE] = None"
    "tokenizeCommandLine ''quit'' = Some [''quit'']" "uppercase ''quit'' = ''QUIT''" "uppercase ''SET'' = ''SET''"
    by code_simp+
  then have s: "served_lines [''SET k 1'', [DQUOTE], ''quit'', ''GET k''] = [Some [''SET'', ''k'', ''1''], None]"
    by (simp add: served_lines_Cons leaves_shell_def)
  from shell_serves [OF start_db_inv, of "\<lambda>_ _. False" "[''SET k 1'', [DQUOTE], ''quit'', ''GET k'']"] obtain rs p where
    r: "shell_main (\<lambda>_ _. False) [''SET k 1'', [DQUOTE], ''quit'', ''GET k''] start_db =
      (Inr (shell_banner @ transcript [Some [''SET'', ''k'', ''1''], None] rs @ prompt @ ''FlashKV stopped'' @ [LF]), p)"
    "works_through [[''SET'', ''k'', ''1'']] (new_processor start_db None) rs p"
    unfolding s by auto
  from r(2) obtain x where "rs = [x]" by (auto elim: works_through.cases)
  with r t(5) show ?thesis by (intro exI [of _ x] exI [of _ p]) simp
qed

text \<open>
  C36. The inspector of the demo page gets the printed form of one JSON value: the counters and, in the
  order of recency, every key that has not expired with its type, remaining time, size and preview.
  Looking does not change anything: the database afterwards differs only in the number of clock
  readings; values, deadlines, recency order and counters are the same.
\<close>

theorem inspector:
  "fst (flashkv_state_json w) = print_json (state_json (wasm_processor w)) \<and>
   (\<exists>n. database (wasm_processor (snd (flashkv_state_json w))) = (database (wasm_processor w))\<lparr>readings := n\<rparr>)"
  using inspected_reads [of "database (wasm_processor w)" "keysByRecency (database (wasm_processor w))"]
  by (simp add: flashkv_state_json_print same_keyspace_def Let_def)

text \<open>
  C37. Strings in the JSON output can be read back: a reader of JSON string literals recovers the bytes
  from what \<open>appendJsonString\<close> writes and stops right behind them.
\<close>

theorem json_strings_roundtrip:
  "\<exists>body. appendJsonString json v = json @ DQUOTE # body \<and> json_string (body @ rest) = Some (v, rest)"
  using json_string_literal [of v rest] by (auto simp: appendJsonString_def)

section \<open>The load generator\<close>

text \<open>
  C38. The load generator and the server understand each other. What a batch puts on the wire, however \<open>send\<close> cuts it,
  makes the server execute the commands of the batch in order and answer each; and the load
  generator, however this answer is cut into chunks, finds one reply for
  each command, at the exact place where it ends, and has nothing left over.
\<close>

theorem load_generator_batch:
  assumes "buildCommand test 0 [] \<noteq> []" "\<forall>key \<in> set drawn. in_llong key" "dataSize opts \<le> MAX_BULK_SIZE" "db_inv (database p)"
    and "\<forall>i. 0 < results i" "run_batch opts test drawn results [] chunks = (wire, ended)"
    and "processInput (new_client\<lparr>input_buf := wire\<rparr>) p = (r, c, p')"
    and "concat chunks = output_buf c" "\<forall>c \<in> set chunks. c \<noteq> [] \<and> length c \<le> CHUNK_SIZE" "in_llong (int (length (concat chunks)))"
  shows "r = Inr () \<and> c = new_client\<lparr>output_buf := fst (serve (batch_commands opts test drawn) p)\<rparr> \<and>
    p' = snd (serve (batch_commands opts test drawn) p) \<and> ended = BatchDone [] []"
  using batch_against_server [OF assms] by blast

theorem load_generator_batch_witness:
  "\<exists>wire c p'. run_batch default_options ''PING'' [4, 2] (\<lambda>_. 3) [] [''+PON'', ''G'' @ CRLF @ ''+PONG'' @ CRLF] = (wire, BatchDone [] []) \<and>
     processInput (new_client\<lparr>input_buf := wire\<rparr>) sample_processor = (Inr (), c, p') \<and> output_buf c = ''+PONG'' @ CRLF @ ''+PONG'' @ CRLF"
proof -
  let ?chunks = "[''+PON'', ''G'' @ CRLF @ ''+PONG'' @ CRLF]"
  obtain wire ended where b: "run_batch default_options ''PING'' [4, 2] (\<lambda>_. 3) [] ?chunks = (wire, ended)" by (metis surj_pair)
  have "fst (run_batch default_options ''PING'' [4, 2] (\<lambda>_. 3) [] ?chunks) = respArray [''PING''] @ respArray [''PING'']"
    by (subst batch_wire) (simp_all add: batch_commands_def bench_arguments_def)
  with b have wire: "wire = respArray [''PING''] @ respArray [''PING'']" by simp
  have s: "processInput (new_client\<lparr>input_buf := wire\<rparr>) sample_processor =
      (Inr (), new_client\<lparr>output_buf := fst (serve [[''PING''], [''PING'']] sample_processor)\<rparr>, snd (serve [[''PING''], [''PING'']] sample_processor))"
    using processInput_pipeline [of "[[''PING''], [''PING'']]" "[]" "new_client\<lparr>input_buf := wire\<rparr>" sample_processor] sample_processor_inv
    by (simp add: wire loggable_def MAX_ARGUMENTS_def MAX_BULK_SIZE_def quits_def uppercase_def to_upper_def byte_def new_client_def parseRespCommand_def)
  have o: "fst (serve [[''PING''], [''PING'']] sample_processor) = ''+PONG'' @ CRLF @ ''+PONG'' @ CRLF" by code_simp
  have "buildCommand ''PING'' 0 [] \<noteq> []" "\<forall>key \<in> set [4, 2]. in_llong key" "dataSize default_options \<le> MAX_BULK_SIZE" "\<forall>i. 0 < (\<lambda>_ :: nat. 3 :: int) i"
    "concat ?chunks = output_buf (new_client\<lparr>output_buf := fst (serve [[''PING''], [''PING'']] sample_processor)\<rparr>)"
    "\<forall>c \<in> set ?chunks. c \<noteq> [] \<and> length c \<le> CHUNK_SIZE" "in_llong (int (length (concat ?chunks)))"
    by (simp_all add: o [symmetric] del: serve.simps)
      (simp_all add: o buildCommand_def bench_arguments_def respArray_def default_options_def MAX_BULK_SIZE_def CHUNK_SIZE_def
        CRLF_def in_llong_def LLONG_MIN_def LLONG_MAX_def del: serve.simps)
  from load_generator_batch [OF this(1-3) sample_processor_inv this(4) b s this(5-7)] have "ended = BatchDone [] []" by blast
  with b s o show ?thesis by simp
qed

text \<open>
  C39. The load generator sends what it reports. For accepted options and under every interleaving of
  its threads, the connections never send more commands than requested, the shared counter never
  leaves the range of \<open>long long\<close>, some thread can go on until all have left their loops, which
  happens after finitely many steps, and when none of them failed the number of requests that the
  rate is computed from is the number of commands that were sent.
\<close>

theorem load_generator_counts:
  assumes "parseOptions argv default_options = BenchOptions opts" "(thread_move opts)\<^sup>*\<^sup>* (start_threads opts) t"
  shows "sum_list (sent_by t) \<le> requests opts \<and> in_llong (remaining t) \<and>
    (list_all id (finished t) \<or> (\<exists>t'. thread_move opts t t')) \<and> wfp (thread_move opts)\<inverse>\<inverse> \<and>
    (list_all id (finished t) \<and> \<not> failed t \<longrightarrow> runTest opts t = Inr (sum_list (sent_by t)))"
proof -
  have ok: "options_ok opts" using parseOptions_ok [OF assms(1) default_options_ok] .
  note share = threads_share [OF ok assms(2)]
  have "finished t \<noteq> []" using share(3) ok by (auto simp: options_ok_def)
  then have "True \<in> set (finished t)" if "list_all id (finished t)" using that by (cases "finished t") auto
  moreover have "\<exists>t'. thread_move opts t t'" if "\<not> list_all id (finished t)"
    using that thread_move.batch [of _ t opts] by (auto simp: list_all_length)
  ultimately show ?thesis using share thread_move_stops [OF ok] by (auto simp: runTest_def)
qed

theorem load_generator_counts_witness:
  "runTest (default_options\<lparr>bench_clients := 1, requests := 3, pipeline := 2\<rparr>)
     \<lparr>remaining = -3, sent_by = [3], finished = [True], failed = False\<rparr> = Inr 3"
proof -
  let ?opts = "default_options\<lparr>bench_clients := 1, requests := 3, pipeline := 2\<rparr>"
  let ?t = "\<lambda>n k b. \<lparr>remaining = n, sent_by = [k], finished = [b], failed = False\<rparr>"
  have "stoi ''1'' = Some 1" "stoll ''3'' = Some 3" "stoi ''2'' = Some 2" by code_simp+
  then have "parseOptions [''-c'', ''1'', ''-n'', ''3'', ''-P'', ''2''] default_options = BenchOptions ?opts"
    by (simp add: bench_option_def default_options_def)
  moreover have "start_threads ?opts = ?t 3 0 False" by (simp add: start_threads_def default_options_def)
  moreover have "thread_move ?opts (?t 3 0 False) (?t 1 2 False)" "thread_move ?opts (?t 1 2 False) (?t (-1) 3 False)"
      "thread_move ?opts (?t (-1) 3 False) (?t (-3) 3 True)"
    using thread_move.batch [of 0 "?t 3 0 False" ?opts] thread_move.batch [of 0 "?t 1 2 False" ?opts]
      thread_move.batch [of 0 "?t (-1) 3 False" ?opts]
    by (simp_all add: thread_step_def claim_def default_options_def)
  then have "(thread_move ?opts)\<^sup>*\<^sup>* (?t 3 0 False) (?t (-3) 3 True)" by (meson converse_rtranclp_into_rtranclp rtranclp.rtrancl_refl)
  ultimately show ?thesis
    using load_generator_counts [of "[''-c'', ''1'', ''-n'', ''3'', ''-P'', ''2'']" ?opts "?t (-3) 3 True"]
    by (simp del: parseOptions.simps)
qed

end
